(* ===== verification/Prelude.thy ===== *)
theory Prelude
  imports Main "HOL-Library.Word" "HOL-Library.AList" "HOL-Library.Multiset"
begin

text \<open>
  What every component of the development shares.

  \<^item> The machine types of the Rust code (\<open>u8\<close>, \<open>u32\<close>, \<open>u64\<close> as words) and
    byte strings.  A Rust \<open>String\<close> is the list of its UTF-8 bytes, as a \<open>string\<close>.
  \<^item> Panics and results: a call either returns (\<open>Inr\<close>) or panics (\<open>Inl\<close>).
  \<^item> The standard-library operations the source uses: big-endian integers,
    \<open>format!\<close> of an unsigned integer, \<open>saturating_sub\<close>, \<open>Vec::remove\<close>,
    \<open>Iterator::position\<close>, iteration over a hash map.
  \<^item> The generic facts about them, and the locale of state machines with a counter
    budget that the services interpret.
\<close>

unbundle bit_operations_syntax

section \<open>Types\<close>

type_synonym u8 = "8 word"
type_synonym u16 = "16 word"
type_synonym u32 = "32 word"
type_synonym i64 = "64 word"
type_synonym u64 = "64 word"
type_synonym bytes = "8 word list"

named_theorems machine_defs "definitions of the source's operations, unfolded by the component proofs"

subsection \<open>Panics\<close>

text \<open>What a Rust call can die of in the modelled code.\<close>

datatype panic = IndexOutOfBounds | UnwrapNone | RemainderByZero | ZeroPeriod

type_synonym 'a outcome = "panic + 'a"

abbreviation Panics :: "panic \<Rightarrow> 'a outcome" where
  "Panics \<equiv> Inl"

abbreviation Returns :: "'a \<Rightarrow> 'a outcome" where
  "Returns \<equiv> Inr"

definition panics :: "'a outcome \<Rightarrow> bool" where
  "panics r = (case r of Inl _ \<Rightarrow> True | Inr _ \<Rightarrow> False)"

lemma panics_simps [simp]: "panics (Inl p)" "\<not> panics (Inr v)"
  by (simp_all add: panics_def)

lemma not_panics_iff: "\<not> panics r \<longleftrightarrow> (\<exists>v. r = Inr v)"
  by (cases r) auto

lemma map_sum_InrD: "map_sum f g r = Inr v \<Longrightarrow> \<exists>w. r = Inr w \<and> v = g w"
  by (cases r) auto

section \<open>Byte strings and integers\<close>

text \<open>\<open>BufMut::put_u32\<close> and \<open>u32::from_be_bytes\<close>: four bytes, most significant first.\<close>

definition be_bytes :: "u32 \<Rightarrow> bytes" where
  "be_bytes w = [ucast (drop_bit 24 w), ucast (drop_bit 16 w), ucast (drop_bit 8 w), ucast w]"

definition from_be_bytes :: "u8 \<Rightarrow> u8 \<Rightarrow> u8 \<Rightarrow> u8 \<Rightarrow> u32" where
  "from_be_bytes a b c d =
     push_bit 24 (ucast a) OR push_bit 16 (ucast b) OR push_bit 8 (ucast c) OR ucast d"

text \<open>\<open>u32::to_le_bytes\<close> and \<open>u32::from_le_bytes\<close>: least significant first.\<close>

definition le_bytes :: "u32 \<Rightarrow> bytes" where
  "le_bytes w = rev (be_bytes w)"

definition from_le_bytes :: "u8 \<Rightarrow> u8 \<Rightarrow> u8 \<Rightarrow> u8 \<Rightarrow> u32" where
  "from_le_bytes a b c d = from_be_bytes d c b a"

lemma length_be_bytes [simp]: "length (be_bytes w) = 4"
  by (simp add: be_bytes_def)

lemma length_le_bytes [simp]: "length (le_bytes w) = 4"
  by (simp add: le_bytes_def)

lemma from_be_bytes_be_bytes:
  "from_be_bytes (ucast (drop_bit 24 w)) (ucast (drop_bit 16 w)) (ucast (drop_bit 8 w)) (ucast w) = w"
proof (rule bit_word_eqI)
  fix n :: nat
  assume "n < LENGTH(32)"
  then consider "n < 8" | "8 \<le> n" "n < 16" | "16 \<le> n" "n < 24" | "24 \<le> n" "n < 32"
    by fastforce
  then show "bit (from_be_bytes (ucast (drop_bit 24 w)) (ucast (drop_bit 16 w))
      (ucast (drop_bit 8 w)) (ucast w)) n = bit w n"
    by cases (auto simp: from_be_bytes_def bit_simps)
qed

lemma be_bytes_nth:
  "be_bytes w ! 0 = ucast (drop_bit 24 w)" "be_bytes w ! 1 = ucast (drop_bit 16 w)"
  "be_bytes w ! 2 = ucast (drop_bit 8 w)" "be_bytes w ! 3 = ucast w"
  by (simp_all add: be_bytes_def)

lemma from_be_bytes_of_be_bytes [simp]:
  "from_be_bytes (be_bytes w ! 0) (be_bytes w ! 1) (be_bytes w ! 2) (be_bytes w ! 3) = w"
  "from_be_bytes (be_bytes w ! 0) (be_bytes w ! Suc 0) (be_bytes w ! 2) (be_bytes w ! 3) = w"
  by (simp_all add: be_bytes_def from_be_bytes_be_bytes)

lemma be_bytes_inject [simp]: "be_bytes v = be_bytes w \<longleftrightarrow> v = w"
  by (metis from_be_bytes_of_be_bytes(1))

lemma le_bytes_inject [simp]: "le_bytes v = le_bytes w \<longleftrightarrow> v = w"
  by (simp add: le_bytes_def)

text \<open>\<open>u32::saturating_sub\<close>.\<close>

definition saturating_sub :: "'a::len word \<Rightarrow> 'a word \<Rightarrow> 'a word" where
  "saturating_sub a b = (if a < b then 0 else a - b)"

lemma unat_saturating_sub: "unat (saturating_sub a b) = unat a - unat b"
  by (auto simp: saturating_sub_def word_less_nat_alt unat_sub word_le_nat_alt not_less)

lemma unat_max: "unat (max a b) = max (unat a) (unat b)"
  by (simp add: max_def word_le_nat_alt)

text \<open>\<open>u64::saturating_add\<close>.\<close>

definition saturating_add :: "'a::len word \<Rightarrow> 'a word \<Rightarrow> 'a word" where
  "saturating_add a b = (if a + b < a then - 1 else a + b)"

lemma unat_saturating_add:
  "unat (saturating_add a b :: 'a::len word) = min (unat a + unat b) (2 ^ LENGTH('a) - 1)"
proof (cases "unat a + unat b < 2 ^ LENGTH('a)")
  case True
  then have "unat (a + b) = unat a + unat b" by (simp add: unat_word_ariths)
  then show ?thesis using True by (simp add: saturating_add_def word_less_nat_alt)
next
  case False
  have ab: "unat a < 2 ^ LENGTH('a)" "unat b < 2 ^ LENGTH('a)" by (rule unsigned_less)+
  with False have "unat a + unat b - 2 ^ LENGTH('a) < 2 ^ LENGTH('a)" by linarith
  with False have "unat (a + b) = unat a + unat b - 2 ^ LENGTH('a)"
    by (simp add: unat_word_ariths le_mod_geq not_less)
  then have "a + b < a"
    using False ab unfolding word_less_nat_alt by linarith
  then show ?thesis
    using False by (simp add: saturating_add_def unsigned_minus_1_eq_mask mask_eq_exp_minus_1)
qed

lemma unat_word_of_nat: "n < 2 ^ LENGTH('a) \<Longrightarrow> unat (word_of_nat n :: 'a::len word) = n"
  by (simp add: unat_of_nat)

lemma u64_bound: "unat (w :: u64) < 2 ^ 64"
  using unsigned_less [of w] by simp

text \<open>An atomic counter's \<open>fetch_add(1)\<close> wraps; below the top it is a successor.\<close>

lemma unat_inc: "w \<noteq> (- 1 :: 'a::len word) \<Longrightarrow> unat (w + 1) = Suc (unat w)"
  by (metis add.commute add.right_neutral add_diff_cancel_right' add_eq_0_iff2 plus_1_eq_Suc unatSuc)

lemma inc_noteq: "w \<noteq> (- 1 :: 'a::len word) \<Longrightarrow> w < w + 1"
  by (simp add: word_less_nat_alt unat_inc)

subsection \<open>Decimal and hexadecimal formatting\<close>

text \<open>\<open>format!("{}", n)\<close> and \<open>format!("{:X}", n)\<close> for an unsigned integer.\<close>

definition digit_char :: "nat \<Rightarrow> char" where
  "digit_char d = char_of (if d < 10 then 48 + d else 55 + d)"

fun show_base :: "nat \<Rightarrow> nat \<Rightarrow> string" where
  "show_base b n =
     (if b < 2 \<or> n < b then [digit_char n] else show_base b (n div b) @ [digit_char (n mod b)])"

declare show_base.simps [simp del]

definition fmt_u32 :: "u32 \<Rightarrow> string" where
  "fmt_u32 w = show_base 10 (unat w)"

definition fmt_hex :: "u32 \<Rightarrow> string" where
  "fmt_hex w = show_base 16 (unat w)"

definition digit_val :: "char \<Rightarrow> nat" where
  "digit_val c = (if of_char c < (58::nat) then of_char c - 48 else of_char c - 55)"

definition read_base :: "nat \<Rightarrow> string \<Rightarrow> nat" where
  "read_base b s = foldl (\<lambda>a c. b * a + digit_val c) 0 s"

lemma digit_val_char [simp]: "d < 36 \<Longrightarrow> digit_val (digit_char d) = d"
  by (simp add: digit_val_def digit_char_def)

lemma read_show_base: "2 \<le> b \<Longrightarrow> b \<le> 36 \<Longrightarrow> read_base b (show_base b n) = n"
proof (induction b n rule: show_base.induct)
  case (1 b n)
  show ?case
  proof (cases "n < b")
    case True
    with 1 show ?thesis by (simp add: show_base.simps [of b n] read_base_def)
  next
    case False
    with 1 have "read_base b (show_base b (n div b)) = n div b" by simp
    moreover have "n mod b < 36" using 1 by (meson less_le_trans mod_less_divisor not_less zero_less_numeral)
    ultimately show ?thesis using False 1
      by (simp add: show_base.simps [of b n] read_base_def)
  qed
qed

lemma show_base_inject:
  "2 \<le> b \<Longrightarrow> b \<le> 36 \<Longrightarrow> show_base b m = show_base b n \<longleftrightarrow> m = n"
  by (metis read_show_base)

lemma fmt_u32_inject [simp]: "fmt_u32 v = fmt_u32 w \<longleftrightarrow> v = w"
  by (simp add: fmt_u32_def show_base_inject word_unat_eq_iff)

lemma show_base_10_digits: "c \<in> set (show_base 10 n) \<Longrightarrow> of_char c \<in> {48..57::nat}"
proof (induction "10::nat" n rule: show_base.induct)
  case (1 n)
  show ?case
  proof (cases "n < 10")
    case True
    with 1 show ?thesis by (auto simp: show_base.simps [of 10 n] digit_char_def)
  next
    case False
    then have "n mod 10 < 10" by simp
    with 1 False show ?thesis by (auto simp: show_base.simps [of 10 n] digit_char_def)
  qed
qed

lemma fmt_u32_digits: "c \<in> set (fmt_u32 w) \<Longrightarrow> of_char c \<in> {48..57::nat}"
  unfolding fmt_u32_def by (rule show_base_10_digits)

text \<open>A decimal number never holds a character outside \<open>0..9\<close>, so it ends where a separator starts.\<close>

lemma fmt_u32_no_colon [simp]: "CHR '':'' \<notin> set (fmt_u32 w)" "CHR ''#'' \<notin> set (fmt_u32 w)"
  by (auto dest: fmt_u32_digits)

lemma append_sep_inject:
  assumes "c \<notin> set xs" "c \<notin> set ys" "xs @ c # us = ys @ c # vs"
  shows "xs = ys \<and> us = vs"
  using assms
proof (induction xs arbitrary: ys)
  case Nil
  then show ?case by (cases ys) auto
next
  case (Cons x xs)
  then show ?case by (cases ys) auto
qed

text \<open>Text outside ASCII, given by its UTF-8 bytes.\<close>

definition utf8 :: "nat list \<Rightarrow> string" where
  "utf8 ns = map char_of ns"

section \<open>Lists, maps and hash maps\<close>

subsection \<open>Lists\<close>

text \<open>\<open>Iterator::position\<close>.\<close>

fun position :: "('a \<Rightarrow> bool) \<Rightarrow> 'a list \<Rightarrow> nat option" where
  "position P [] = None"
| "position P (x # xs) = (if P x then Some 0 else map_option Suc (position P xs))"

lemma position_Some:
  "position P xs = Some i \<Longrightarrow> i < length xs \<and> P (xs ! i) \<and> (\<forall>j<i. \<not> P (xs ! j))"
proof (induction xs arbitrary: i)
  case (Cons x xs)
  then show ?case by (auto simp: nth_Cons' split: if_splits)
qed simp

lemma position_None: "position P xs = None \<longleftrightarrow> (\<forall>x\<in>set xs. \<not> P x)"
  by (induction xs) auto

lemma find_SomeD: "find P xs = Some x \<Longrightarrow> x \<in> set xs \<and> P x"
  by (induction xs) (auto split: if_splits)

lemma filter_less_upt: "filter (\<lambda>k. a < k) [b ..< c] = [max (Suc a) b ..< c]"
  by (induction c) (auto simp: max_def not_less_eq_eq)

text \<open>\<open>Vec::remove\<close> at an index in range.\<close>

definition remove_nth :: "nat \<Rightarrow> 'a list \<Rightarrow> 'a list" where
  "remove_nth i xs = take i xs @ drop (Suc i) xs"

lemma length_remove_nth [simp]: "i < length xs \<Longrightarrow> length (remove_nth i xs) = length xs - 1"
  by (auto simp: remove_nth_def)

lemma mset_remove_nth: "i < length xs \<Longrightarrow> mset xs = add_mset (xs ! i) (mset (remove_nth i xs))"
  by (simp add: remove_nth_def id_take_nth_drop [of i xs, THEN arg_cong [where f = mset]])

lemma set_remove_nth_subset: "set (remove_nth i xs) \<subseteq> set xs"
  by (auto simp: remove_nth_def dest: in_set_takeD in_set_dropD)

lemma nth_remove_nth:
  "i < length xs \<Longrightarrow> j < length xs - 1 \<Longrightarrow>
   remove_nth i xs ! j = (if j < i then xs ! j else xs ! Suc j)"
  by (auto simp: remove_nth_def nth_append min_def)

lemma length_le_2_cases:
  assumes "length xs \<le> 2"
  obtains "xs = []" | a where "xs = [a]" | a b where "xs = [a, b]"
  using assms by (cases xs; cases "tl xs"; cases "tl (tl xs)") auto

subsection \<open>Iterating a hash map\<close>

text \<open>
  A \<open>HashMap\<close> or \<open>DashMap\<close> is a finite map.  Nothing is known of the order in which
  \<open>iter()\<close> or \<open>values()\<close> visits it, so an operation that iterates takes the visiting
  order \<open>it\<close> (a list of keys) as an argument; keys that are not present yield nothing.
  \<open>visits it m\<close> says that \<open>it\<close> is an order of the keys of \<open>m\<close>.
\<close>

definition entries :: "'k list \<Rightarrow> ('k \<rightharpoonup> 'v) \<Rightarrow> ('k \<times> 'v) list" where
  "entries it m = List.map_filter (\<lambda>k. map_option (Pair k) (m k)) it"

definition visits :: "'k list \<Rightarrow> ('k \<rightharpoonup> 'v) \<Rightarrow> bool" where
  "visits it m \<longleftrightarrow> distinct it \<and> set it = dom m"

lemma entries_simps [simp]:
  "entries [] m = []"
  "entries (k # ks) m = (case m k of None \<Rightarrow> entries ks m | Some v \<Rightarrow> (k, v) # entries ks m)"
  by (auto simp: entries_def map_filter_simps split: option.splits)

lemma set_entries: "(k, v) \<in> set (entries it m) \<longleftrightarrow> k \<in> set it \<and> m k = Some v"
  by (induction it) (auto split: option.splits)

lemma entries_lookup: "(k, v) \<in> set (entries it m) \<Longrightarrow> m k = Some v"
  by (simp add: set_entries)

lemma keys_entries: "visits it m \<Longrightarrow> map fst (entries it m) = it"
proof -
  have "set ks \<subseteq> dom m \<Longrightarrow> map fst (entries ks m) = ks" for ks
    by (induction ks) auto
  then show "visits it m \<Longrightarrow> ?thesis" by (simp add: visits_def)
qed

lemma entries_map_of:
  assumes "visits it m"
  shows "map_of (entries it m) = m"
proof
  fix k
  have "distinct (map fst (entries it m))" using assms by (simp add: keys_entries visits_def)
  then show "map_of (entries it m) k = m k"
    using assms
    by (cases "m k")
       (auto simp: visits_def map_of_eq_None_iff set_entries dom_def image_iff
             intro!: map_of_is_SomeI)
qed

lemma visits_empty [simp]: "visits [] m \<longleftrightarrow> m = Map.empty"
  by (auto simp: visits_def)

section \<open>State machines\<close>

text \<open>
  A component that handles one event at a time: \<open>step\<close> gives the next state, \<open>cnt\<close> an
  upper bound on the identifiers handed out so far.  Identifiers are 32-bit counters that
  wrap, so an invariant on them is only kept while the budget \<open>lim\<close> is not used up;
  one step uses at most one identifier.
\<close>

locale budgeted_machine =
  fixes step :: "'s \<Rightarrow> 'e \<Rightarrow> 's"
    and inv :: "'s \<Rightarrow> bool"
    and cnt :: "'s \<Rightarrow> nat"
    and lim :: nat
    and ok :: "'e \<Rightarrow> bool"
  assumes inv_step: "inv s \<Longrightarrow> ok e \<Longrightarrow> cnt s < lim \<Longrightarrow> inv (step s e)"
    and cnt_step: "inv s \<Longrightarrow> ok e \<Longrightarrow> cnt s < lim \<Longrightarrow> cnt (step s e) \<le> Suc (cnt s)"
begin

lemma run_inv:
  "inv s \<Longrightarrow> \<forall>e\<in>set es. ok e \<Longrightarrow> cnt s + length es \<le> lim \<Longrightarrow> inv (foldl step s es)"
proof (induction es arbitrary: s)
  case (Cons e es)
  then have "cnt (step s e) \<le> Suc (cnt s)" and "inv (step s e)"
    by (auto intro: cnt_step inv_step)
  with Cons show ?case by simp
qed simp

lemma run_prefix_inv:
  "inv s \<Longrightarrow> \<forall>e\<in>set (es @ fs). ok e \<Longrightarrow> cnt s + length (es @ fs) \<le> lim \<Longrightarrow>
   inv (foldl step s es)"
  by (rule run_inv) auto

lemma run_cnt:
  "inv s \<Longrightarrow> \<forall>e\<in>set es. ok e \<Longrightarrow> cnt s + length es \<le> lim \<Longrightarrow>
   cnt (foldl step s es) \<le> cnt s + length es"
proof (induction es arbitrary: s)
  case (Cons e es)
  then have "cnt (step s e) \<le> Suc (cnt s)" and "inv (step s e)"
    by (auto intro: cnt_step inv_step)
  with Cons show ?case by fastforce
qed simp

end

section \<open>Text out of bytes\<close>

text \<open>\<open>String::from_utf8_lossy\<close>: every maximal ill-formed part becomes U+FFFD.\<close>

definition utf8_cont :: "u8 \<Rightarrow> bool" where
  "utf8_cont b \<longleftrightarrow> 0x80 \<le> b \<and> b \<le> 0xBF"

text \<open>The length of the sequence that starts with \<open>b\<close>, and the range of its second byte.\<close>

definition utf8_lead :: "u8 \<Rightarrow> (nat \<times> u8 \<times> u8) option" where
  "utf8_lead b =
     (if b < 0x80 then Some (1, 0, 0)
      else if 0xC2 \<le> b \<and> b \<le> 0xDF then Some (2, 0x80, 0xBF)
      else if b = 0xE0 then Some (3, 0xA0, 0xBF)
      else if 0xE1 \<le> b \<and> b \<le> 0xEC then Some (3, 0x80, 0xBF)
      else if b = 0xED then Some (3, 0x80, 0x9F)
      else if 0xEE \<le> b \<and> b \<le> 0xEF then Some (3, 0x80, 0xBF)
      else if b = 0xF0 then Some (4, 0x90, 0xBF)
      else if 0xF1 \<le> b \<and> b \<le> 0xF3 then Some (4, 0x80, 0xBF)
      else if b = 0xF4 then Some (4, 0x80, 0x8F)
      else None)"

text \<open>How many of the following bytes belong to the sequence, at most \<open>n\<close>.\<close>

fun conts :: "nat \<Rightarrow> bytes \<Rightarrow> nat" where
  "conts 0 bs = 0"
| "conts n [] = 0"
| "conts (Suc n) (b # bs) = (if utf8_cont b then Suc (conts n bs) else 0)"

definition utf8_part :: "u8 \<Rightarrow> bytes \<Rightarrow> bool \<times> nat" where
  "utf8_part b bs =
     (case utf8_lead b of
        None \<Rightarrow> (False, 0)
      | Some (n, lo, hi) \<Rightarrow>
          if n = 1 then (True, 0)
          else (case bs of
                  [] \<Rightarrow> (False, 0)
                | c # cs \<Rightarrow>
                    if lo \<le> c \<and> c \<le> hi
                    then (let k = conts (n - 2) cs in (k = n - 2, Suc k))
                    else (False, 0)))"

function lossy :: "bytes \<Rightarrow> bytes" where
  "lossy [] = []"
| "lossy (b # bs) =
     (case utf8_part b bs of
        (ok, k) \<Rightarrow> (if ok then b # take k bs else [0xEF, 0xBF, 0xBD]) @ lossy (drop k bs))"
  by pat_completeness auto
termination by (relation "measure length") auto

declare lossy.simps [simp del]

lemma lossy_ascii: "\<forall>b\<in>set bs. b < 0x80 \<Longrightarrow> lossy bs = bs"
  by (induction bs) (simp_all add: lossy.simps utf8_part_def utf8_lead_def)

end
