(* ===== verification/Common.thy ===== *)
theory Common
  imports Prelude
begin

text \<open>
  The crate \<open>grimoire-common\<close>: the message-number table, the game domain of a message
  and the global connection number.

  \<^item> \<open>domain_of\<close> keeps the high eight bits of a message number, the game domain.
  \<^item> \<open>conn_make\<close>, \<open>gateway_id_of\<close> and \<open>local_of\<close> pack a gateway id (eight bits) and a
    local sequence number (twenty-four bits) into one \<open>u32\<close>.

  The lemmas show that the packing loses nothing but the high byte of the local number,
  and when two connection numbers are equal.
\<close>

section \<open>Message numbers\<close>

definition DOMAIN_MASK :: u32 where "DOMAIN_MASK = 0xFF000000"
definition DOMAIN_ROOM :: u32 where "DOMAIN_ROOM = 0x01000000"
definition DOMAIN_BATTLE :: u32 where "DOMAIN_BATTLE = 0x02000000"
definition DOMAIN_CARD :: u32 where "DOMAIN_CARD = 0x03000000"

definition SYS_CONN_ID :: u32 where "SYS_CONN_ID = 0x0000FFFF"
definition SYS_RESUME :: u32 where "SYS_RESUME = 0x0000FFFE"
definition SYS_BIND_SESSION :: u32 where "SYS_BIND_SESSION = 0x0000FFFD"
definition SYS_AUTH :: u32 where "SYS_AUTH = 0x0000FFFC"

definition domain_of :: "u32 \<Rightarrow> u32" where
  "domain_of msg_id = msg_id AND DOMAIN_MASK"

definition ROOM_LOGIN :: u32 where "ROOM_LOGIN = DOMAIN_ROOM OR 0x0001"
definition ROOM_CREATE :: u32 where "ROOM_CREATE = DOMAIN_ROOM OR 0x0002"
definition ROOM_JOIN :: u32 where "ROOM_JOIN = DOMAIN_ROOM OR 0x0003"
definition ROOM_LEAVE :: u32 where "ROOM_LEAVE = DOMAIN_ROOM OR 0x0004"
definition ROOM_LIST :: u32 where "ROOM_LIST = DOMAIN_ROOM OR 0x0005"
definition ROOM_CHAT :: u32 where "ROOM_CHAT = DOMAIN_ROOM OR 0x0006"
definition ROOM_STATE_PUSH :: u32 where "ROOM_STATE_PUSH = DOMAIN_ROOM OR 0x0100"
definition ROOM_CHAT_PUSH :: u32 where "ROOM_CHAT_PUSH = DOMAIN_ROOM OR 0x0101"

definition BATTLE_JOIN :: u32 where "BATTLE_JOIN = DOMAIN_BATTLE OR 0x0001"
definition BATTLE_INPUT :: u32 where "BATTLE_INPUT = DOMAIN_BATTLE OR 0x0002"
definition BATTLE_LEAVE :: u32 where "BATTLE_LEAVE = DOMAIN_BATTLE OR 0x0003"
definition BATTLE_RESYNC :: u32 where "BATTLE_RESYNC = DOMAIN_BATTLE OR 0x0004"
definition BATTLE_FRAME_SYNC :: u32 where "BATTLE_FRAME_SYNC = DOMAIN_BATTLE OR 0x0100"

definition CARD_START :: u32 where "CARD_START = DOMAIN_CARD OR 0x0001"
definition CARD_PLAY :: u32 where "CARD_PLAY = DOMAIN_CARD OR 0x0002"
definition CARD_END_TURN :: u32 where "CARD_END_TURN = DOMAIN_CARD OR 0x0003"
definition CARD_STATE :: u32 where "CARD_STATE = DOMAIN_CARD OR 0x0004"
definition CARD_SNAPSHOT_PUSH :: u32 where "CARD_SNAPSHOT_PUSH = DOMAIN_CARD OR 0x0100"

lemmas domain_defs = DOMAIN_MASK_def DOMAIN_ROOM_def DOMAIN_BATTLE_def DOMAIN_CARD_def

lemmas sys_defs = SYS_CONN_ID_def SYS_RESUME_def SYS_BIND_SESSION_def SYS_AUTH_def

lemmas room_msg_defs =
  ROOM_LOGIN_def ROOM_CREATE_def ROOM_JOIN_def ROOM_LEAVE_def ROOM_LIST_def ROOM_CHAT_def
  ROOM_STATE_PUSH_def ROOM_CHAT_PUSH_def

lemmas battle_msg_defs =
  BATTLE_JOIN_def BATTLE_INPUT_def BATTLE_LEAVE_def BATTLE_RESYNC_def BATTLE_FRAME_SYNC_def

lemmas card_msg_defs =
  CARD_START_def CARD_PLAY_def CARD_END_TURN_def CARD_STATE_def CARD_SNAPSHOT_PUSH_def

lemmas msg_defs = domain_defs sys_defs room_msg_defs battle_msg_defs card_msg_defs

section \<open>Service names\<close>

definition svc_GATEWAY :: string where "svc_GATEWAY = ''gateway''"
definition svc_ROOM :: string where "svc_ROOM = ''grimoire-room-svc''"
definition svc_BATTLE :: string where "svc_BATTLE = ''grimoire-battle-svc''"
definition svc_CARD :: string where "svc_CARD = ''grimoire-card-svc''"

lemmas svc_defs = svc_GATEWAY_def svc_ROOM_def svc_BATTLE_def svc_CARD_def

section \<open>Connection numbers\<close>

definition GATEWAY_ID_SHIFT :: nat where "GATEWAY_ID_SHIFT = 24"
definition LOCAL_MASK :: u32 where "LOCAL_MASK = 0x00FFFFFF"

definition conn_make :: "u8 \<Rightarrow> u32 \<Rightarrow> u32" where
  "conn_make gateway_id local =
     push_bit GATEWAY_ID_SHIFT (ucast gateway_id) OR (local AND LOCAL_MASK)"

definition gateway_id_of :: "u32 \<Rightarrow> u8" where
  "gateway_id_of conn_id = ucast (drop_bit GATEWAY_ID_SHIFT conn_id)"

definition local_of :: "u32 \<Rightarrow> u32" where
  "local_of conn_id = conn_id AND LOCAL_MASK"

lemmas conn_defs = conn_make_def gateway_id_of_def local_of_def GATEWAY_ID_SHIFT_def

lemma LOCAL_MASK_mask: "LOCAL_MASK = mask 24"
  by (simp add: LOCAL_MASK_def mask_eq_exp_minus_1)

lemma gateway_id_of_make [simp]: "gateway_id_of (conn_make g l) = g"
  by (rule bit_word_eqI) (auto simp: conn_defs LOCAL_MASK_mask bit_simps)

lemma local_of_make [simp]: "local_of (conn_make g l) = l AND LOCAL_MASK"
  by (rule bit_word_eqI) (auto simp: conn_defs LOCAL_MASK_mask bit_simps)

lemma make_of_parts [simp]: "conn_make (gateway_id_of c) (local_of c) = c"
  by (rule bit_word_eqI)
    (auto simp: conn_defs LOCAL_MASK_mask bit_simps not_less dest: bit_imp_le_length)

lemma local_of_eq_iff: "l AND LOCAL_MASK = l' AND LOCAL_MASK \<longleftrightarrow> unat l mod 2 ^ 24 = unat l' mod 2 ^ 24"
proof -
  have "unat (w AND LOCAL_MASK) = unat w mod 2 ^ 24" for w :: u32
    by (simp only: LOCAL_MASK_mask take_bit_eq_mask [symmetric] unsigned_take_bit_eq)
      (simp only: take_bit_eq_mod)
  then show ?thesis by (simp add: word_unat_eq_iff)
qed

text \<open>
  Two connection numbers are equal exactly when the gateways are and the local
  sequence numbers agree modulo \<open>2^24\<close>; a connection number gives back its gateway.
  So gateways never hand out each other's numbers, and one gateway reuses a number
  first after \<open>2^24\<close> connections.
\<close>

lemma conn_id_unique:
  "(conn_make g l = conn_make g' l' \<longleftrightarrow> g = g' \<and> unat l mod 2 ^ 24 = unat l' mod 2 ^ 24)
   \<and> gateway_id_of (conn_make g l) = g
   \<and> conn_make (gateway_id_of c) (local_of c) = c"
proof -
  have "conn_make g l = conn_make g' l' \<longleftrightarrow> g = g' \<and> l AND LOCAL_MASK = l' AND LOCAL_MASK"
    by (metis gateway_id_of_make local_of_make make_of_parts)
  then show ?thesis by (simp add: local_of_eq_iff)
qed

end
