(* ===== verification/SvcFw.thy ===== *)
theory SvcFw
  imports Common
begin

text \<open>
  What the three game services share: the messages of the bridge between a gateway and a
  service (\<open>ForwardRequest\<close>, \<open>ForwardReply\<close> of \<open>proto/messages.proto\<close>), the calls a handler
  makes on the service framework (\<open>grimoire-svcfw\<close>), and the loop that serves a bridge stream.

  A handler is a function from the service's state to its outcome, its next state and the
  list of framework calls in the order they are made.  A call whose result the code throws
  away is such an effect; a payload is kept as the message before its encoding.
  A handler that panics keeps the state it had written so far.

  The locale \<open>service_bridge\<close> is the contract a gateway relies on: a reply carries the
  connection and the sequence number of its request.  The card, room and battle services
  interpret it.
\<close>

record forward_request =
  fq_conn_id :: u32
  fq_seq :: u32
  fq_msg_id :: u32
  fq_payload :: bytes

record forward_reply =
  fr_conn_id :: u32
  fr_seq :: u32
  fr_msg_id :: u32
  fr_code :: u32
  fr_payload :: bytes

text \<open>\<open>SessionDir\<close>, \<open>ProfileStore\<close> and \<open>Pusher\<close> calls.\<close>

datatype 'p effect =
    DirBind u32 u32 string      \<comment> \<open>\<open>bind(domain, session, node)\<close>\<close>
  | DirRemove u32 u32           \<comment> \<open>\<open>remove(domain, session)\<close>\<close>
  | LobbySet u32 u32            \<comment> \<open>\<open>lobby_set(domain, session)\<close>\<close>
  | LobbyClear u32 u32          \<comment> \<open>\<open>lobby_clear(domain, session)\<close>\<close>
  | RecordGame "int list" int   \<comment> \<open>\<open>record_game(players, winner)\<close>\<close>
  | CreateProfile int string    \<comment> \<open>\<open>create(player_id, name)\<close>\<close>
  | PushTcp u32 u32 'p          \<comment> \<open>\<open>push(conn_id, msg_id, message)\<close>\<close>
  | PushUdp u32 u32 'p          \<comment> \<open>\<open>push_udp(conn_id, msg_id, message)\<close>\<close>

type_synonym ('r, 's, 'p) handled = "'r outcome \<times> 's \<times> 'p effect list"

abbreviation next_state :: "('r, 's, 'p) handled \<Rightarrow> 's" where
  "next_state h \<equiv> fst (snd h)"

abbreviation outcome_of :: "('r, 's, 'p) handled \<Rightarrow> 'r outcome" where
  "outcome_of h \<equiv> fst h"

abbreviation effects_of :: "('r, 's, 'p) handled \<Rightarrow> 'p effect list" where
  "effects_of h \<equiv> snd (snd h)"

definition reply_ok :: "forward_request \<Rightarrow> bytes \<Rightarrow> forward_reply" where
  "reply_ok req payload =
     \<lparr>fr_conn_id = fq_conn_id req, fr_seq = fq_seq req, fr_msg_id = fq_msg_id req,
      fr_code = 0, fr_payload = payload\<rparr>"

definition string_bytes :: "string \<Rightarrow> bytes" where
  "string_bytes s = map of_char s"

definition reply_err :: "forward_request \<Rightarrow> string \<Rightarrow> forward_reply" where
  "reply_err req text =
     \<lparr>fr_conn_id = fq_conn_id req, fr_seq = fq_seq req, fr_msg_id = fq_msg_id req,
      fr_code = 1, fr_payload = string_bytes text\<rparr>"

definition unknown_msg :: "forward_request \<Rightarrow> string" where
  "unknown_msg req = ''unknown msg_id 0x'' @ fmt_hex (fq_msg_id req)"

text \<open>A handler's answer turned into the reply of the bridge.\<close>

definition replying :: "forward_request \<Rightarrow> ('r \<Rightarrow> bytes) \<Rightarrow> ('r, 's, 'p) handled \<Rightarrow>
    (forward_reply, 's, 'p) handled" where
  "replying req enc h = (case h of (r, s, es) \<Rightarrow> (map_sum id (\<lambda>v. reply_ok req (enc v)) r, s, es))"

definition refusing :: "forward_request \<Rightarrow> string \<Rightarrow> 's \<Rightarrow> (forward_reply, 's, 'p) handled" where
  "refusing req text s = (Inr (reply_err req text), s, [])"

definition bad_payload :: "string \<Rightarrow> string" where
  "bad_payload e = ''bad payload: '' @ e"

text \<open>What a list of framework calls leaves in the session directory.\<close>

fun dir_apply :: "(u32 \<times> u32 \<rightharpoonup> string) \<Rightarrow> 'p effect \<Rightarrow> (u32 \<times> u32 \<rightharpoonup> string)" where
  "dir_apply m (DirBind d k node) = m((d, k) \<mapsto> node)"
| "dir_apply m (DirRemove d k) = m((d, k) := None)"
| "dir_apply m _ = m"

definition dir_after :: "(u32 \<times> u32 \<rightharpoonup> string) \<Rightarrow> 'p effect list \<Rightarrow> (u32 \<times> u32 \<rightharpoonup> string)" where
  "dir_after m es = foldl dir_apply m es"

lemma dir_after_simps [simp]:
  "dir_after m [] = m" "dir_after m (e # es) = dir_after (dir_apply m e) es"
  "dir_after m (es @ fs) = dir_after (dir_after m es) fs"
  by (simp_all add: dir_after_def)

fun is_push :: "'p effect \<Rightarrow> bool" where
  "is_push (PushTcp _ _ _) = True"
| "is_push (PushUdp _ _ _) = True"
| "is_push _ = False"

lemma dir_after_pushes [simp]: "\<forall>e\<in>set es. is_push e \<Longrightarrow> dir_after m es = m"
proof (induction es arbitrary: m)
  case (Cons e es)
  then show ?case by (cases e) auto
qed simp

lemmas bridge_defs = reply_ok_def reply_err_def replying_def refusing_def

section \<open>The bridge contract\<close>

definition echoes :: "forward_request \<Rightarrow> forward_reply \<Rightarrow> bool" where
  "echoes req rep \<longleftrightarrow> fr_conn_id rep = fq_conn_id req \<and> fr_seq rep = fq_seq req
     \<and> fr_msg_id rep = fq_msg_id req \<and> (fr_code rep = 0 \<or> fr_code rep = 1)"

lemma echoes_reply [simp]: "echoes req (reply_ok req p)" "echoes req (reply_err req t)"
  by (simp_all add: echoes_def reply_ok_def reply_err_def)

lemma replying_echoes:
  "replying req enc h = (Inr rep, s, es) \<Longrightarrow> echoes req rep"
  by (cases h; cases "fst h") (auto simp: replying_def)

text \<open>
  \<open>bridge_stream\<close>: one task takes the requests of a stream in order, sends each reply, and
  ends when the stream ends; a panic of a handler ends it too.  Each request comes with the
  environment of its handling (iteration orders, random choices).
\<close>

fun serve_stream :: "('env \<Rightarrow> 's \<Rightarrow> forward_request \<Rightarrow> (forward_reply, 's, 'p) handled) \<Rightarrow>
    's \<Rightarrow> ('env \<times> forward_request) list \<Rightarrow> forward_reply list \<times> 's \<times> 'p effect list" where
  "serve_stream process s [] = ([], s, [])"
| "serve_stream process s ((env, req) # reqs) =
     (case process env s req of
        (Inl _, s', es) \<Rightarrow> ([], s', es)
      | (Inr rep, s', es) \<Rightarrow>
          (case serve_stream process s' reqs of
             (reps, s'', es') \<Rightarrow> (rep # reps, s'', es @ es')))"

locale service_bridge =
  fixes process :: "'env \<Rightarrow> 's \<Rightarrow> forward_request \<Rightarrow> (forward_reply, 's, 'p) handled"
    and known :: "u32 \<Rightarrow> bool"
  assumes reply_echoes: "process env s req = (Inr rep, s', es) \<Longrightarrow> echoes req rep"
    and unknown_refused: "\<not> known (fq_msg_id req) \<Longrightarrow>
          process env s req = refusing req (unknown_msg req) s"
begin

lemma stream_replies:
  "serve_stream process s reqs = (reps, s', es) \<Longrightarrow>
   length reps \<le> length reqs \<and> list_all2 echoes (take (length reps) (map snd reqs)) reps"
proof (induction reqs arbitrary: s reps s' es)
  case (Cons er reqs)
  obtain env req where er: "er = (env, req)" by (cases er)
  show ?case
  proof (cases "process env s req")
    case (fields r s1 es1)
    show ?thesis
    proof (cases r)
      case (Inl p)
      with Cons.prems fields er show ?thesis by simp
    next
      case (Inr rep)
      then obtain reps' s2 es2 where "serve_stream process s1 reqs = (reps', s2, es2)"
        by (cases "serve_stream process s1 reqs")
      with Cons fields er Inr show ?thesis by (auto dest: reply_echoes)
    qed
  qed
qed simp

lemma unknown_state: "\<not> known (fq_msg_id req) \<Longrightarrow>
  process env s req = (Inr (reply_err req (unknown_msg req)), s, [])"
  by (simp add: unknown_refused refusing_def)

end

end
