(* ===== verification/Card.thy ===== *)
theory Card
  imports SvcFw
begin

text \<open>
  The crate \<open>grimoire-card-svc\<close>: the turn-based card game.

  \<^item> \<open>card_game\<close> is one game, with the operations of \<open>impl CardGame\<close>.
  \<^item> \<open>card_app\<close> is the service's state; \<open>card_start\<close>, \<open>card_play\<close>, \<open>card_end_turn\<close>,
    \<open>card_state\<close>, \<open>push_snapshot\<close> and \<open>card_leave\<close> are the methods of \<open>impl App\<close>.
    \<open>card_start\<close> is split where the code awaits the lock of the chosen game, so that
    two interleaved starts can be put together from the parts.
  \<^item> \<open>card_process\<close> is the dispatch of a bridge request.

  An index out of range, the \<open>unwrap\<close> of \<open>None\<close> and a remainder by zero are panics of the
  model, as in the code.  The shuffled deck and the order in which the game table is
  visited are arguments.
\<close>

section \<open>Games\<close>

definition GAME_CAPACITY :: nat where "GAME_CAPACITY = 2"
definition INIT_HP :: u32 where "INIT_HP = 20"
definition HAND_SIZE :: nat where "HAND_SIZE = 3"
definition PHASE_PLAYING :: u32 where "PHASE_PLAYING = 0"
definition PHASE_FINISHED :: u32 where "PHASE_FINISHED = 1"

lemmas card_consts [simp] =
  GAME_CAPACITY_def INIT_HP_def HAND_SIZE_def PHASE_PLAYING_def PHASE_FINISHED_def

record card_def =
  cd_id :: u32
  cd_name :: string
  cd_power :: u32

definition deck :: "card_def list" where
  "deck =
     [\<lparr>cd_id = 1, cd_name = utf8 [0xE7, 0x81, 0xAB, 0xE7, 0x90, 0x83], cd_power = 8\<rparr>,
      \<lparr>cd_id = 2, cd_name = utf8 [0xE5, 0x86, 0xB0, 0xE9, 0x94, 0xA5], cd_power = 6\<rparr>,
      \<lparr>cd_id = 3, cd_name = utf8 [0xE9, 0x97, 0xAA, 0xE7, 0x94, 0xB5], cd_power = 9\<rparr>,
      \<lparr>cd_id = 4, cd_name = utf8 [0xE6, 0x9A, 0x97, 0xE5, 0x88, 0x83], cd_power = 5\<rparr>,
      \<lparr>cd_id = 5, cd_name = utf8 [0xE7, 0x9B, 0xBE, 0xE5, 0x87, 0xBB], cd_power = 4\<rparr>,
      \<lparr>cd_id = 6, cd_name = utf8 [0xE6, 0xAF, 0x92, 0xE6, 0xB6, 0xB2], cd_power = 7\<rparr>]"

record game_player =
  gp_player_id :: u32
  gp_name :: string
  gp_hp :: u32
  gp_score :: u32
  gp_hand :: "card_def list"
  gp_conn_id :: u32

record card_game =
  cg_id :: u32
  cg_phase :: u32
  cg_turn :: nat
  cg_winner :: u32
  cg_players :: "game_player list"

text \<open>\<open>shuffle\<close> is the random permutation the \<open>rand\<close> library applies.\<close>

definition deal_hand :: "(card_def list \<Rightarrow> card_def list) \<Rightarrow> card_def list" where
  "deal_hand shuffle = take HAND_SIZE (shuffle deck)"

definition player_name :: "u32 \<Rightarrow> string" where
  "player_name player_id = utf8 [0xE7, 0x8E, 0xA9, 0xE5, 0xAE, 0xB6] @ fmt_u32 player_id"

definition new_player :: "u32 \<Rightarrow> u32 \<Rightarrow> (card_def list \<Rightarrow> card_def list) \<Rightarrow> game_player" where
  "new_player conn_id player_id shuffle =
     \<lparr>gp_player_id = player_id, gp_name = player_name player_id, gp_hp = INIT_HP, gp_score = 0,
      gp_hand = deal_hand shuffle, gp_conn_id = conn_id\<rparr>"

definition new_game :: "u32 \<Rightarrow> u32 \<Rightarrow> u32 \<Rightarrow> (card_def list \<Rightarrow> card_def list) \<Rightarrow> card_game" where
  "new_game gid conn_id player_id shuffle =
     \<lparr>cg_id = gid, cg_phase = PHASE_PLAYING, cg_turn = 0, cg_winner = 0,
      cg_players = [new_player conn_id player_id shuffle]\<rparr>"

definition add_player ::
    "card_game \<Rightarrow> u32 \<Rightarrow> u32 \<Rightarrow> (card_def list \<Rightarrow> card_def list) \<Rightarrow> card_game" where
  "add_player g conn_id player_id shuffle =
     g\<lparr>cg_players := cg_players g @ [new_player conn_id player_id shuffle]\<rparr>"

definition is_full :: "card_game \<Rightarrow> bool" where
  "is_full g \<longleftrightarrow> GAME_CAPACITY \<le> length (cg_players g)"

definition player_idx_of :: "card_game \<Rightarrow> u32 \<Rightarrow> nat option" where
  "player_idx_of g player_id = position (\<lambda>p. gp_player_id p = player_id) (cg_players g)"

text \<open>The first player without hit points ends the game; the winner is the first other one.\<close>

definition check_finish :: "card_game \<Rightarrow> card_game" where
  "check_finish g =
     (case find (\<lambda>p. gp_hp p = 0) (cg_players g) of
        None \<Rightarrow> g
      | Some p \<Rightarrow> g\<lparr>cg_phase := PHASE_FINISHED,
          cg_winner := (case find (\<lambda>q. gp_player_id q \<noteq> gp_player_id p) (cg_players g) of
                          Some q \<Rightarrow> gp_player_id q | None \<Rightarrow> 0)\<rparr>)"

subsection \<open>The view of one player\<close>

record card_player_view =
  cv_player_id :: u32
  cv_name :: string
  cv_hp :: u32
  cv_score :: u32
  cv_hand :: "card_def list"
  cv_hand_count :: u32

record card_game_state =
  cs_game_id :: u32
  cs_turn_player :: u32
  cs_phase :: u32
  cs_winner :: u32
  cs_players :: "card_player_view list"

definition player_view :: "nat \<Rightarrow> nat \<times> game_player \<Rightarrow> card_player_view" where
  "player_view recipient ip = (case ip of (i, p) \<Rightarrow>
     \<lparr>cv_player_id = gp_player_id p, cv_name = gp_name p, cv_hp = gp_hp p, cv_score = gp_score p,
      cv_hand = (if i = recipient then gp_hand p else []),
      cv_hand_count = word_of_nat (length (gp_hand p))\<rparr>)"

definition view_for :: "card_game \<Rightarrow> nat \<Rightarrow> card_game_state outcome" where
  "view_for g recipient =
     (if length (cg_players g) \<le> cg_turn g then Inl IndexOutOfBounds
      else Inr \<lparr>cs_game_id = cg_id g,
                cs_turn_player = gp_player_id (cg_players g ! cg_turn g),
                cs_phase = cg_phase g, cs_winner = cg_winner g,
                cs_players = map (player_view recipient) (enumerate 0 (cg_players g))\<rparr>)"

section \<open>The service\<close>

record card_app =
  ca_games :: "u32 \<rightharpoonup> card_game"
  ca_conn_game :: "u32 \<rightharpoonup> u32 \<times> nat"
  ca_next_player :: u32
  ca_next_game :: u32
  ca_store :: bool          \<comment> \<open>\<open>store\<close> is \<open>Some\<close>\<close>
  ca_session_dir :: bool    \<comment> \<open>\<open>session_dir\<close> is \<open>Some\<close>\<close>
  ca_node_id :: string

definition card_new :: "bool \<Rightarrow> bool \<Rightarrow> string \<Rightarrow> card_app" where
  "card_new store session_dir node_id =
     \<lparr>ca_games = Map.empty, ca_conn_game = Map.empty, ca_next_player = 1, ca_next_game = 1,
      ca_store = store, ca_session_dir = session_dir, ca_node_id = node_id\<rparr>"

datatype card_resp =
    CardStartResp "card_game_state option"
  | CardPlayResp bool string "card_game_state option"
  | CardEndTurnResp bool "card_game_state option"
  | CardStateResp "card_game_state option"

datatype card_push = CardSnapshotPush "card_game_state option"

type_synonym 'r card_handled = "('r, card_app, card_push) handled"

text \<open>Every view is computed before the first push, so a panic pushes nothing.\<close>

fun snapshot_targets :: "card_game \<Rightarrow> (nat \<times> game_player) list \<Rightarrow> card_push effect list outcome" where
  "snapshot_targets g [] = Inr []"
| "snapshot_targets g ((i, p) # ps) =
     (case view_for g i of
        Inl e \<Rightarrow> Inl e
      | Inr v \<Rightarrow> map_sum id ((#) (PushTcp (gp_conn_id p) CARD_SNAPSHOT_PUSH (CardSnapshotPush (Some v))))
                  (snapshot_targets g ps))"

definition push_snapshot :: "card_app \<Rightarrow> u32 \<Rightarrow> card_push effect list outcome" where
  "push_snapshot app game_id =
     (case ca_games app game_id of
        None \<Rightarrow> Inr []
      | Some g \<Rightarrow> snapshot_targets g (enumerate 0 (cg_players g)))"

subsection \<open>Starting\<close>

text \<open>Already in a game: the current view.\<close>

definition start_existing :: "card_app \<Rightarrow> u32 \<Rightarrow> card_game_state outcome option" where
  "start_existing app conn_id =
     (case ca_conn_game app conn_id of
        Some (gid, idx) \<Rightarrow> (case ca_games app gid of Some g \<Rightarrow> Some (view_for g idx) | None \<Rightarrow> None)
      | None \<Rightarrow> None)"

text \<open>The first game, in visiting order, that is being played and not full.\<close>

definition find_waiting :: "card_app \<Rightarrow> u32 list \<Rightarrow> u32 option" where
  "find_waiting app it =
     map_option fst (find (\<lambda>(gid, g). cg_phase g = PHASE_PLAYING \<and> \<not> is_full g)
                          (entries it (ca_games app)))"

text \<open>Taking a seat in the game chosen before (or in a new one), under that game's lock.\<close>

definition take_seat ::
    "card_game \<Rightarrow> u32 \<Rightarrow> u32 \<Rightarrow> (card_def list \<Rightarrow> card_def list) \<Rightarrow> nat \<times> card_game" where
  "take_seat game conn_id player_id shuffle =
     (if is_full game then (0, game)
      else if (\<exists>p\<in>set (cg_players game). gp_conn_id p = conn_id)
           then (case player_idx_of game player_id of Some i \<Rightarrow> (i, game) | None \<Rightarrow> (0, game))
           else (let game' = add_player game conn_id player_id shuffle
                 in (length (cg_players game') - 1, game')))"

definition start_alloc ::
    "card_app \<Rightarrow> u32 \<Rightarrow> u32 option \<Rightarrow> (card_def list \<Rightarrow> card_def list) \<Rightarrow> u32 \<times> u32 \<times> card_app" where
  "start_alloc app conn_id target shuffle =
     (let player_id = ca_next_player app;
          app1 = app\<lparr>ca_next_player := player_id + 1\<rparr>
      in case target of
           Some gid \<Rightarrow> (player_id, gid, app1)
         | None \<Rightarrow>
             let gid = ca_next_game app1
             in (player_id, gid,
                 app1\<lparr>ca_next_game := gid + 1,
                      ca_games := (ca_games app1)(gid \<mapsto> new_game gid conn_id player_id shuffle)\<rparr>))"

definition start_directory :: "card_app \<Rightarrow> u32 \<Rightarrow> bool \<Rightarrow> card_push effect list" where
  "start_directory app game_id started =
     (if ca_session_dir app
      then [DirBind DOMAIN_CARD game_id (ca_node_id app),
            if \<not> started then LobbySet DOMAIN_CARD game_id else LobbyClear DOMAIN_CARD game_id]
      else [])"

definition start_enter ::
    "card_app \<Rightarrow> u32 \<Rightarrow> u32 option \<Rightarrow> (card_def list \<Rightarrow> card_def list) \<Rightarrow> card_resp card_handled" where
  "start_enter app conn_id target shuffle =
     (case start_alloc app conn_id target shuffle of (player_id, game_id, app1) \<Rightarrow>
        (case ca_games app1 game_id of
           None \<Rightarrow> (Inl UnwrapNone, app1, [])
         | Some game \<Rightarrow>
             (case take_seat game conn_id player_id shuffle of (idx, game') \<Rightarrow>
                let app2 = app1\<lparr>ca_games := (ca_games app1)(game_id \<mapsto> game'),
                                ca_conn_game := (ca_conn_game app1)(conn_id \<mapsto> (game_id, idx))\<rparr>
                in case view_for game' idx of
                     Inl e \<Rightarrow> (Inl e, app2, [])
                   | Inr state \<Rightarrow>
                       let started = is_full game'; dir = start_directory app2 game_id started
                       in if started
                          then (case push_snapshot app2 game_id of
                                  Inl e \<Rightarrow> (Inl e, app2, dir)
                                | Inr pushes \<Rightarrow> (Inr (CardStartResp (Some state)), app2, dir @ pushes))
                          else (Inr (CardStartResp (Some state)), app2, dir))))"

definition card_start ::
    "card_app \<Rightarrow> u32 \<Rightarrow> u32 list \<Rightarrow> (card_def list \<Rightarrow> card_def list) \<Rightarrow> card_resp card_handled" where
  "card_start app conn_id it shuffle =
     (case start_existing app conn_id of
        Some r \<Rightarrow> (map_sum id (\<lambda>v. CardStartResp (Some v)) r, app, [])
      | None \<Rightarrow> start_enter app conn_id (find_waiting app it) shuffle)"

subsection \<open>Playing\<close>

definition msg_not_in_game :: string where
  "msg_not_in_game = utf8 [0xE6, 0x9C, 0xAA, 0xE5, 0x9C, 0xA8, 0xE5, 0xAF, 0xB9, 0xE5, 0xB1, 0x80,
     0xE4, 0xB8, 0xAD]"
definition msg_finished :: string where
  "msg_finished = utf8 [0xE5, 0xAF, 0xB9, 0xE5, 0xB1, 0x80, 0xE5, 0xB7, 0xB2, 0xE7, 0xBB, 0x93,
     0xE6, 0x9D, 0x9F]"
definition msg_not_your_turn :: string where
  "msg_not_your_turn = utf8 [0xE8, 0xBF, 0x98, 0xE6, 0xB2, 0xA1, 0xE8, 0xBD, 0xAE, 0xE5, 0x88, 0xB0,
     0xE4, 0xBD, 0xA0]"
definition msg_bad_card :: string where
  "msg_bad_card = utf8 [0xE6, 0x89, 0x8B, 0xE7, 0x89, 0x8C, 0xE5, 0xBA, 0x8F, 0xE5, 0x8F, 0xB7,
     0xE6, 0x97, 0xA0, 0xE6, 0x95, 0x88]"
definition msg_no_opponent :: string where
  "msg_no_opponent = utf8 [0xE5, 0xAF, 0xB9, 0xE6, 0x89, 0x8B, 0xE8, 0xBF, 0x98, 0xE6, 0xB2, 0xA1,
     0xE5, 0x8A, 0xA0, 0xE5, 0x85, 0xA5]"

definition damage_text :: "card_def \<Rightarrow> string" where
  "damage_text played = cd_name played @ '' '' @ utf8 [0xE9, 0x80, 0xA0, 0xE6, 0x88, 0x90] @ '' ''
     @ fmt_u32 (cd_power played) @ '' '' @ utf8 [0xE7, 0x82, 0xB9, 0xE4, 0xBC, 0xA4, 0xE5, 0xAE, 0xB3]"

definition play_fail :: "string \<Rightarrow> card_resp" where
  "play_fail detail = CardPlayResp False detail None"

text \<open>The victim: the named player if it is another one, else the first other player.\<close>

definition choose_victim :: "card_game \<Rightarrow> nat \<Rightarrow> u32 \<Rightarrow> nat outcome" where
  "choose_victim game idx target_player =
     (case position (\<lambda>p. gp_player_id p \<noteq> gp_player_id (cg_players game ! idx)) (cg_players game) of
        None \<Rightarrow> Inl UnwrapNone
      | Some other \<Rightarrow>
          Inr (if target_player \<noteq> 0
               then (case player_idx_of game target_player of
                       Some t \<Rightarrow> if t \<noteq> idx then t else other
                     | None \<Rightarrow> other)
               else other))"

text \<open>The card leaves the hand, the victim loses hit points, the player scores.\<close>

definition strike :: "card_game \<Rightarrow> nat \<Rightarrow> nat \<Rightarrow> nat \<Rightarrow> card_game \<times> card_def" where
  "strike game idx hand_index victim =
     (let ps = cg_players game;
          played = gp_hand (ps ! idx) ! hand_index;
          ps1 = ps[idx := (ps ! idx)\<lparr>gp_hand := remove_nth hand_index (gp_hand (ps ! idx))\<rparr>];
          ps2 = ps1[victim := (ps1 ! victim)\<lparr>gp_hp := saturating_sub (gp_hp (ps1 ! victim)) (cd_power played)\<rparr>];
          ps3 = ps2[idx := (ps2 ! idx)\<lparr>gp_score := gp_score (ps2 ! idx) + cd_power played\<rparr>]
      in (game\<lparr>cg_players := ps3\<rparr>, played))"

definition card_finished :: "card_game \<Rightarrow> bool" where
  "card_finished g \<longleftrightarrow> cg_phase g \<noteq> PHASE_PLAYING"

text \<open>The whole move: strike, check for the end, and pass the turn if the game goes on.\<close>

definition play_move :: "card_game \<Rightarrow> nat \<Rightarrow> nat \<Rightarrow> nat \<Rightarrow> card_game \<times> card_def" where
  "play_move game idx hand_index victim =
     (case strike game idx hand_index victim of (g1, played) \<Rightarrow>
        let g2 = check_finish g1
        in (if card_finished g2 then g2 else g2\<lparr>cg_turn := victim\<rparr>, played))"

definition persist_result :: "card_app \<Rightarrow> u32 \<Rightarrow> u32 \<Rightarrow> card_push effect list" where
  "persist_result app game_id winner =
     (if ca_store app
      then (case ca_games app game_id of
              None \<Rightarrow> []
            | Some g \<Rightarrow> [RecordGame (map (\<lambda>p. uint (gp_player_id p)) (cg_players g)) (uint winner)])
      else [])"

text \<open>The checks on a request to play, in the code's order; \<open>Inr (Inr victim)\<close> goes on.\<close>

definition play_checks :: "card_game \<Rightarrow> nat \<Rightarrow> nat \<Rightarrow> u32 \<Rightarrow> (string + nat) outcome" where
  "play_checks game idx hand_index target_player =
     (if cg_phase game \<noteq> PHASE_PLAYING then Inr (Inl msg_finished)
      else if cg_turn game \<noteq> idx then Inr (Inl msg_not_your_turn)
      else if length (cg_players game) \<le> idx then Inl IndexOutOfBounds
      else if length (gp_hand (cg_players game ! idx)) \<le> hand_index then Inr (Inl msg_bad_card)
      else if 1 < length (cg_players game) then map_sum id Inr (choose_victim game idx target_player)
      else Inr (Inl msg_no_opponent))"

definition card_play :: "card_app \<Rightarrow> u32 \<Rightarrow> u32 \<Rightarrow> u32 \<Rightarrow> card_resp card_handled" where
  "card_play app conn_id hand_index target_player =
     (case ca_conn_game app conn_id of
        None \<Rightarrow> (Inr (play_fail msg_not_in_game), app, [])
      | Some (gid, idx) \<Rightarrow>
          (case ca_games app gid of
             None \<Rightarrow> (Inl UnwrapNone, app, [])
           | Some game \<Rightarrow>
               (case play_checks game idx (unat hand_index) target_player of
                  Inl e \<Rightarrow> (Inl e, app, [])
                | Inr (Inl detail) \<Rightarrow> (Inr (play_fail detail), app, [])
                | Inr (Inr victim) \<Rightarrow>
                    (case play_move game idx (unat hand_index) victim of (game', played) \<Rightarrow>
                       let app' = app\<lparr>ca_games := (ca_games app)(gid \<mapsto> game')\<rparr>
                       in case view_for game' idx of
                            Inl e \<Rightarrow> (Inl e, app', [])
                          | Inr state \<Rightarrow>
                              let saved = (if card_finished game'
                                           then persist_result app' gid (cg_winner game') else [])
                              in case push_snapshot app' gid of
                                   Inl e \<Rightarrow> (Inl e, app', saved)
                                 | Inr pushes \<Rightarrow>
                                     (Inr (CardPlayResp True (damage_text played) (Some state)), app',
                                      saved @ pushes)))))"

subsection \<open>Ending a turn, reading the state, leaving\<close>

definition card_end_turn :: "card_app \<Rightarrow> u32 \<Rightarrow> card_resp card_handled" where
  "card_end_turn app conn_id =
     (case ca_conn_game app conn_id of
        None \<Rightarrow> (Inr (CardEndTurnResp False None), app, [])
      | Some (gid, idx) \<Rightarrow>
          (case ca_games app gid of
             None \<Rightarrow> (Inl UnwrapNone, app, [])
           | Some game \<Rightarrow>
               if cg_phase game \<noteq> PHASE_PLAYING \<or> cg_turn game \<noteq> idx
               then (Inr (CardEndTurnResp False None), app, [])
               else if cg_players game = [] then (Inl RemainderByZero, app, [])
               else (let game' = game\<lparr>cg_turn := (idx + 1) mod length (cg_players game)\<rparr>;
                         app' = app\<lparr>ca_games := (ca_games app)(gid \<mapsto> game')\<rparr>
                     in case view_for game' idx of
                          Inl e \<Rightarrow> (Inl e, app', [])
                        | Inr state \<Rightarrow>
                            (case push_snapshot app' gid of
                               Inl e \<Rightarrow> (Inl e, app', [])
                             | Inr pushes \<Rightarrow> (Inr (CardEndTurnResp True (Some state)), app', pushes)))))"

definition card_state :: "card_app \<Rightarrow> u32 \<Rightarrow> card_resp card_handled" where
  "card_state app conn_id =
     (case ca_conn_game app conn_id of
        None \<Rightarrow> (Inr (CardStateResp None), app, [])
      | Some (gid, idx) \<Rightarrow>
          (case ca_games app gid of
             None \<Rightarrow> (Inr (CardStateResp None), app, [])
           | Some game \<Rightarrow> (map_sum id (\<lambda>v. CardStateResp (Some v)) (view_for game idx), app, [])))"

definition card_leave :: "card_app \<Rightarrow> u32 \<Rightarrow> unit card_handled" where
  "card_leave app conn_id =
     (case ca_conn_game app conn_id of
        None \<Rightarrow> (Inr (), app, [])
      | Some (gid, idx) \<Rightarrow>
          let app1 = app\<lparr>ca_conn_game := (ca_conn_game app)(conn_id := None)\<rparr>
          in case ca_games app1 gid of
               None \<Rightarrow> (Inr (), app1, [])
             | Some game \<Rightarrow>
                 if length (cg_players game) \<le> idx then (Inl IndexOutOfBounds, app1, [])
                 else (let ps = remove_nth idx (cg_players game); game1 = game\<lparr>cg_players := ps\<rparr>
                       in if ps = []
                          then (Inr (), app1\<lparr>ca_games := (ca_games app1)(gid := None)\<rparr>,
                                if ca_session_dir app1 then [DirRemove DOMAIN_CARD gid] else [])
                          else if cg_phase game1 = PHASE_PLAYING
                          then (let game2 = game1\<lparr>cg_phase := PHASE_FINISHED,
                                                  cg_winner := gp_player_id (hd ps)\<rparr>;
                                    app2 = app1\<lparr>ca_games := (ca_games app1)(gid \<mapsto> game2)\<rparr>
                                in case push_snapshot app2 gid of
                                     Inl e \<Rightarrow> (Inl e, app2, [])
                                   | Inr pushes \<Rightarrow> (Inr (), app2, pushes))
                          else (Inr (), app1\<lparr>ca_games := (ca_games app1)(gid \<mapsto> game1)\<rparr>, [])))"

section \<open>Dispatch\<close>

text \<open>The generated protobuf code: decoders of the request messages, encoder of the responses.\<close>

record card_codec =
  cc_dec_start :: "bytes \<Rightarrow> string + unit"
  cc_dec_play :: "bytes \<Rightarrow> string + u32 \<times> u32"
  cc_dec_end_turn :: "bytes \<Rightarrow> string + unit"
  cc_dec_state :: "bytes \<Rightarrow> string + unit"
  cc_enc :: "card_resp \<Rightarrow> bytes"

type_synonym card_env = "u32 list \<times> (card_def list \<Rightarrow> card_def list)"

definition card_process :: "card_codec \<Rightarrow> card_env \<Rightarrow> card_app \<Rightarrow> forward_request \<Rightarrow>
    forward_reply card_handled" where
  "card_process c env app req =
     (if fq_msg_id req = CARD_START then
        (case cc_dec_start c (fq_payload req) of
           Inr _ \<Rightarrow> replying req (cc_enc c) (card_start app (fq_conn_id req) (fst env) (snd env))
         | Inl e \<Rightarrow> refusing req (bad_payload e) app)
      else if fq_msg_id req = CARD_PLAY then
        (case cc_dec_play c (fq_payload req) of
           Inr (hand_index, target_player) \<Rightarrow>
             replying req (cc_enc c) (card_play app (fq_conn_id req) hand_index target_player)
         | Inl e \<Rightarrow> refusing req (bad_payload e) app)
      else if fq_msg_id req = CARD_END_TURN then
        (case cc_dec_end_turn c (fq_payload req) of
           Inr _ \<Rightarrow> replying req (cc_enc c) (card_end_turn app (fq_conn_id req))
         | Inl e \<Rightarrow> refusing req (bad_payload e) app)
      else if fq_msg_id req = CARD_STATE then
        (case cc_dec_state c (fq_payload req) of
           Inr _ \<Rightarrow> replying req (cc_enc c) (card_state app (fq_conn_id req))
         | Inl e \<Rightarrow> refusing req (bad_payload e) app)
      else refusing req (unknown_msg req) app)"

text \<open>The two connection events of the bridge; the reply is always \<open>ok\<close>.\<close>

definition card_player_connected :: "card_app \<Rightarrow> u32 \<Rightarrow> bool card_handled" where
  "card_player_connected app conn_id = (Inr True, app, [])"

definition card_player_disconnected :: "card_app \<Rightarrow> u32 \<Rightarrow> bool card_handled" where
  "card_player_disconnected app conn_id =
     (case card_leave app conn_id of (r, app', es) \<Rightarrow> (map_sum id (\<lambda>_. True) r, app', es))"

interpretation card_bridge: service_bridge "card_process c"
    "\<lambda>m. m \<in> {CARD_START, CARD_PLAY, CARD_END_TURN, CARD_STATE}" for c
proof unfold_locales
  fix env s req rep s' es
  assume "card_process c env s req = (Inr rep, s', es)"
  then show "echoes req rep"
    by (auto simp: card_process_def refusing_def split: if_splits sum.splits prod.splits
          dest: replying_echoes)
qed (auto simp: card_process_def)

text \<open>The stream of a gateway, and what its contract says of the replies on it.\<close>

definition card_stream :: "card_codec \<Rightarrow> card_app \<Rightarrow> (card_env \<times> forward_request) list \<Rightarrow>
    forward_reply list \<times> card_app \<times> card_push effect list" where
  "card_stream c app reqs = serve_stream (card_process c) app reqs"

lemma card_stream_replies:
  "card_stream c app reqs = (reps, app', es) \<Longrightarrow>
   length reps \<le> length reqs \<and> list_all2 echoes (take (length reps) (map snd reqs)) reps"
  unfolding card_stream_def by (rule card_bridge.stream_replies)

end
