(* ===== verification/Card_Safety.thy ===== *)
theory Card_Safety
  imports Card
begin

text \<open>
  What the card service keeps true, whatever requests arrive in whatever order.

  \<open>card_event\<close> and \<open>card_step\<close> are the service as a state machine that handles one request
  at a time.  \<open>card_inv\<close> is its invariant: every game has one or two players; in a game
  being played the seats, the turn and the connection table agree, and each player's hit
  points are 20 minus the opponent's score.  The properties follow from it.
\<close>

section \<open>The service as a state machine\<close>

datatype card_event =
    EvStart u32 "u32 list" "card_def list \<Rightarrow> card_def list"
  | EvPlay u32 u32 u32
  | EvEndTurn u32
  | EvState u32
  | EvLeave u32

fun card_step :: "card_app \<Rightarrow> card_event \<Rightarrow> card_app" where
  "card_step s (EvStart c it shuffle) = next_state (card_start s c it shuffle)"
| "card_step s (EvPlay c h t) = next_state (card_play s c h t)"
| "card_step s (EvEndTurn c) = next_state (card_end_turn s c)"
| "card_step s (EvState c) = next_state (card_state s c)"
| "card_step s (EvLeave c) = next_state (card_leave s c)"

text \<open>The random library returns a permutation of the deck it is given.\<close>

fun card_event_ok :: "card_event \<Rightarrow> bool" where
  "card_event_ok (EvStart c it shuffle) \<longleftrightarrow> mset (shuffle deck) = mset deck"
| "card_event_ok _ \<longleftrightarrow> True"

section \<open>The invariant\<close>

definition hand_power :: "game_player \<Rightarrow> nat" where
  "hand_power p = sum_list (map (\<lambda>c. unat (cd_power c)) (gp_hand p))"

text \<open>What a player scored plus what is still on the hand never exceeds the best deal.\<close>

definition within_deal :: "game_player \<Rightarrow> bool" where
  "within_deal p \<longleftrightarrow> unat (gp_score p) + hand_power p \<le> 24 \<and> length (gp_hand p) \<le> 3"

fun duel_ok :: "game_player list \<Rightarrow> bool" where
  "duel_ok [p] \<longleftrightarrow> gp_hp p = 20 \<and> gp_score p = 0 \<and> within_deal p"
| "duel_ok [p, q] \<longleftrightarrow>
     unat (gp_hp p) = 20 - unat (gp_score q) \<and> unat (gp_hp q) = 20 - unat (gp_score p) \<and>
     gp_hp p \<noteq> 0 \<and> gp_hp q \<noteq> 0 \<and> within_deal p \<and> within_deal q \<and>
     gp_player_id p \<noteq> gp_player_id q"
| "duel_ok _ \<longleftrightarrow> False"

definition seats :: "(u32 \<rightharpoonup> u32 \<times> nat) \<Rightarrow> u32 \<Rightarrow> game_player list \<Rightarrow> bool" where
  "seats cg gid ps \<longleftrightarrow> (\<forall>i<length ps. cg (gp_conn_id (ps ! i)) = Some (gid, i))"

definition playing_ok :: "(u32 \<rightharpoonup> u32 \<times> nat) \<Rightarrow> u32 \<Rightarrow> card_game \<Rightarrow> bool" where
  "playing_ok cg gid g \<longleftrightarrow>
     cg_turn g < length (cg_players g) \<and> duel_ok (cg_players g) \<and> seats cg gid (cg_players g)"

definition game_ok :: "u32 \<Rightarrow> u32 \<Rightarrow> (u32 \<rightharpoonup> u32 \<times> nat) \<Rightarrow> u32 \<Rightarrow> card_game \<Rightarrow> bool" where
  "game_ok np ng cg gid g \<longleftrightarrow>
     cg_id g = gid \<and> gid < ng \<and> (length (cg_players g) = 1 \<or> length (cg_players g) = 2) \<and>
     (\<forall>p\<in>set (cg_players g). gp_player_id p < np) \<and> (cg_phase g = 0 \<or> cg_phase g = 1) \<and>
     (cg_phase g = 0 \<longrightarrow> playing_ok cg gid g)"

definition conns_ok :: "(u32 \<rightharpoonup> card_game) \<Rightarrow> (u32 \<rightharpoonup> u32 \<times> nat) \<Rightarrow> bool" where
  "conns_ok gs cg \<longleftrightarrow>
     (\<forall>c gid i. cg c = Some (gid, i) \<longrightarrow> i < 2 \<and> gs gid \<noteq> None) \<and>
     (\<forall>c c' gid i. cg c = Some (gid, i) \<longrightarrow> cg c' = Some (gid, i) \<longrightarrow> c = c') \<and>
     (\<forall>gid g c c' i j. gs gid = Some g \<longrightarrow> length (cg_players g) = 1 \<longrightarrow>
        cg c = Some (gid, i) \<longrightarrow> cg c' = Some (gid, j) \<longrightarrow> c = c')"

definition card_inv :: "card_app \<Rightarrow> bool" where
  "card_inv s \<longleftrightarrow>
     (\<forall>gid g. ca_games s gid = Some g \<longrightarrow>
        game_ok (ca_next_player s) (ca_next_game s) (ca_conn_game s) gid g) \<and>
     conns_ok (ca_games s) (ca_conn_game s) \<and> ca_next_game s \<le> ca_next_player s"

lemma card_invD:
  assumes "card_inv s" "ca_games s gid = Some g"
  shows "game_ok (ca_next_player s) (ca_next_game s) (ca_conn_game s) gid g"
  using assms by (simp add: card_inv_def)

lemma card_inv_new [simp]: "card_inv (card_new st sd n)"
  by (simp add: card_inv_def conns_ok_def card_new_def)

text \<open>Replacing a game by one with as many players.\<close>

lemma card_inv_update:
  assumes "card_inv s" "ca_games s gid = Some g" "length (cg_players g') = length (cg_players g)"
    and "game_ok (ca_next_player s) (ca_next_game s) (ca_conn_game s) gid g'"
  shows "card_inv (s\<lparr>ca_games := (ca_games s)(gid \<mapsto> g')\<rparr>)"
proof -
  have "conns_ok ((ca_games s)(gid \<mapsto> g')) (ca_conn_game s)"
    using assms(1-3) unfolding card_inv_def conns_ok_def by (auto split: if_splits)
  then show ?thesis using assms(1,4) by (simp add: card_inv_def)
qed

section \<open>Seats, victims and moves\<close>

lemma duel_cases:
  assumes "duel_ok ps"
  obtains p where "ps = [p]" | p q where "ps = [p, q]"
  using assms by (cases ps rule: duel_ok.cases) auto

lemma choose_victim_duel:
  assumes "cg_players g = [p, q]" "gp_player_id p \<noteq> gp_player_id q" "idx < 2"
  shows "choose_victim g idx t = Inr (1 - idx)"
proof -
  from assms(3) consider "idx = 0" | "idx = 1" by linarith
  then show ?thesis
    using assms(1,2) by cases (auto simp: choose_victim_def player_idx_of_def)
qed

text \<open>The move of the player in seat \<open>idx\<close> of a game of two, in full.\<close>

definition struck :: "game_player \<Rightarrow> nat \<Rightarrow> game_player" where
  "struck p hi = p\<lparr>gp_hand := remove_nth hi (gp_hand p),
                   gp_score := gp_score p + cd_power (gp_hand p ! hi)\<rparr>"

definition hit :: "game_player \<Rightarrow> card_def \<Rightarrow> game_player" where
  "hit q c = q\<lparr>gp_hp := saturating_sub (gp_hp q) (cd_power c)\<rparr>"

lemma struck_simps [simp]:
  "gp_player_id (struck p hi) = gp_player_id p" "gp_conn_id (struck p hi) = gp_conn_id p"
  "gp_hp (struck p hi) = gp_hp p" "gp_hand (struck p hi) = remove_nth hi (gp_hand p)"
  "gp_score (struck p hi) = gp_score p + cd_power (gp_hand p ! hi)" "gp_name (struck p hi) = gp_name p"
  by (simp_all add: struck_def)

lemma hit_simps [simp]:
  "gp_player_id (hit q c) = gp_player_id q" "gp_conn_id (hit q c) = gp_conn_id q"
  "gp_hp (hit q c) = saturating_sub (gp_hp q) (cd_power c)" "gp_hand (hit q c) = gp_hand q"
  "gp_score (hit q c) = gp_score q" "gp_name (hit q c) = gp_name q"
  by (simp_all add: hit_def)

lemma play_move_duel:
  assumes "cg_players g = [p, q]" "cg_phase g = 0" "gp_hp p \<noteq> 0" "gp_hp q \<noteq> 0"
    "gp_player_id p \<noteq> gp_player_id q"
  shows "play_move g 0 hi 1 =
      (let q' = hit q (gp_hand p ! hi); g' = g\<lparr>cg_players := [struck p hi, q']\<rparr>
       in (if gp_hp q' = 0 then g'\<lparr>cg_phase := 1, cg_winner := gp_player_id p\<rparr>
           else g'\<lparr>cg_turn := 1\<rparr>, gp_hand p ! hi))"
    and "play_move g 1 hi 0 =
      (let p' = hit p (gp_hand q ! hi); g' = g\<lparr>cg_players := [p', struck q hi]\<rparr>
       in (if gp_hp p' = 0 then g'\<lparr>cg_phase := 1, cg_winner := gp_player_id q\<rparr>
           else g'\<lparr>cg_turn := 0\<rparr>, gp_hand q ! hi))"
  using assms
  by (simp_all add: play_move_def strike_def check_finish_def card_finished_def Let_def
        struck_def hit_def)

lemma hand_power_remove:
  assumes "hi < length (gp_hand p)"
  shows "hand_power p = unat (cd_power (gp_hand p ! hi)) + hand_power (struck p hi)"
proof -
  have "mset (map (\<lambda>c. unat (cd_power c)) (gp_hand p))
      = add_mset (unat (cd_power (gp_hand p ! hi)))
          (mset (map (\<lambda>c. unat (cd_power c)) (remove_nth hi (gp_hand p))))"
    using mset_remove_nth [OF assms] by simp
  then have "sum_mset (mset (map (\<lambda>c. unat (cd_power c)) (gp_hand p)))
      = unat (cd_power (gp_hand p ! hi))
        + sum_mset (mset (map (\<lambda>c. unat (cd_power c)) (remove_nth hi (gp_hand p))))"
    by simp
  then show ?thesis by (simp only: sum_mset_sum_list hand_power_def struck_simps)
qed

lemma unat_score_struck:
  assumes "within_deal p" "hi < length (gp_hand p)"
  shows "unat (gp_score (struck p hi)) = unat (gp_score p) + unat (cd_power (gp_hand p ! hi))"
proof -
  have "unat (gp_score p) + unat (cd_power (gp_hand p ! hi)) \<le> 24"
    using assms hand_power_remove [OF assms(2)] by (simp add: within_deal_def)
  then show ?thesis by (simp add: unat_word_ariths)
qed

lemma within_deal_struck:
  assumes "within_deal p" "hi < length (gp_hand p)"
  shows "within_deal (struck p hi)"
  using assms hand_power_remove [OF assms(2)] unat_score_struck [OF assms]
  by (auto simp: within_deal_def)

lemma within_deal_hit [simp]: "within_deal (hit q c) = within_deal q"
  by (simp add: within_deal_def hand_power_def)

lemma duel_ok_move:
  assumes "duel_ok [p, q]" "hi < length (gp_hand p)" "gp_hp (hit q (gp_hand p ! hi)) \<noteq> 0"
  shows "duel_ok [struck p hi, hit q (gp_hand p ! hi)]" "duel_ok [hit q (gp_hand p ! hi), struck p hi]"
  using assms
  by (auto simp: unat_saturating_sub unat_score_struck within_deal_struck simp del: struck_simps(5))

section \<open>The deal\<close>

lemma three_distinct_powers:
  assumes "distinct [a, b, c]" "{a, b, c} \<subseteq> {4..9::nat}"
  shows "15 \<le> a + b + c \<and> a + b + c \<le> 24"
  using assms by auto

lemma deal_hand_power:
  assumes "mset (shuffle deck) = mset deck"
  shows "15 \<le> (\<Sum>c\<leftarrow>deal_hand shuffle. unat (cd_power c))"
    and "(\<Sum>c\<leftarrow>deal_hand shuffle. unat (cd_power c)) \<le> 24"
    and "length (deal_hand shuffle) = 3"
proof -
  let ?pw = "\<lambda>c. unat (cd_power c)"
  have len: "length (shuffle deck) = 6"
    using mset_eq_length [OF assms] by (simp add: deck_def)
  then obtain a b c d e f where sh: "shuffle deck = [a, b, c, d, e, f]"
    by (auto simp: eval_nat_numeral length_Suc_conv)
  have m: "mset (map ?pw (shuffle deck)) = mset (map ?pw deck)"
    using assms by simp
  have "distinct (map ?pw (shuffle deck))"
    using mset_eq_imp_distinct_iff [OF m] by (simp add: deck_def)
  moreover have "set (map ?pw (shuffle deck)) \<subseteq> {4..9}"
    using mset_eq_setD [OF m] by (simp add: deck_def)
  ultimately have "distinct [?pw a, ?pw b, ?pw c]" "{?pw a, ?pw b, ?pw c} \<subseteq> {4..9}"
    by (auto simp: sh)
  from three_distinct_powers [OF this]
  show "15 \<le> (\<Sum>c\<leftarrow>deal_hand shuffle. ?pw c)" "(\<Sum>c\<leftarrow>deal_hand shuffle. ?pw c) \<le> 24"
    "length (deal_hand shuffle) = 3"
    by (simp_all add: deal_hand_def sh eval_nat_numeral)
qed

lemma within_deal_new:
  assumes "mset (shuffle deck) = mset deck"
  shows "within_deal (new_player c pid shuffle)"
  using deal_hand_power(2,3) [where shuffle = shuffle] assms by (simp add: within_deal_def hand_power_def new_player_def)

section \<open>Every operation keeps the invariant\<close>

lemma view_for_ok: "cg_turn g < length (cg_players g) \<Longrightarrow> \<exists>v. view_for g i = Inr v"
  by (simp add: view_for_def)

lemma snapshot_targets_ok:
  assumes "cg_turn g < length (cg_players g)"
  shows "\<exists>es. snapshot_targets g ips = Inr es"
proof (induction ips)
  case (Cons ip ips)
  obtain i p where "ip = (i, p)" by (cases ip)
  with Cons view_for_ok [OF assms, of i] show ?case by auto
qed simp

lemma push_snapshot_ok:
  assumes "\<And>g. ca_games s gid = Some g \<Longrightarrow> cg_turn g < length (cg_players g)"
  shows "\<exists>es. push_snapshot s gid = Inr es"
proof (cases "ca_games s gid")
  case (Some g)
  then show ?thesis using assms [OF Some] by (simp add: push_snapshot_def snapshot_targets_ok)
qed (simp add: push_snapshot_def)

text \<open>What \<open>card_play\<close> does once a connection has a seat; all its branches.\<close>

lemma play_checks_playing:
  assumes "play_checks g idx hi t = Inr (Inr victim)"
  shows "cg_phase g = 0" "cg_turn g = idx" "idx < length (cg_players g)"
    "hi < length (gp_hand (cg_players g ! idx))" "1 < length (cg_players g)"
    "choose_victim g idx t = Inr victim"
  using assms by (auto simp: play_checks_def split: if_splits)
    (cases "choose_victim g idx t"; simp)

lemma duel_move_ok:
  assumes "game_ok np ng cg gid g" "cg_phase g = 0" "length (cg_players g) = 2" "idx < 2"
    "hi < length (gp_hand (cg_players g ! idx))"
  shows "game_ok np ng cg gid (fst (play_move g idx hi (1 - idx)))"
    and "length (cg_players (fst (play_move g idx hi (1 - idx)))) = 2"
    and "cg_turn (fst (play_move g idx hi (1 - idx))) < 2"
proof -
  from assms(1,2) have play: "playing_ok cg gid g" by (simp add: game_ok_def)
  then have d: "duel_ok (cg_players g)" by (simp add: playing_ok_def)
  then obtain p q where ps: "cg_players g = [p, q]"
    by (cases rule: duel_cases) (use assms(3) in auto)
  with d have duel: "duel_ok [p, q]" by simp
  have seat: "seats cg gid [p, q]" using play ps by (simp add: playing_ok_def)
  have pm: "gp_hp p \<noteq> 0" "gp_hp q \<noteq> 0" "gp_player_id p \<noteq> gp_player_id q"
    using duel by auto
  note moves = play_move_duel [OF ps assms(2) pm, unfolded One_nat_def]
  from assms(4) consider "idx = 0" | "idx = 1" by linarith
  then have "game_ok np ng cg gid (fst (play_move g idx hi (1 - idx))) \<and>
      length (cg_players (fst (play_move g idx hi (1 - idx)))) = 2 \<and>
      cg_turn (fst (play_move g idx hi (1 - idx))) < 2"
  proof cases
    case 1
    with assms(1,5) ps play seat duel_ok_move(1) [OF duel, of hi] show ?thesis
      by (auto simp: moves Let_def game_ok_def playing_ok_def seats_def less_2_cases_iff nth_Cons'
           simp del: duel_ok.simps)
  next
    case 2
    from duel have "duel_ok [q, p]" by auto
    from duel_ok_move(2) [OF this, of hi] 2 assms(1,5) ps play seat show ?thesis
      by (auto simp: moves Let_def game_ok_def playing_ok_def seats_def less_2_cases_iff nth_Cons'
           simp del: duel_ok.simps)
  qed
  then show "game_ok np ng cg gid (fst (play_move g idx hi (1 - idx)))"
    "length (cg_players (fst (play_move g idx hi (1 - idx)))) = 2"
    "cg_turn (fst (play_move g idx hi (1 - idx))) < 2" by auto
qed

subsection \<open>Play\<close>

definition put_game :: "card_app \<Rightarrow> u32 \<Rightarrow> card_game \<Rightarrow> card_app" where
  "put_game s gid g = s\<lparr>ca_games := (ca_games s)(gid \<mapsto> g)\<rparr>"

lemma put_game_simps [simp]:
  "ca_games (put_game s gid g) = (ca_games s)(gid \<mapsto> g)"
  "ca_conn_game (put_game s gid g) = ca_conn_game s"
  "ca_next_player (put_game s gid g) = ca_next_player s"
  "ca_next_game (put_game s gid g) = ca_next_game s"
  "ca_store (put_game s gid g) = ca_store s"
  "ca_session_dir (put_game s gid g) = ca_session_dir s"
  by (simp_all add: put_game_def)

lemma inv_conn_game:
  assumes "card_inv s" "ca_conn_game s c = Some (gid, idx)"
  obtains g where "ca_games s gid = Some g" "idx < 2"
    "game_ok (ca_next_player s) (ca_next_game s) (ca_conn_game s) gid g"
  using assms unfolding card_inv_def conns_ok_def by (metis not_Some_eq)

text \<open>A request to play is refused and changes nothing, or it is a move of the seat whose turn it is.\<close>

lemma card_play_cases:
  assumes inv: "card_inv s"
  obtains (refused) d where "card_play s c h t = (Inr (play_fail d), s, [])"
  | (moved) gid idx g g' played v pushes where
      "ca_conn_game s c = Some (gid, idx)" "ca_games s gid = Some g" "cg_phase g = 0"
      "cg_turn g = idx" "length (cg_players g) = 2" "idx < 2"
      "unat h < length (gp_hand (cg_players g ! idx))"
      "play_move g idx (unat h) (1 - idx) = (g', played)"
      "view_for g' idx = Inr v" "push_snapshot (put_game s gid g') gid = Inr pushes"
      "card_play s c h t = (Inr (CardPlayResp True (damage_text played) (Some v)), put_game s gid g',
         (if card_finished g' then persist_result (put_game s gid g') gid (cg_winner g') else []) @ pushes)"
proof (cases "ca_conn_game s c")
  case None
  then show thesis by (intro refused [of msg_not_in_game]) (simp add: card_play_def)
next
  case (Some gi)
  obtain gid idx where gi: "gi = (gid, idx)" by (cases gi)
  with Some inv obtain g where g: "ca_games s gid = Some g" "idx < 2"
    "game_ok (ca_next_player s) (ca_next_game s) (ca_conn_game s) gid g"
    by (auto elim: inv_conn_game)
  have playing: "cg_phase g = 0 \<Longrightarrow> playing_ok (ca_conn_game s) gid g"
    using g(3) by (simp add: game_ok_def)
  show thesis
  proof (cases "play_checks g idx (unat h) t")
    case (Inl e)
    then have "cg_phase g = 0" "cg_turn g = idx" and
      e: "length (cg_players g) \<le> idx \<or> 1 < length (cg_players g) \<and> choose_victim g idx t = Inl e"
      by (auto simp: play_checks_def split: if_splits) (cases "choose_victim g idx t"; simp)+
    with playing have p: "playing_ok (ca_conn_game s) gid g" by simp
    then have d: "duel_ok (cg_players g)" and "idx < length (cg_players g)"
      using \<open>cg_turn g = idx\<close> by (simp_all add: playing_ok_def)
    with e have "1 < length (cg_players g)" "choose_victim g idx t = Inl e" by auto
    with d g(2) show thesis
      by (cases rule: duel_cases [OF d]) (auto simp: choose_victim_duel)
  next
    case (Inr r)
    show thesis
    proof (cases r)
      case (Inl d)
      with Some gi g Inr show thesis by (intro refused [of d]) (simp add: card_play_def)
    next
      case victim: (Inr victim)
      note c = play_checks_playing [OF Inr [unfolded victim]]
      have len: "length (cg_players g) = 2" using c(5) g(3) by (auto simp: game_ok_def)
      have d: "duel_ok (cg_players g)" using playing [OF c(1)] by (simp add: playing_ok_def)
      then have "victim = 1 - idx"
        using c(6) g(2) len by (cases rule: duel_cases [OF d]) (auto simp: choose_victim_duel)
      obtain g' played where mv: "play_move g idx (unat h) (1 - idx) = (g', played)"
        by (cases "play_move g idx (unat h) (1 - idx)")
      note ok = duel_move_ok [OF g(3) c(1) len g(2) c(4), unfolded mv fst_conv]
      then obtain v where v: "view_for g' idx = Inr v" using view_for_ok [of g' idx] by auto
      moreover obtain pushes where "push_snapshot (put_game s gid g') gid = Inr pushes"
        using push_snapshot_ok [of "put_game s gid g'" gid] ok by auto
      ultimately show thesis
        using Some gi g c len mv \<open>victim = 1 - idx\<close> Inr victim
        by (intro moved [of gid idx g g' played v pushes])
          (simp_all add: card_play_def put_game_def Let_def)
    qed
  qed
qed

lemma card_play_inv:
  assumes inv: "card_inv s"
  shows "card_inv (next_state (card_play s c h t))"
    and "ca_next_player (next_state (card_play s c h t)) = ca_next_player s"
    and "\<not> panics (outcome_of (card_play s c h t))"
proof -
  from inv have "card_inv (next_state (card_play s c h t)) \<and>
      ca_next_player (next_state (card_play s c h t)) = ca_next_player s \<and>
      \<not> panics (outcome_of (card_play s c h t))"
  proof (cases rule: card_play_cases [where c = c and h = h and t = t])
    case (refused d)
    with inv show ?thesis by simp
  next
    case (moved gid idx g g' played v pushes)
    note ok = duel_move_ok [OF card_invD [OF inv moved(2)] moved(3,5,6,7), unfolded moved(8) fst_conv]
    have "card_inv (put_game s gid g')"
      unfolding put_game_def
      by (rule card_inv_update [OF inv moved(2)]) (use ok moved(5) in auto)
    then show ?thesis by (simp add: moved(11))
  qed
  then show "card_inv (next_state (card_play s c h t))"
    "ca_next_player (next_state (card_play s c h t)) = ca_next_player s"
    "\<not> panics (outcome_of (card_play s c h t))" by auto
qed

subsection \<open>Start\<close>

lemma find_waiting_Some:
  assumes "find_waiting s it = Some gid"
  obtains g where "ca_games s gid = Some g" "cg_phase g = 0" "length (cg_players g) < 2"
proof -
  from assms obtain e where e: "find (\<lambda>(gid, g). cg_phase g = PHASE_PLAYING \<and> \<not> is_full g)
      (entries it (ca_games s)) = Some e" "fst e = gid"
    by (auto simp: find_waiting_def)
  from find_SomeD [OF e(1)] have "e \<in> set (entries it (ca_games s))" "cg_phase (snd e) = 0" "\<not> is_full (snd e)"
    by (auto split: prod.splits)
  with e(2) show thesis
    by (intro that [of "snd e"]) (cases e, auto simp: is_full_def set_entries)+
qed

text \<open>The state after a start that takes seat \<open>idx\<close> of game \<open>gid\<close>.\<close>

definition seated :: "card_app \<Rightarrow> u32 \<Rightarrow> u32 \<Rightarrow> nat \<Rightarrow> card_game \<Rightarrow> card_app" where
  "seated s c gid idx g =
     s\<lparr>ca_next_player := ca_next_player s + 1,
       ca_games := (ca_games s)(gid \<mapsto> g), ca_conn_game := (ca_conn_game s)(c \<mapsto> (gid, idx))\<rparr>"

lemma start_opens:
  "start_enter s c None shuffle =
     (let gid = ca_next_game s; g = new_game gid c (ca_next_player s) shuffle;
          s' = (seated s c gid 0 g)\<lparr>ca_next_game := gid + 1\<rparr>
      in (Inr (CardStartResp (Some (the (case view_for g 0 of Inr v \<Rightarrow> Some v)))), s',
          start_directory s' gid False))"
  by (simp add: start_enter_def start_alloc_def take_seat_def new_game_def is_full_def Let_def
      new_player_def player_idx_of_def view_for_def seated_def start_directory_def)

lemma start_joins:
  assumes "ca_games s gid = Some g" "cg_players g = [p]" "cg_turn g = 0" "gp_conn_id p \<noteq> c"
  shows "\<exists>v pushes. start_enter s c (Some gid) shuffle =
     (let g' = add_player g c (ca_next_player s) shuffle; s' = seated s c gid 1 g'
      in (Inr (CardStartResp (Some v)), s', start_directory s' gid True @ pushes))
     \<and> view_for (add_player g c (ca_next_player s) shuffle) 1 = Inr v
     \<and> push_snapshot (seated s c gid 1 (add_player g c (ca_next_player s) shuffle)) gid = Inr pushes"
proof -
  let ?g' = "add_player g c (ca_next_player s) shuffle" and ?s' = "seated s c gid 1 (add_player g c (ca_next_player s) shuffle)"
  have turn: "cg_turn ?g' < length (cg_players ?g')" using assms by (simp add: add_player_def)
  then obtain v where v: "view_for ?g' 1 = Inr v" using view_for_ok by blast
  obtain pushes where pushes: "push_snapshot ?s' gid = Inr pushes"
    using push_snapshot_ok [of ?s' gid] turn by (auto simp: seated_def)
  show ?thesis
    using assms v pushes
    by (intro exI [of _ v] exI [of _ pushes])
       (simp add: start_enter_def start_alloc_def take_seat_def is_full_def Let_def
          add_player_def seated_def start_directory_def)
qed

text \<open>A start from a connection without a seat: it opens a game or takes the second seat of one.\<close>

lemma seated_simps [simp]:
  "ca_games (seated s c gid idx g) = (ca_games s)(gid \<mapsto> g)"
  "ca_conn_game (seated s c gid idx g) = (ca_conn_game s)(c \<mapsto> (gid, idx))"
  "ca_next_player (seated s c gid idx g) = ca_next_player s + 1"
  "ca_next_game (seated s c gid idx g) = ca_next_game s"
  by (simp_all add: seated_def)

lemma seat_of_other:
  assumes "game_ok np ng cg gid g" "cg_phase g = 0" "cg c = None" "p \<in> set (cg_players g)"
  shows "gp_conn_id p \<noteq> c"
  using assms by (auto simp: game_ok_def playing_ok_def seats_def in_set_conv_nth)

lemma game_ok_mono:
  assumes "game_ok np ng cg gid g" "np \<le> np'" "ng \<le> ng'" "cg c = None" "cg' = cg(c \<mapsto> e)"
  shows "game_ok np' ng' cg' gid g"
  using assms
  by (auto simp: game_ok_def playing_ok_def seats_def intro: less_le_trans)

lemma opened_inv:
  assumes inv: "card_inv s" and c: "ca_conn_game s c = None" and deal: "mset (shuffle deck) = mset deck"
    and np: "ca_next_player s \<noteq> - 1"
  shows "card_inv ((seated s c (ca_next_game s) 0
     (new_game (ca_next_game s) c (ca_next_player s) shuffle))\<lparr>ca_next_game := ca_next_game s + 1\<rparr>)"
proof -
  let ?ng = "ca_next_game s" and ?np = "ca_next_player s"
  let ?g = "new_game ?ng c ?np shuffle" and ?cg = "(ca_conn_game s)(c \<mapsto> (?ng, 0))"
  have le: "?ng \<le> ?np" using inv by (simp add: card_inv_def)
  then have ng: "?ng \<noteq> - 1" using np by (metis word_order.extremum_unique)
  have inc: "?np < ?np + 1" "?ng < ?ng + 1" "?ng + 1 \<le> ?np + 1"
    using np ng le by (simp_all add: inc_noteq word_le_nat_alt unat_inc)
  have fresh: "ca_games s ?ng = None"
  proof (cases "ca_games s ?ng")
    case (Some g)
    then show ?thesis using card_invD [OF inv Some] by (simp add: game_ok_def)
  qed
  then have nocon: "ca_conn_game s c' \<noteq> Some (?ng, i)" for c' i
    using inv unfolding card_inv_def conns_ok_def by metis
  have "game_ok (?np + 1) (?ng + 1) ?cg ?ng ?g"
    using inc within_deal_new [where shuffle = shuffle] deal
    by (simp add: game_ok_def playing_ok_def seats_def new_game_def new_player_def)
  moreover have "game_ok (?np + 1) (?ng + 1) ?cg gid g" if "ca_games s gid = Some g" for gid g
    using game_ok_mono [OF card_invD [OF inv that] _ _ c] inc by (simp add: less_imp_le)
  moreover have "conns_ok ((ca_games s)(?ng \<mapsto> ?g)) ?cg"
    using inv c nocon unfolding card_inv_def conns_ok_def by (auto split: if_splits)
  ultimately show ?thesis using inc(3) by (simp add: card_inv_def)
qed

lemma joined_inv:
  assumes inv: "card_inv s" and c: "ca_conn_game s c = None" and deal: "mset (shuffle deck) = mset deck"
    and np: "ca_next_player s \<noteq> - 1" and g: "ca_games s gid = Some g" "cg_phase g = 0" "cg_players g = [p]"
  shows "card_inv (seated s c gid 1 (add_player g c (ca_next_player s) shuffle))"
proof -
  let ?ng = "ca_next_game s" and ?np = "ca_next_player s"
  let ?g = "add_player g c ?np shuffle" and ?cg = "(ca_conn_game s)(c \<mapsto> (gid, 1))"
  have le: "?ng \<le> ?np" using inv by (simp add: card_inv_def)
  have inc: "?np < ?np + 1" using np by (simp add: inc_noteq)
  have ok: "game_ok ?np ?ng (ca_conn_game s) gid g" by (rule card_invD [OF inv g(1)])
  then have p: "ca_conn_game s (gp_conn_id p) = Some (gid, 0)" "duel_ok [p]" "gp_player_id p < ?np"
    "cg_turn g = 0"
    using g by (auto simp: game_ok_def playing_ok_def seats_def)
  have only: "ca_conn_game s c' = Some (gid, i) \<Longrightarrow> c' = gp_conn_id p" for c' i
    using inv g p(1) unfolding card_inv_def conns_ok_def by (metis length_Cons list.size(3) One_nat_def)
  have "duel_ok (cg_players ?g)"
    using p within_deal_new [where shuffle = shuffle and c = c and pid = ?np] deal g(3)
    by (auto simp: add_player_def new_player_def)
  then have "game_ok (?np + 1) ?ng ?cg gid ?g"
    using ok g p inc c
    by (auto simp: game_ok_def playing_ok_def seats_def add_player_def new_player_def nth_Cons'
         less_Suc_eq intro: less_trans)
  moreover have "game_ok (?np + 1) ?ng ?cg gid' g'" if "ca_games s gid' = Some g'" for gid' g'
    using game_ok_mono [OF card_invD [OF inv that] _ _ c] inc by (simp add: less_imp_le)
  moreover have "conns_ok ((ca_games s)(gid \<mapsto> ?g)) ?cg"
    using inv c g(3) only p(1) unfolding card_inv_def conns_ok_def
    by (auto simp: add_player_def split: if_splits) 
  ultimately show ?thesis using inc le by (simp add: card_inv_def)
qed

lemma start_existing_None:
  assumes "card_inv s" shows "start_existing s c = None \<longleftrightarrow> ca_conn_game s c = None"
proof (cases "ca_conn_game s c")
  case (Some gi)
  then obtain gid i where gi: "ca_conn_game s c = Some (gid, i)" by (cases gi) auto
  from assms this obtain g where "ca_games s gid = Some g" by (rule inv_conn_game)
  with gi show ?thesis by (simp add: start_existing_def)
qed (simp add: start_existing_def)

lemma card_start_cases:
  assumes inv: "card_inv s"
  obtains (existing) r where "card_start s c it shuffle = (r, s, [])" "ca_conn_game s c \<noteq> None"
  | (opened) r where "ca_conn_game s c = None" "find_waiting s it = None"
      "card_start s c it shuffle = (Inr r, (seated s c (ca_next_game s) 0
         (new_game (ca_next_game s) c (ca_next_player s) shuffle))\<lparr>ca_next_game := ca_next_game s + 1\<rparr>,
         start_directory s (ca_next_game s) False)"
  | (joined) gid g p r es where "ca_conn_game s c = None" "find_waiting s it = Some gid"
      "ca_games s gid = Some g" "cg_phase g = 0" "cg_players g = [p]"
      "card_start s c it shuffle = (Inr r, seated s c gid 1 (add_player g c (ca_next_player s) shuffle),
         start_directory s gid True @ es)"
proof (cases "ca_conn_game s c")
  case (Some gi)
  then obtain r where "start_existing s c = Some r"
    using start_existing_None [OF inv, of c] by auto
  with Some show thesis by (intro existing [of "map_sum id (\<lambda>v. CardStartResp (Some v)) r"]) (simp_all add: card_start_def)
next
  case None
  then have new: "card_start s c it shuffle = start_enter s c (find_waiting s it) shuffle"
    by (simp add: card_start_def start_existing_def)
  show thesis
  proof (cases "find_waiting s it")
    case none: None
    with None new show thesis
      by (intro opened) (simp_all add: start_opens Let_def start_directory_def seated_def)
  next
    case (Some gid)
    then obtain g where g: "ca_games s gid = Some g" "cg_phase g = 0" "length (cg_players g) < 2"
      by (rule find_waiting_Some)
    note ok = card_invD [OF inv g(1)]
    with g obtain p where p: "cg_players g = [p]"
      by (auto simp: game_ok_def length_Suc_conv)
    with ok g have "cg_turn g = 0" by (simp add: game_ok_def playing_ok_def)
    moreover have "gp_conn_id p \<noteq> c" using seat_of_other [OF ok g(2) None] p by simp
    ultimately show thesis
      using start_joins [OF g(1) p, where c = c and shuffle = shuffle] None Some new g p
      by (auto simp: Let_def start_directory_def seated_def intro!: joined)
  qed
qed

lemma card_start_inv:
  assumes inv: "card_inv s" and deal: "mset (shuffle deck) = mset deck" and np: "ca_next_player s \<noteq> - 1"
  shows "card_inv (next_state (card_start s c it shuffle))"
    and "unat (ca_next_player (next_state (card_start s c it shuffle))) \<le> Suc (unat (ca_next_player s))"
proof -
  have "card_inv (next_state (card_start s c it shuffle)) \<and>
     unat (ca_next_player (next_state (card_start s c it shuffle))) \<le> Suc (unat (ca_next_player s))"
    using inv
  proof (cases rule: card_start_cases [where c = c and it = it and shuffle = shuffle])
    case existing
    with inv show ?thesis by simp
  next
    case opened
    with opened_inv [OF inv opened(1) _ np] deal np show ?thesis by (simp add: unat_inc)
  next
    case joined
    with joined_inv [OF inv joined(1) _ np joined(3,4,5)] deal np show ?thesis by (simp add: unat_inc)
  qed
  then show "card_inv (next_state (card_start s c it shuffle))"
    "unat (ca_next_player (next_state (card_start s c it shuffle))) \<le> Suc (unat (ca_next_player s))"
    by auto
qed

subsection \<open>Ending a turn, reading the state\<close>

lemma card_end_turn_cases:
  assumes inv: "card_inv s"
  obtains (refused) "card_end_turn s c = (Inr (CardEndTurnResp False None), s, [])"
  | (passed) gid g v pushes where "ca_conn_game s c = Some (gid, cg_turn g)" "ca_games s gid = Some g"
      "cg_phase g = 0" "game_ok (ca_next_player s) (ca_next_game s) (ca_conn_game s) gid g"
      "card_end_turn s c = (Inr (CardEndTurnResp True (Some v)),
         put_game s gid (g\<lparr>cg_turn := (cg_turn g + 1) mod length (cg_players g)\<rparr>), pushes)"
proof (cases "ca_conn_game s c")
  case None
  then show thesis by (intro refused) (simp add: card_end_turn_def)
next
  case (Some gi)
  then obtain gid idx where gi: "ca_conn_game s c = Some (gid, idx)" by (cases gi) auto
  from inv this obtain g where g: "ca_games s gid = Some g"
    "game_ok (ca_next_player s) (ca_next_game s) (ca_conn_game s) gid g"
    by (auto elim: inv_conn_game)
  let ?g = "g\<lparr>cg_turn := (cg_turn g + 1) mod length (cg_players g)\<rparr>"
  have ne: "cg_players g \<noteq> []" using g(2) by (auto simp: game_ok_def)
  then have turn: "cg_turn ?g < length (cg_players ?g)" by simp
  obtain v where v: "view_for ?g idx = Inr v" using view_for_ok [OF turn] by blast
  obtain pushes where pushes: "push_snapshot (put_game s gid ?g) gid = Inr pushes"
    using push_snapshot_ok [of "put_game s gid ?g" gid] turn by auto
  show thesis
  proof (cases "cg_phase g = 0 \<and> cg_turn g = idx")
    case True
    then show thesis using gi g ne v pushes
      by (intro passed [of gid g v pushes]) (auto simp: card_end_turn_def put_game_def Let_def)
  next
    case False
    then show thesis using gi g by (intro refused) (simp add: card_end_turn_def)
  qed
qed

lemma card_end_turn_inv:
  assumes inv: "card_inv s"
  shows "card_inv (next_state (card_end_turn s c))"
    and "ca_next_player (next_state (card_end_turn s c)) = ca_next_player s"
    and "\<not> panics (outcome_of (card_end_turn s c))"
proof -
  from inv have "card_inv (next_state (card_end_turn s c)) \<and>
      ca_next_player (next_state (card_end_turn s c)) = ca_next_player s \<and>
      \<not> panics (outcome_of (card_end_turn s c))"
  proof (cases rule: card_end_turn_cases [where c = c])
    case refused
    with inv show ?thesis by simp
  next
    case (passed gid g v pushes)
    have "game_ok (ca_next_player s) (ca_next_game s) (ca_conn_game s) gid
        (g\<lparr>cg_turn := (cg_turn g + 1) mod length (cg_players g)\<rparr>)"
      using passed(3,4) by (auto simp: game_ok_def playing_ok_def)
    then have "card_inv (put_game s gid (g\<lparr>cg_turn := (cg_turn g + 1) mod length (cg_players g)\<rparr>))"
      unfolding put_game_def by (intro card_inv_update [OF inv passed(2)]) auto
    then show ?thesis by (simp add: passed(5))
  qed
  then show "card_inv (next_state (card_end_turn s c))"
    "ca_next_player (next_state (card_end_turn s c)) = ca_next_player s"
    "\<not> panics (outcome_of (card_end_turn s c))" by auto
qed

lemma card_state_unchanged [simp]: "next_state (card_state s c) = s"
  by (simp add: card_state_def split: option.splits)

subsection \<open>Leaving\<close>

lemma conns_ok_leave:
  assumes "conns_ok gs cg" "cg c = Some (gid, idx)"
  shows "conns_ok (gs(gid \<mapsto> g')) (cg(c := None))"
proof -
  have two: "i < 2 \<Longrightarrow> j < 2 \<Longrightarrow> i \<noteq> idx \<Longrightarrow> j \<noteq> idx \<Longrightarrow> i = j" if "idx < 2" for i j :: nat
    using that by auto
  have idx: "idx < 2" using assms unfolding conns_ok_def by blast
  have "c1 = c2" if "c1 \<noteq> c" "c2 \<noteq> c" "cg c1 = Some (gid, i)" "cg c2 = Some (gid, j)" for c1 c2 i j
  proof -
    have "i < 2" "j < 2" "i \<noteq> idx" "j \<noteq> idx"
      using assms that unfolding conns_ok_def by metis+
    then have "i = j" using two idx by blast
    with that assms(1) show ?thesis unfolding conns_ok_def by metis
  qed
  then show ?thesis using assms unfolding conns_ok_def by (auto split: if_splits)
qed

lemma conns_ok_remove:
  assumes "conns_ok gs cg" "cg c = Some (gid, idx)" "gs gid = Some g" "length (cg_players g) = 1"
  shows "conns_ok (gs(gid := None)) (cg(c := None))"
proof -
  have "cg c' \<noteq> Some (gid, i)" if "c' \<noteq> c" for c' i
    using assms that unfolding conns_ok_def by metis
  then show ?thesis using assms(1) unfolding conns_ok_def by (auto split: if_splits)
qed

lemma game_ok_leave:
  assumes "game_ok np ng cg gid g" "cg c = Some (gid', idx)" "gid' \<noteq> gid \<or> cg_phase g \<noteq> 0"
  shows "game_ok np ng (cg(c := None)) gid g"
  using assms by (auto simp: game_ok_def playing_ok_def seats_def)

lemma game_ok_over:
  assumes "game_ok np ng cg gid g" "idx < length (cg_players g)" "remove_nth idx (cg_players g) \<noteq> []"
  shows "game_ok np ng cg' gid (g\<lparr>cg_players := remove_nth idx (cg_players g), cg_phase := 1, cg_winner := w\<rparr>)"
    and "cg_phase g \<noteq> 0 \<Longrightarrow> game_ok np ng cg' gid (g\<lparr>cg_players := remove_nth idx (cg_players g)\<rparr>)"
proof -
  have len: "length (remove_nth idx (cg_players g)) = 1"
  proof -
    have "length (remove_nth idx (cg_players g)) \<noteq> 0" using assms(3) by simp
    with assms(1,2) show ?thesis by (auto simp: game_ok_def)
  qed
  with assms(1) show "game_ok np ng cg' gid (g\<lparr>cg_players := remove_nth idx (cg_players g), cg_phase := 1, cg_winner := w\<rparr>)"
    "cg_phase g \<noteq> 0 \<Longrightarrow> game_ok np ng cg' gid (g\<lparr>cg_players := remove_nth idx (cg_players g)\<rparr>)"
    using set_remove_nth_subset [of idx "cg_players g"] by (auto simp: game_ok_def)
qed

text \<open>The state after a leave, whether or not it panics.\<close>

lemma card_leave_next:
  assumes "ca_conn_game s c = Some (gid, idx)" "ca_games s gid = Some g"
  shows "next_state (card_leave s c) =
    (let ps = remove_nth idx (cg_players g); s1 = s\<lparr>ca_conn_game := (ca_conn_game s)(c := None)\<rparr>
     in if length (cg_players g) \<le> idx then s1
        else if ps = [] then s1\<lparr>ca_games := (ca_games s)(gid := None)\<rparr>
        else if cg_phase g = 0
        then s1\<lparr>ca_games := (ca_games s)(gid \<mapsto>
               g\<lparr>cg_players := ps, cg_phase := 1, cg_winner := gp_player_id (hd ps)\<rparr>)\<rparr>
        else s1\<lparr>ca_games := (ca_games s)(gid \<mapsto> g\<lparr>cg_players := ps\<rparr>)\<rparr>)"
  using assms by (simp add: card_leave_def Let_def split: sum.splits)

lemma card_leave_inv:
  assumes inv: "card_inv s"
  shows "card_inv (next_state (card_leave s c))"
    and "ca_next_player (next_state (card_leave s c)) = ca_next_player s"
proof -
  have "card_inv (next_state (card_leave s c)) \<and>
      ca_next_player (next_state (card_leave s c)) = ca_next_player s"
  proof (cases "ca_conn_game s c")
    case None
    with inv show ?thesis by (simp add: card_leave_def)
  next
    case (Some gi)
    then obtain gid idx where gi: "ca_conn_game s c = Some (gid, idx)" by (cases gi) auto
    from inv this obtain g where g: "ca_games s gid = Some g" "idx < 2"
      and ok: "game_ok (ca_next_player s) (ca_next_game s) (ca_conn_game s) gid g"
      by (auto elim: inv_conn_game)
    let ?cg = "(ca_conn_game s)(c := None)" and ?ps = "remove_nth idx (cg_players g)"
    have conns: "conns_ok (ca_games s) (ca_conn_game s)" and le: "ca_next_game s \<le> ca_next_player s"
      using inv by (simp_all add: card_inv_def)
    have others: "game_ok (ca_next_player s) (ca_next_game s) ?cg gid' g'"
      if "ca_games s gid' = Some g'" "gid' \<noteq> gid \<or> cg_phase g' \<noteq> 0" for gid' g'
      by (rule game_ok_leave [OF card_invD [OF inv that(1)] gi]) (use that(2) in auto)
    consider (stale) "length (cg_players g) \<le> idx" | (last) "idx < length (cg_players g)" "?ps = []"
      | (won) "idx < length (cg_players g)" "?ps \<noteq> []" "cg_phase g = 0"
      | (over) "idx < length (cg_players g)" "?ps \<noteq> []" "cg_phase g \<noteq> 0"
      by linarith
    then show ?thesis
    proof cases
      case stale
      then have len: "length (cg_players g) = 1" "idx = 1" using ok g(2) by (auto simp: game_ok_def)
      have "cg_phase g \<noteq> 0"
      proof
        assume "cg_phase g = 0"
        then have p: "ca_conn_game s (gp_conn_id (cg_players g ! 0)) = Some (gid, 0)"
          using ok len by (simp add: game_ok_def playing_ok_def seats_def)
        with conns g(1) len gi have "gp_conn_id (cg_players g ! 0) = c"
          unfolding conns_ok_def by metis
        with p gi len show False by simp
      qed
      with others g(1) have "\<And>gid' g'. ca_games s gid' = Some g' \<Longrightarrow>
          game_ok (ca_next_player s) (ca_next_game s) ?cg gid' g'" by (metis option.inject)
      moreover have "conns_ok (ca_games s) ?cg"
        using conns_ok_leave [OF conns gi, of g] g(1) by (simp add: map_upd_triv)
      ultimately show ?thesis using stale le
        by (simp add: card_leave_next [OF gi g(1)] Let_def card_inv_def)
    next
      case last
      then have "length (cg_players g) = 1" by (metis One_nat_def Suc_pred length_0_conv length_remove_nth
            length_greater_0_conv list.size(3) not_less_zero)
      with conns_ok_remove [OF conns gi g(1)] show ?thesis using last le others
        by (simp add: card_leave_next [OF gi g(1)] Let_def card_inv_def)
    next
      case won
      with conns_ok_leave [OF conns gi] game_ok_over(1) [OF ok won(1,2)] le others show ?thesis
        by (simp add: card_leave_next [OF gi g(1)] Let_def card_inv_def)
    next
      case over
      with conns_ok_leave [OF conns gi] game_ok_over(2) [OF ok over(1,2,3)] le others show ?thesis
        by (simp add: card_leave_next [OF gi g(1)] Let_def card_inv_def)
    qed
  qed
  then show "card_inv (next_state (card_leave s c))"
    "ca_next_player (next_state (card_leave s c)) = ca_next_player s" by auto
qed

interpretation card_machine: budgeted_machine card_step card_inv "\<lambda>s. unat (ca_next_player s)"
    "2 ^ 32 - 1" card_event_ok
proof unfold_locales
  fix s e
  assume inv: "card_inv s" and ok: "card_event_ok e" and "unat (ca_next_player s) < 2 ^ 32 - 1"
  then have np: "ca_next_player s \<noteq> - 1"
    by (auto simp: unsigned_minus_1_eq_mask mask_eq_exp_minus_1)
  show "card_inv (card_step s e)"
    using inv np ok by (cases e) (auto intro: card_play_inv card_end_turn_inv card_leave_inv card_start_inv)
  show "unat (ca_next_player (card_step s e)) \<le> Suc (unat (ca_next_player s))"
    using inv np ok card_start_inv(2)
    by (cases e) (auto simp: card_play_inv card_end_turn_inv card_leave_inv)
qed

end
