(* ===== verification/Card_Props.thy ===== *)
theory Card_Props
  imports Card_Safety
begin

text \<open>
  The properties of the card service, over every sequence of requests it can be sent
  (\<open>card_run\<close>), and the two starts of a race.
\<close>

definition card_run :: "bool \<Rightarrow> bool \<Rightarrow> string \<Rightarrow> card_event list \<Rightarrow> card_app" where
  "card_run store session_dir node_id es = foldl card_step (card_new store session_dir node_id) es"

lemma card_run_inv:
  assumes "\<forall>e\<in>set es. card_event_ok e" "length es < 2 ^ 32 - 1"
  shows "card_inv (card_run st sd n es)"
proof -
  have "unat (ca_next_player (card_new st sd n)) = 1" by (simp add: card_new_def)
  then show ?thesis
    using assms unfolding card_run_def by (intro card_machine.run_inv) auto
qed

section \<open>A concrete duel\<close>

text \<open>
  Both players are dealt the three weakest cards; the witnesses below evaluate this duel.
  \<open>duel_at\<close> is the service's state in the middle of it.
\<close>

definition weak_deal :: "card_def list \<Rightarrow> card_def list" where
  "weak_deal d = [deck ! 4, deck ! 3, deck ! 1, deck ! 0, deck ! 2, deck ! 5]"

definition weak_starts :: "card_event list" where
  "weak_starts = [EvStart 7 [] weak_deal, EvStart 9 [1] weak_deal]"

definition weak_plays :: "card_event list" where
  "weak_plays = [EvPlay 7 0 0, EvPlay 9 0 0, EvPlay 7 0 0, EvPlay 9 0 0, EvPlay 7 0 0, EvPlay 9 0 0]"

definition duel_game :: "nat \<Rightarrow> u32 \<Rightarrow> u32 \<Rightarrow> card_def list \<Rightarrow> u32 \<Rightarrow> u32 \<Rightarrow> card_def list \<Rightarrow> card_game" where
  "duel_game turn hp sc hand hp' sc' hand' =
     \<lparr>cg_id = 1, cg_phase = 0, cg_turn = turn, cg_winner = 0, cg_players =
        [\<lparr>gp_player_id = 1, gp_name = player_name 1, gp_hp = hp, gp_score = sc, gp_hand = hand, gp_conn_id = 7\<rparr>,
         \<lparr>gp_player_id = 2, gp_name = player_name 2, gp_hp = hp', gp_score = sc', gp_hand = hand', gp_conn_id = 9\<rparr>]\<rparr>"

definition duel_at :: "nat \<Rightarrow> u32 \<Rightarrow> u32 \<Rightarrow> card_def list \<Rightarrow> u32 \<Rightarrow> u32 \<Rightarrow> card_def list \<Rightarrow> card_app" where
  "duel_at turn hp sc hand hp' sc' hand' =
     \<lparr>ca_games = [1 \<mapsto> duel_game turn hp sc hand hp' sc' hand'],
      ca_conn_game = [7 \<mapsto> (1, 0), 9 \<mapsto> (1, 1)], ca_next_player = 3, ca_next_game = 2, ca_store = False,
      ca_session_dir = False, ca_node_id = []\<rparr>"

lemma weak_deal_ok [simp]: "mset (weak_deal deck) = mset deck"
  by (simp add: weak_deal_def deck_def)

lemma weak_ok [simp]: "\<forall>e\<in>set weak_starts. card_event_ok e" "\<forall>e\<in>set weak_plays. card_event_ok e"
  by (simp_all add: weak_starts_def weak_plays_def)

lemma weak_len [simp]: "length weak_starts = 2" "length weak_plays = 6"
  by (simp_all add: weak_starts_def weak_plays_def)

lemmas card_eval = card_run_def card_new_def card_start_def start_existing_def find_waiting_def
  start_enter_def start_alloc_def take_seat_def new_game_def new_player_def add_player_def is_full_def
  player_idx_of_def start_directory_def push_snapshot_def view_for_def card_play_def play_checks_def
  choose_victim_def play_move_def strike_def check_finish_def card_finished_def card_end_turn_def
  card_state_def card_leave_def remove_nth_def Let_def

lemma weak_hand [simp]: "take 3 (weak_deal d) = [deck ! 4, deck ! 3, deck ! 1]"
  by (simp add: weak_deal_def)

lemma weak_powers: "cd_power (deck ! 4) = 4" "cd_power (deck ! 3) = 5" "cd_power (deck ! Suc 0) = 6"
  by (simp_all add: deck_def)

lemma duel_at_start: "card_run False False [] weak_starts
    = duel_at 0 20 0 [deck ! 4, deck ! 3, deck ! Suc 0] 20 0 [deck ! 4, deck ! 3, deck ! Suc 0]"
  by (simp add: card_eval deal_hand_def duel_at_def duel_game_def weak_starts_def)

lemma duel_at_play:
  assumes "0 < hp" "cd_power c < hp'"
  shows "card_step (duel_at 0 hp sc (c # cs) hp' sc' cs') (EvPlay 7 0 0)
      = duel_at (Suc 0) hp (sc + cd_power c) cs (hp' - cd_power c) sc' cs'"
    and "card_step (duel_at (Suc 0) hp' sc' cs' hp sc (c # cs)) (EvPlay 9 0 0)
      = duel_at 0 (hp' - cd_power c) sc' cs' hp (sc + cd_power c) cs"
  using assms by (auto simp: card_eval duel_at_def duel_game_def saturating_sub_def)

lemma duel_at_first: "card_run False False [] (weak_starts @ [EvPlay 7 0 0])
    = duel_at (Suc 0) 20 4 [deck ! 3, deck ! Suc 0] 16 0 [deck ! 4, deck ! 3, deck ! Suc 0]"
  using duel_at_start by (simp add: card_run_def duel_at_play weak_powers del: card_step.simps)

lemma duel_at_end: "card_run False False [] (weak_starts @ weak_plays) = duel_at 0 5 15 [] 5 15 []"
  using duel_at_start
  by (simp add: card_run_def duel_at_play weak_powers weak_plays_def del: card_step.simps)

section \<open>No panic, and the score sheet\<close>



text \<open>
  C3: In every reachable state a game in progress has one player, untouched, or two players
  with different ids whose hit points are 20 minus what the opponent scored and still
  positive; the turn names a seat; nobody holds more than three cards; and the connection
  table maps the connection of each seat to that seat.
\<close>

theorem game_in_progress_sound:
  assumes "\<forall>e\<in>set es. card_event_ok e" "length es < 2 ^ 32 - 1"
    and "ca_games (card_run st sd n es) gid = Some g" "cg_phase g = PHASE_PLAYING"
  shows "(\<exists>p. cg_players g = [p] \<and> gp_hp p = INIT_HP \<and> gp_score p = 0 \<and> cg_turn g = 0 \<and>
            length (gp_hand p) \<le> 3 \<and> ca_conn_game (card_run st sd n es) (gp_conn_id p) = Some (gid, 0))
       \<or> (\<exists>p q. cg_players g = [p, q] \<and> gp_player_id p \<noteq> gp_player_id q \<and> cg_turn g \<le> 1 \<and>
            unat (gp_hp p) = 20 - unat (gp_score q) \<and> unat (gp_hp q) = 20 - unat (gp_score p) \<and>
            0 < gp_hp p \<and> 0 < gp_hp q \<and> length (gp_hand p) \<le> 3 \<and> length (gp_hand q) \<le> 3 \<and>
            ca_conn_game (card_run st sd n es) (gp_conn_id p) = Some (gid, 0) \<and>
            ca_conn_game (card_run st sd n es) (gp_conn_id q) = Some (gid, 1))"
proof -
  have "playing_ok (ca_conn_game (card_run st sd n es)) gid g"
    using card_invD [OF card_run_inv [OF assms(1,2)] assms(3)] assms(4) by (simp add: game_ok_def)
  then show ?thesis
    by (cases "cg_players g" rule: duel_ok.cases)
       (auto simp: playing_ok_def seats_def within_deal_def word_gt_0 less_Suc_eq)
qed

theorem game_in_progress_sound_witness:
  "\<exists>g p q. ca_games (card_run False False [] (weak_starts @ weak_plays)) 1 = Some g \<and>
     cg_players g = [p, q] \<and> unat (gp_hp p) = 20 - unat (gp_score q) \<and> gp_score q = 15"
proof -
  let ?g = "duel_game 0 5 15 [] 5 15 []"
  have g: "ca_games (card_run False False [] (weak_starts @ weak_plays)) 1 = Some ?g"
    by (simp add: duel_at_end duel_at_def)
  have "unat (gp_hp (cg_players ?g ! 0)) = 20 - unat (gp_score (cg_players ?g ! 1))"
    using game_in_progress_sound [OF _ _ g] by (auto simp: ball_Un duel_game_def)
  then show ?thesis using g by (intro exI [of _ ?g]) (simp add: duel_game_def)
qed

section \<open>A move\<close>

text \<open>
  C2: In a reachable state, a request to play that is answered \<open>ok\<close> is the move of the seat
  whose turn it is in a game in progress with two players: the card leaves the hand, the
  opponent loses its power (not below zero), the player's score grows by it, and either the
  opponent has no hit points left, the game is finished and won by the player, or the turn is
  the opponent's.  The result is recorded exactly when this ends the game and a profile
  store is connected, before the snapshots are pushed; nothing else changes.  A request
  that is not answered \<open>ok\<close> changes nothing.
\<close>

definition move_effect :: "card_game \<Rightarrow> nat \<Rightarrow> nat \<Rightarrow> card_game \<Rightarrow> bool" where
  "move_effect g idx hi g' \<longleftrightarrow>
     (let me = cg_players g ! idx; you = cg_players g ! (1 - idx); c = gp_hand me ! hi;
          me' = cg_players g' ! idx; you' = cg_players g' ! (1 - idx)
      in length (cg_players g') = 2 \<and>
         me' = me\<lparr>gp_hand := remove_nth hi (gp_hand me), gp_score := gp_score me + cd_power c\<rparr> \<and>
         you' = you\<lparr>gp_hp := saturating_sub (gp_hp you) (cd_power c)\<rparr> \<and>
         cg_id g' = cg_id g \<and>
         (if unat (gp_hp you) \<le> unat (cd_power c)
          then cg_phase g' = PHASE_FINISHED \<and> cg_winner g' = gp_player_id me \<and> cg_turn g' = idx
          else cg_phase g' = PHASE_PLAYING \<and> cg_winner g' = cg_winner g \<and> cg_turn g' = 1 - idx))"

lemma saturating_sub_0: "saturating_sub a b = 0 \<longleftrightarrow> unat a \<le> unat b"
  by (metis diff_is_0_eq unat_eq_0 unat_saturating_sub)

lemma duel_move_effect:
  assumes "game_ok np ng cg gid g" "cg_phase g = 0" "length (cg_players g) = 2" "cg_turn g = idx" "idx < 2"
  shows "move_effect g idx hi (fst (play_move g idx hi (1 - idx)))"
    and "snd (play_move g idx hi (1 - idx)) = gp_hand (cg_players g ! idx) ! hi"
proof -
  from assms(1,2) have d: "duel_ok (cg_players g)" by (simp add: game_ok_def playing_ok_def)
  then obtain p q where ps: "cg_players g = [p, q]"
    by (cases rule: duel_cases) (use assms(3) in auto)
  with d have pm: "gp_hp p \<noteq> 0" "gp_hp q \<noteq> 0" "gp_player_id p \<noteq> gp_player_id q" by auto
  note moves = play_move_duel [OF ps assms(2) pm, unfolded One_nat_def]
  from assms(5) consider "idx = 0" | "idx = 1" by linarith
  then have "move_effect g idx hi (fst (play_move g idx hi (1 - idx))) \<and>
      snd (play_move g idx hi (1 - idx)) = gp_hand (cg_players g ! idx) ! hi"
    using assms(2,4) ps
    by cases (simp_all add: moves Let_def move_effect_def saturating_sub_0 struck_def hit_def)
  then show "move_effect g idx hi (fst (play_move g idx hi (1 - idx)))"
    "snd (play_move g idx hi (1 - idx)) = gp_hand (cg_players g ! idx) ! hi" by auto
qed

theorem play_is_the_move:
  assumes "\<forall>e\<in>set es. card_event_ok e" "length es < 2 ^ 32 - 1"
    and "s = card_run st sd n es" "card_play s c h t = (r, s', effects)"
  shows "(\<exists>d. r = Inr (CardPlayResp False d None) \<and> s' = s \<and> effects = []) \<or>
    (\<exists>gid idx g g' v pushes. ca_conn_game s c = Some (gid, idx) \<and> ca_games s gid = Some g \<and>
       cg_phase g = PHASE_PLAYING \<and> cg_turn g = idx \<and> length (cg_players g) = 2 \<and>
       unat h < length (gp_hand (cg_players g ! idx)) \<and> move_effect g idx (unat h) g' \<and>
       r = Inr (CardPlayResp True (damage_text (gp_hand (cg_players g ! idx) ! unat h)) (Some v)) \<and>
       view_for g' idx = Inr v \<and> s' = s\<lparr>ca_games := (ca_games s)(gid \<mapsto> g')\<rparr> \<and>
       push_snapshot s' gid = Inr pushes \<and>
       effects = (if cg_phase g' = PHASE_FINISHED \<and> ca_store s
                  then [RecordGame (map (\<lambda>p. uint (gp_player_id p)) (cg_players g')) (uint (cg_winner g'))]
                  else []) @ pushes)"
proof -
  have inv: "card_inv s" using card_run_inv [OF assms(1,2)] assms(3) by simp
  then show ?thesis
  proof (cases rule: card_play_cases [where c = c and h = h and t = t])
    case (refused d)
    with assms(4) show ?thesis by (intro disjI1) (auto simp: play_fail_def)
  next
    case (moved gid idx g g' played v pushes)
    note mv = duel_move_effect [OF card_invD [OF inv moved(2)] moved(3,5,4,6), where hi = "unat h",
        unfolded moved(8) fst_conv snd_conv]
    have "cg_phase g' = 0 \<or> cg_phase g' = 1"
      using mv(1) by (auto simp: move_effect_def Let_def split: if_splits)
    then have "(if card_finished g' then persist_result (put_game s gid g') gid (cg_winner g') else [])
        = (if cg_phase g' = PHASE_FINISHED \<and> ca_store s
           then [RecordGame (map (\<lambda>p. uint (gp_player_id p)) (cg_players g')) (uint (cg_winner g'))] else [])"
      by (auto simp: card_finished_def persist_result_def)
    with moved mv assms(4) show ?thesis
      by (intro disjI2 exI [of _ gid] exI [of _ idx] exI [of _ g] exI [of _ g'] exI [of _ v] exI [of _ pushes])
         (simp add: put_game_def)
  qed
qed

theorem play_is_the_move_witness:
  "\<exists>g'. move_effect (duel_game 0 20 0 [deck ! 4, deck ! 3, deck ! 1] 20 0 [deck ! 4, deck ! 3, deck ! 1]) 0 1 g' \<and>
     ca_games (next_state (card_play (card_run False False [] weak_starts) 7 1 0)) 1 = Some g' \<and>
     gp_hp (cg_players g' ! 1) = 15"
proof -
  let ?s = "card_run False False [] weak_starts"
  let ?r = "card_play ?s 7 1 0"
  have h: "card_play ?s 7 1 0 = (fst ?r, fst (snd ?r), snd (snd ?r))" by simp
  have acc: "\<nexists>d. fst ?r = Inr (CardPlayResp False d None)"
    unfolding duel_at_start
    by (simp add: duel_at_def duel_game_def card_eval saturating_sub_def weak_powers)
  have g: "ca_games ?s 1 = Some (duel_game 0 20 0 [deck ! 4, deck ! 3, deck ! 1] 20 0 [deck ! 4, deck ! 3, deck ! 1])"
    and c: "ca_conn_game ?s 7 = Some (1, 0)"
    by (simp_all add: duel_at_start duel_at_def)
  obtain g' where "move_effect (duel_game 0 20 0 [deck ! 4, deck ! 3, deck ! 1] 20 0 [deck ! 4, deck ! 3, deck ! 1]) 0 1 g'"
    "fst (snd ?r) = ?s\<lparr>ca_games := (ca_games ?s)(1 \<mapsto> g')\<rparr>"
    using play_is_the_move [OF _ _ refl h] acc g c by auto
  then show ?thesis
    by (intro exI [of _ g'])
       (simp add: move_effect_def duel_game_def Let_def saturating_sub_def weak_powers)
qed

section \<open>Secrecy\<close>

text \<open>The parts of a player that the opponent may see: all but the cards on the hand.\<close>

definition same_public :: "game_player \<Rightarrow> game_player \<Rightarrow> bool" where
  "same_public p q \<longleftrightarrow> p\<lparr>gp_hand := []\<rparr> = q\<lparr>gp_hand := []\<rparr> \<and> length (gp_hand p) = length (gp_hand q)"

definition same_for :: "nat \<Rightarrow> card_game \<Rightarrow> card_game \<Rightarrow> bool" where
  "same_for i g g' \<longleftrightarrow> g\<lparr>cg_players := []\<rparr> = g'\<lparr>cg_players := []\<rparr> \<and>
     length (cg_players g) = length (cg_players g') \<and>
     (\<forall>j<length (cg_players g). same_public (cg_players g ! j) (cg_players g' ! j)) \<and>
     (i < length (cg_players g) \<longrightarrow> cg_players g ! i = cg_players g' ! i)"

text \<open>
  C29: Noninterference of the views: two games that differ only in the cards on hands other
  than that of seat \<open>i\<close> (with as many cards on each) give seat \<open>i\<close> the same view.  So a
  response or snapshot for seat \<open>i\<close> reveals nothing about the opponent's cards.
\<close>

lemma same_public_view:
  assumes "same_public p q" "i = j \<longrightarrow> p = q"
  shows "player_view i (j, p) = player_view i (j, q)"
  using assms by (cases p; cases q) (auto simp: same_public_def player_view_def)

theorem view_hides_hands:
  assumes "same_for i g g'"
  shows "view_for g i = view_for g' i"
proof -
  have len: "length (cg_players g) = length (cg_players g')" using assms by (simp add: same_for_def)
  have same: "cg_turn g = cg_turn g'" "cg_id g = cg_id g'" "cg_phase g = cg_phase g'" "cg_winner g = cg_winner g'"
    using assms by (cases g; cases g'; simp add: same_for_def)+
  have ids: "gp_player_id (cg_players g ! j) = gp_player_id (cg_players g' ! j)" if "j < length (cg_players g)" for j
    using assms that by (cases "cg_players g ! j"; cases "cg_players g' ! j") (auto simp: same_for_def same_public_def)
  have "map (player_view i) (enumerate 0 (cg_players g)) = map (player_view i) (enumerate 0 (cg_players g'))"
  proof (rule nth_equalityI)
    fix j
    assume "j < length (map (player_view i) (enumerate 0 (cg_players g)))"
    then have "j < length (cg_players g)" by simp
    then show "map (player_view i) (enumerate 0 (cg_players g)) ! j
        = map (player_view i) (enumerate 0 (cg_players g')) ! j"
      using assms len by (auto simp: same_for_def nth_enumerate_eq intro!: same_public_view)
  qed (simp add: len)
  then show ?thesis using same ids len by (auto simp: view_for_def)
qed

theorem view_hides_hands_witness:
  "view_for (duel_game 0 20 0 [deck ! 4] 20 0 [deck ! 1]) 0
     = view_for (duel_game 0 20 0 [deck ! 4] 20 0 [deck ! 5]) 0"
  by (rule view_hides_hands)
     (auto simp: same_for_def same_public_def duel_game_def less_Suc_eq)

section \<open>A duel without cards\<close>

definition exhausted :: "card_app \<Rightarrow> u32 \<Rightarrow> game_player \<Rightarrow> game_player \<Rightarrow> bool" where
  "exhausted s gid p q \<longleftrightarrow> gp_hand p = [] \<and> gp_hand q = [] \<and>
     (case ca_games s gid of None \<Rightarrow> False
      | Some g \<Rightarrow> cg_phase g = PHASE_PLAYING \<and> cg_players g = [p, q])"

fun leaves :: "u32 \<Rightarrow> card_event \<Rightarrow> bool" where
  "leaves c (EvLeave c') \<longleftrightarrow> c' = c"
| "leaves c _ \<longleftrightarrow> False"

lemma exhausted_step:
  assumes inv: "card_inv s" and ex: "exhausted s gid p q"
    and stay: "\<not> leaves (gp_conn_id p) e" "\<not> leaves (gp_conn_id q) e"
  shows "exhausted (card_step s e) gid p q"
proof -
  from ex obtain g where g: "ca_games s gid = Some g" "cg_phase g = 0" "cg_players g = [p, q]"
    and hands: "gp_hand p = []" "gp_hand q = []"
    by (auto simp: exhausted_def split: option.splits)
  note ok = card_invD [OF inv g(1)]
  have keep: "exhausted s' gid p q" if "ca_games s' gid = Some g" for s'
    using that g hands by (simp add: exhausted_def)
  show ?thesis
  proof (cases e)
    case (EvStart c it shuffle)
    from inv show ?thesis
    proof (cases rule: card_start_cases [where c = c and it = it and shuffle = shuffle])
      case existing
      with EvStart ex show ?thesis by simp
    next
      case (opened r)
      have "gid \<noteq> ca_next_game s" using ok by (auto simp: game_ok_def)
      with EvStart opened g(1) show ?thesis by (intro keep) simp
    next
      case (joined gid' g' p' r es)
      then have "gid' \<noteq> gid" using g by auto
      with EvStart joined g(1) show ?thesis by (intro keep) simp
    qed
  next
    case (EvPlay c h t)
    from inv show ?thesis
    proof (cases rule: card_play_cases [where c = c and h = h and t = t])
      case (refused d)
      with EvPlay ex show ?thesis by simp
    next
      case (moved gid' idx g' g'' played v pushes)
      then have "gid' \<noteq> gid" using g hands by (auto simp: nth_Cons' less_2_cases_iff)
      with EvPlay moved g(1) show ?thesis by (intro keep) simp
    qed
  next
    case (EvEndTurn c)
    from inv show ?thesis
    proof (cases rule: card_end_turn_cases [where c = c])
      case refused
      with EvEndTurn ex show ?thesis by simp
    next
      case (passed gid' g' v pushes)
      then show ?thesis using EvEndTurn g hands
        by (cases "gid' = gid") (simp_all add: exhausted_def)
    qed
  next
    case (EvState c)
    with ex show ?thesis by simp
  next
    case (EvLeave c)
    show ?thesis
    proof (cases "ca_conn_game s c")
      case None
      with EvLeave ex show ?thesis by (simp add: card_leave_def)
    next
      case (Some gi)
      then obtain gid' idx where gi: "ca_conn_game s c = Some (gid', idx)" by (cases gi) auto
      from inv this obtain g' where g': "ca_games s gid' = Some g'" "idx < 2"
        by (auto elim: inv_conn_game)
      have "gid' \<noteq> gid"
      proof
        assume "gid' = gid"
        moreover have "ca_conn_game s (gp_conn_id ([p, q] ! idx)) = Some (gid, idx)"
          using ok g g'(2) by (auto simp: game_ok_def playing_ok_def seats_def)
        ultimately have "gp_conn_id ([p, q] ! idx) = c"
          using inv gi unfolding card_inv_def conns_ok_def by metis
        with stay EvLeave g'(2) show False by (auto simp: less_2_cases_iff)
      qed
      with EvLeave g(1) show ?thesis
        by (intro keep) (simp add: card_leave_next [OF gi g'(1)] Let_def)
    qed
  qed
qed

text \<open>
  A duel whose hands are empty while both players live is never decided: as long as
  neither of the two connections leaves, no sequence of requests from anybody ends the game
  or changes the players, and nobody can draw.
\<close>

lemma exhausted_duel_never_ends:
  assumes "\<forall>e\<in>set (es @ fs). card_event_ok e" "length (es @ fs) < 2 ^ 32 - 1"
    and "exhausted (card_run st sd n es) gid p q"
    and "\<forall>e\<in>set fs. \<not> leaves (gp_conn_id p) e \<and> \<not> leaves (gp_conn_id q) e"
  shows "exhausted (card_run st sd n (es @ fs)) gid p q"
  using assms
proof (induction fs rule: rev_induct)
  case (snoc e fs)
  then have "exhausted (card_run st sd n (es @ fs)) gid p q" by simp
  moreover have "card_inv (card_run st sd n (es @ fs))"
    using snoc.prems(1,2) by (intro card_run_inv) auto
  ultimately have "exhausted (card_step (card_run st sd n (es @ fs)) e) gid p q"
    using snoc.prems(4) by (intro exhausted_step) auto
  then show ?case by (simp add: card_run_def)
qed simp

lemma exhausted_duel_never_ends_witness:
  "\<exists>p q. exhausted (card_run False False []
     ((weak_starts @ weak_plays) @ [EvPlay 7 0 0, EvEndTurn 7, EvStart 9 [1] weak_deal, EvStart 11 [1] weak_deal])) 1 p q"
proof (intro exI)
  let ?g = "duel_game 0 5 15 [] 5 15 []"
  show "exhausted (card_run False False []
     ((weak_starts @ weak_plays) @ [EvPlay 7 0 0, EvEndTurn 7, EvStart 9 [1] weak_deal, EvStart 11 [1] weak_deal])) 1
     (cg_players ?g ! 0) (cg_players ?g ! 1)"
    by (rule exhausted_duel_never_ends)
       (auto simp: ball_Un exhausted_def duel_at_end duel_at_def duel_game_def)
qed

section \<open>Leaving\<close>

text \<open>
  In a reachable state where a game of two is in progress and it is the second seat's
  turn, any leave ends in a panic: the game is over and won by the other seat, but the
  snapshot that would tell the winner indexes the turn out of range, so nothing is pushed.
  From then on reading the state and starting again panic for the winner's connection.
\<close>

lemma leave_on_second_turn_panics:
  assumes "\<forall>e\<in>set es. card_event_ok e" "length es < 2 ^ 32 - 1"
    and "s = card_run st sd n es" "ca_games s gid = Some g" "cg_phase g = PHASE_PLAYING"
    and "cg_turn g = 1" "idx < 2" "c = gp_conn_id (cg_players g ! idx)"
    and "w = cg_players g ! (1 - idx)"
  shows "card_leave s c = (Inl IndexOutOfBounds,
      s\<lparr>ca_conn_game := (ca_conn_game s)(c := None),
        ca_games := (ca_games s)(gid \<mapsto> g\<lparr>cg_players := [w], cg_phase := PHASE_FINISHED,
                                           cg_winner := gp_player_id w\<rparr>)\<rparr>, []) \<and>
    outcome_of (card_state (next_state (card_leave s c)) (gp_conn_id w)) = Inl IndexOutOfBounds \<and>
    outcome_of (card_start (next_state (card_leave s c)) (gp_conn_id w) it shuffle) = Inl IndexOutOfBounds"
proof -
  have "card_inv s" using card_run_inv [OF assms(1,2)] assms(3) by simp
  from card_invD [OF this assms(4)] have ok: "playing_ok (ca_conn_game s) gid g"
    using assms(5) by (simp add: game_ok_def)
  then have d: "duel_ok (cg_players g)" by (simp add: playing_ok_def)
  then obtain p q where ps: "cg_players g = [p, q]"
    by (cases rule: duel_cases) (use ok assms(6) in \<open>auto simp: playing_ok_def\<close>)
  with ok have seat: "ca_conn_game s (gp_conn_id p) = Some (gid, 0)" "ca_conn_game s (gp_conn_id q) = Some (gid, 1)"
    by (auto simp: playing_ok_def seats_def)
  then have ne: "gp_conn_id p \<noteq> gp_conn_id q" by auto
  from assms(7) consider "idx = 0" | "idx = 1" by linarith
  then show ?thesis
    by cases (use seat ne ps assms(4-6,8,9) in
      \<open>simp_all add: card_leave_def Let_def remove_nth_def push_snapshot_def view_for_def
         card_state_def card_start_def start_existing_def\<close>)
qed

lemma leave_on_second_turn_panics_witness:
  "outcome_of (card_leave (card_run False False [] (weak_starts @ [EvPlay 7 0 0])) 9) = Inl IndexOutOfBounds"
proof -
  let ?s = "card_run False False [] (weak_starts @ [EvPlay 7 0 0])"
  let ?g = "duel_game (Suc 0) 20 4 [deck ! 3, deck ! Suc 0] 16 0 [deck ! 4, deck ! 3, deck ! Suc 0]"
  have g: "ca_games ?s 1 = Some ?g" by (simp add: duel_at_first duel_at_def)
  have "outcome_of (card_leave ?s (gp_conn_id (cg_players ?g ! 1))) = Inl IndexOutOfBounds"
    using leave_on_second_turn_panics [OF _ _ refl g _ _ _ refl refl, of 1]
    by (auto simp: ball_Un duel_game_def)
  then show ?thesis by (simp add: duel_game_def)
qed

text \<open>
  In a reachable state with a game of two in progress, once the first seat has left, the
  second seat's leave always panics (its seat number is stale): the game stays in the table
  with a player whose connection is gone, and its directory entry is never removed.
\<close>

lemma second_leave_panics_and_leaks:
  assumes "\<forall>e\<in>set es. card_event_ok e" "length es < 2 ^ 32 - 1"
    and "s = card_run st sd n es" "ca_games s gid = Some g" "cg_phase g = PHASE_PLAYING"
    and "cg_players g = [p, q]"
    and "s1 = next_state (card_leave s (gp_conn_id p))"
  shows "card_leave s1 (gp_conn_id q) =
      (Inl IndexOutOfBounds, s1\<lparr>ca_conn_game := (ca_conn_game s1)(gp_conn_id q := None)\<rparr>, []) \<and>
    map_option cg_players (ca_games s1 gid) = Some [q] \<and>
    (\<forall>c i. ca_conn_game (next_state (card_leave s1 (gp_conn_id q))) c \<noteq> Some (gid, i))"
proof -
  have inv: "card_inv s" using card_run_inv [OF assms(1,2)] assms(3) by simp
  from card_invD [OF this assms(4)] have ok: "playing_ok (ca_conn_game s) gid g"
    using assms(5) by (simp add: game_ok_def)
  with assms(6) have seat: "ca_conn_game s (gp_conn_id p) = Some (gid, 0)"
    "ca_conn_game s (gp_conn_id q) = Some (gid, 1)"
    by (auto simp: playing_ok_def seats_def)
  then have ne: "gp_conn_id p \<noteq> gp_conn_id q" by auto
  have s1: "s1 = s\<lparr>ca_conn_game := (ca_conn_game s)(gp_conn_id p := None),
      ca_games := (ca_games s)(gid \<mapsto> g\<lparr>cg_players := [q], cg_phase := 1, cg_winner := gp_player_id q\<rparr>)\<rparr>"
    using card_leave_next [OF seat(1) assms(4)] assms(5-7) by (simp add: remove_nth_def)
  have lv: "card_leave s1 (gp_conn_id q) =
      (Inl IndexOutOfBounds, s1\<lparr>ca_conn_game := (ca_conn_game s1)(gp_conn_id q := None)\<rparr>, [])"
    using seat ne by (simp add: s1 card_leave_def)
  have "ca_conn_game s c = Some (gid, i) \<Longrightarrow> c = gp_conn_id p \<or> c = gp_conn_id q" for c i
  proof -
    assume c: "ca_conn_game s c = Some (gid, i)"
    then have "i < 2" using inv unfolding card_inv_def conns_ok_def by blast
    with c seat inv show ?thesis unfolding card_inv_def conns_ok_def
      by (metis One_nat_def less_2_cases)
  qed
  then have "ca_conn_game (next_state (card_leave s1 (gp_conn_id q))) c \<noteq> Some (gid, i)" for c i
    unfolding lv by (auto simp: s1 split: if_splits)
  with lv show ?thesis by (simp add: s1)
qed

lemma second_leave_panics_and_leaks_witness:
  "outcome_of (card_leave (next_state (card_leave (card_run False False [] weak_starts) 7)) 9)
     = Inl IndexOutOfBounds"
proof -
  let ?s = "card_run False False [] weak_starts"
  let ?g = "duel_game 0 20 0 [deck ! 4, deck ! 3, deck ! Suc 0] 20 0 [deck ! 4, deck ! 3, deck ! Suc 0]"
  have g: "ca_games ?s 1 = Some ?g" by (simp add: duel_at_start duel_at_def)
  have ps: "cg_players ?g = [cg_players ?g ! 0, cg_players ?g ! 1]" by (simp add: duel_game_def)
  have "outcome_of (card_leave (next_state (card_leave ?s (gp_conn_id (cg_players ?g ! 0))))
      (gp_conn_id (cg_players ?g ! 1))) = Inl IndexOutOfBounds"
    using second_leave_panics_and_leaks [OF _ _ refl g _ ps refl] by (auto simp: duel_game_def)
  then show ?thesis by (simp add: duel_game_def)
qed

section \<open>Two starts at once\<close>

text \<open>
  Two connections without a seat that both chose the same waiting game before either took
  its seat (the lock of the game is released in between): the first gets the second seat; the
  second is given seat 0 of the other players' duel, is not one of its players, and is sent
  the view of seat 0 with the cards on that player's hand.
\<close>

lemma start_race_reveals_hand:
  assumes "\<forall>e\<in>set es. card_event_ok e" "length es < 2 ^ 32 - 1"
    and "s = card_run st sd n es" "find_waiting s it = Some gid"
    and "ca_conn_game s c1 = None" "ca_conn_game s c2 = None" "c1 \<noteq> c2"
    and "s1 = next_state (start_enter s c1 (Some gid) shuffle1)"
  shows "\<exists>g v s2 es2. ca_games s1 gid = Some g \<and> length (cg_players g) = 2 \<and>
     (\<forall>p\<in>set (cg_players g). gp_conn_id p \<noteq> c2) \<and>
     start_enter s1 c2 (Some gid) shuffle2 = (Inr (CardStartResp (Some v)), s2, es2) \<and>
     ca_games s2 = ca_games s1 \<and> ca_conn_game s2 c2 = Some (gid, 0) \<and>
     cv_hand (hd (cs_players v)) = gp_hand (hd (cg_players g))"
proof -
  have inv: "card_inv s" using card_run_inv [OF assms(1,2)] assms(3) by simp
  from assms(4) obtain g0 where g0: "ca_games s gid = Some g0" "cg_phase g0 = 0" "length (cg_players g0) < 2"
    by (rule find_waiting_Some)
  note ok = card_invD [OF inv g0(1)]
  with g0 obtain p where p: "cg_players g0 = [p]" by (auto simp: game_ok_def length_Suc_conv)
  with ok g0 have turn: "cg_turn g0 = 0" by (simp add: game_ok_def playing_ok_def)
  have pc: "gp_conn_id p \<noteq> c1" "gp_conn_id p \<noteq> c2"
    using seat_of_other [OF ok g0(2)] assms(5,6) p by auto
  let ?g = "add_player g0 c1 (ca_next_player s) shuffle1"
  have s1: "s1 = seated s c1 gid 1 ?g"
    using start_joins [OF g0(1) p turn pc(1), of shuffle1] assms(8) by (auto simp: Let_def)
  have g: "ca_games s1 gid = Some ?g" "cg_players ?g = [p, new_player c1 (ca_next_player s) shuffle1]"
    "cg_turn ?g = 0"
    using p turn by (simp_all add: s1 add_player_def)
  obtain v where v: "view_for ?g 0 = Inr v" using view_for_ok [of ?g 0] g by auto
  let ?s2 = "s1\<lparr>ca_next_player := ca_next_player s1 + 1,
    ca_conn_game := (ca_conn_game s1)(c2 \<mapsto> (gid, 0))\<rparr>"
  have upd: "(ca_games s1)(gid \<mapsto> ?g) = ca_games s1" using g(1) by (simp add: map_upd_triv)
  obtain pushes where "push_snapshot ?s2 gid = Inr pushes"
    using push_snapshot_ok [of ?s2 gid] g by auto
  then have "start_enter s1 c2 (Some gid) shuffle2
      = (Inr (CardStartResp (Some v)), ?s2, start_directory ?s2 gid True @ pushes)"
    using g v upd by (simp add: start_enter_def start_alloc_def take_seat_def is_full_def Let_def)
  moreover have "cv_hand (hd (cs_players v)) = gp_hand p"
    using v g by (auto simp: view_for_def player_view_def split: if_splits)
  ultimately show ?thesis
    using g pc assms(7) by (intro exI [of _ ?g] exI [of _ v] exI [of _ ?s2]) (auto simp: new_player_def)
qed

lemma start_race_reveals_hand_witness:
  "\<exists>v s2 es2. start_enter (next_state (start_enter (card_run False False [] [EvStart 7 [] weak_deal]) 9 (Some 1) weak_deal))
       11 (Some 1) weak_deal = (Inr (CardStartResp (Some v)), s2, es2) \<and> ca_conn_game s2 11 = Some (1, 0)"
proof -
  let ?s = "card_run False False [] [EvStart 7 [] weak_deal]"
  have "find_waiting ?s [1] = Some 1" "ca_conn_game ?s 9 = None" "ca_conn_game ?s 11 = None"
    by (simp_all add: card_eval deal_hand_def)
  from start_race_reveals_hand [OF _ _ refl this(1-3) _ refl] show ?thesis by fastforce
qed

end
