(* ===== verification/Net.thy ===== *)
theory Net
  imports Prelude "HOL-Library.Sublist"
begin

text \<open>
  The crate \<open>grimoire-net\<close>: the framing of the TCP stream (\<open>FrameCodec\<close>) and the two
  UDP datagram formats.

  \<^item> \<open>encode_into\<close> and \<open>decode\<close> are the two directions of the codec; \<open>decode\<close> returns its
    result together with the bytes left in the buffer, because the code consumes a frame
    from the front of a \<open>BytesMut\<close>.
  \<^item> \<open>peer_packet\<close>, \<open>push_datagram\<close> and their parsers are the module \<open>udp\<close>.

  The locale \<open>stream_codec\<close> is the contract a reader of a byte stream needs from a codec,
  whatever the sizes of the chunks the transport delivers; the TCP codec interprets it.
\<close>

section \<open>Frames\<close>

definition MAGIC :: bytes where "MAGIC = [0x4D, 0x54]"
definition VERSION :: u8 where "VERSION = 1"
definition HEADER_LEN :: nat where "HEADER_LEN = 16"
definition MAX_PAYLOAD :: u32 where "MAX_PAYLOAD = 4 * 1024 * 1024"

datatype ptype = Request | Response | Push | Heartbeat | Close

fun ptype_u8 :: "ptype \<Rightarrow> u8" where
  "ptype_u8 Request = 0"
| "ptype_u8 Response = 1"
| "ptype_u8 Push = 2"
| "ptype_u8 Heartbeat = 3"
| "ptype_u8 Close = 4"

definition ptype_from_u8 :: "u8 \<Rightarrow> ptype option" where
  "ptype_from_u8 v =
     (if v = 0 then Some Request
      else if v = 1 then Some Response
      else if v = 2 then Some Push
      else if v = 3 then Some Heartbeat
      else if v = 4 then Some Close
      else None)"

record frame =
  f_ptype :: ptype
  f_msg_id :: u32
  f_seq :: u32
  f_payload :: bytes

datatype frame_error = BadMagic | BadVersion u8 | BadPType u8 | TooLarge u32

definition encode_into :: "frame \<Rightarrow> bytes \<Rightarrow> bytes" where
  "encode_into f buf =
     buf @ MAGIC @ [VERSION] @ [ptype_u8 (f_ptype f)] @ be_bytes (f_msg_id f)
         @ be_bytes (f_seq f) @ be_bytes (word_of_nat (length (f_payload f))) @ f_payload f"

definition encode :: "frame \<Rightarrow> bytes" where
  "encode f = encode_into f []"

definition decode :: "bytes \<Rightarrow> (frame_error + frame option) \<times> bytes" where
  "decode src =
     (if length src < HEADER_LEN then (Inr None, src)
      else if take 2 src \<noteq> MAGIC then (Inl BadMagic, src)
      else if src ! 2 \<noteq> VERSION then (Inl (BadVersion (src ! 2)), src)
      else case ptype_from_u8 (src ! 3) of
        None \<Rightarrow> (Inl (BadPType (src ! 3)), src)
      | Some ptype \<Rightarrow>
          let msg_id = from_be_bytes (src ! 4) (src ! 5) (src ! 6) (src ! 7);
              seq = from_be_bytes (src ! 8) (src ! 9) (src ! 10) (src ! 11);
              len = from_be_bytes (src ! 12) (src ! 13) (src ! 14) (src ! 15)
          in if MAX_PAYLOAD < len then (Inl (TooLarge len), src)
             else if length src < HEADER_LEN + unat len then (Inr None, src)
             else (Inr (Some \<lparr>f_ptype = ptype, f_msg_id = msg_id, f_seq = seq,
                              f_payload = take (unat len) (drop HEADER_LEN src)\<rparr>),
                   drop (HEADER_LEN + unat len) src))"

lemmas net_consts = MAGIC_def VERSION_def HEADER_LEN_def

lemma ptype_from_to [simp]: "ptype_from_u8 (ptype_u8 p) = Some p"
  by (cases p) (simp_all add: ptype_from_u8_def)

lemma ptype_from_Some: "ptype_from_u8 v = Some p \<longleftrightarrow> v = ptype_u8 p"
  by (cases p) (auto simp: ptype_from_u8_def)

lemma length_encode [simp]: "length (encode f) = HEADER_LEN + length (f_payload f)"
  by (simp add: encode_def encode_into_def net_consts)

lemma encode_into_append: "encode_into f buf = buf @ encode f"
  by (simp add: encode_def encode_into_def)

lemma MAX_PAYLOAD_unat: "unat MAX_PAYLOAD = 4194304"
  by (simp add: MAX_PAYLOAD_def)

subsection \<open>The header of an encoded frame\<close>

definition header :: "frame \<Rightarrow> bytes" where
  "header f = take HEADER_LEN (encode f)"

lemma encode_cons:
  "encode f = [0x4D, 0x54, 1, ptype_u8 (f_ptype f)] @ be_bytes (f_msg_id f) @ be_bytes (f_seq f)
     @ be_bytes (word_of_nat (length (f_payload f))) @ f_payload f"
  by (simp add: encode_def encode_into_def net_consts)

lemma be_bytes_from_be_bytes [simp]: "be_bytes (from_be_bytes a b c d) = [a, b, c, d]"
proof -
  have "ucast (drop_bit 24 (from_be_bytes a b c d)) = a"
    "ucast (drop_bit 16 (from_be_bytes a b c d)) = b"
    "ucast (drop_bit 8 (from_be_bytes a b c d)) = c"
    "ucast (from_be_bytes a b c d) = d"
    by (rule bit_word_eqI, auto simp: from_be_bytes_def bit_simps dest: bit_imp_le_length)+
  then show ?thesis by (simp add: be_bytes_def)
qed

lemma decode_header:
  "decode ([0x4D, 0x54, 1, ptype_u8 p] @ be_bytes m @ be_bytes s @ be_bytes n @ body) =
     (if MAX_PAYLOAD < n
      then (Inl (TooLarge n), [0x4D, 0x54, 1, ptype_u8 p] @ be_bytes m @ be_bytes s @ be_bytes n @ body)
      else if length body < unat n
      then (Inr None, [0x4D, 0x54, 1, ptype_u8 p] @ be_bytes m @ be_bytes s @ be_bytes n @ body)
      else (Inr (Some \<lparr>f_ptype = p, f_msg_id = m, f_seq = s, f_payload = take (unat n) body\<rparr>),
            drop (unat n) body))"
proof -
  have d: "drop (16 + k) xs = drop k (drop 16 xs)" for k :: nat and xs :: bytes
    by (simp add: add.commute)
  show ?thesis
    by (simp add: decode_def net_consts be_bytes_def from_be_bytes_be_bytes d del: drop_drop)
qed

lemma long_has_header:
  assumes "HEADER_LEN \<le> length src"
  obtains b0 b1 b2 b3 m s n body where
    "src = [b0, b1, b2, b3] @ be_bytes m @ be_bytes s @ be_bytes n @ body"
proof -
  let ?w = "\<lambda>i. from_be_bytes (src ! i) (src ! Suc i) (src ! (i + 2)) (src ! (i + 3))"
  have "take 16 src = map (\<lambda>i. src ! i) [0..<16]"
    using assms by (simp add: net_consts list_eq_iff_nth_eq)
  also have "\<dots> = [src ! 0, src ! 1, src ! 2, src ! 3] @ be_bytes (?w 4) @ be_bytes (?w 8)
      @ be_bytes (?w 12)"
    by (simp add: upt_rec eval_nat_numeral)
  finally have "src = [src ! 0, src ! 1, src ! 2, src ! 3] @ be_bytes (?w 4) @ be_bytes (?w 8)
      @ be_bytes (?w 12) @ drop 16 src"
    by (metis append.assoc append_take_drop_id)
  then show thesis by (rule that)
qed

lemma decode_encode:
  assumes "length (f_payload f) \<le> unat MAX_PAYLOAD"
  shows "decode (encode f @ rest) = (Inr (Some f), rest)"
proof -
  have "unat (word_of_nat (length (f_payload f)) :: u32) = length (f_payload f)"
    using assms by (intro unat_word_of_nat) (simp add: MAX_PAYLOAD_unat)
  then show ?thesis
    using assms by (simp add: encode_cons decode_header [simplified] word_less_nat_alt MAX_PAYLOAD_unat)
qed

lemma decode_sound:
  assumes dec: "decode src = (Inr (Some f), rest)"
  shows "src = encode f @ rest" and "length (f_payload f) \<le> unat MAX_PAYLOAD"
proof -
  from dec have "HEADER_LEN \<le> length src"
    by (auto simp: decode_def split: if_splits)
  then obtain b0 b1 b2 b3 m s n body where
    src: "src = [b0, b1, b2, b3] @ be_bytes m @ be_bytes s @ be_bytes n @ body"
    by (rule long_has_header)
  from dec obtain p where "b0 = 0x4D" "b1 = 0x54" "b2 = 1" "b3 = ptype_u8 p"
    by (auto simp: src decode_def net_consts Let_def ptype_from_Some split: if_splits option.splits)
  with dec src show "src = encode f @ rest" and "length (f_payload f) \<le> unat MAX_PAYLOAD"
    by (auto simp: decode_header [simplified] encode_cons not_less word_le_nat_alt
          MAX_PAYLOAD_unat split: if_splits)
qed

text \<open>
  C5: \<open>decode\<close> reads a frame off the front of the buffer exactly when the buffer starts
  with the encoding of that frame and its payload is within the limit; the rest of the
  buffer is then what follows the encoding.  So encoding and decoding are inverse, and a
  frame has only one encoding.
\<close>

theorem decode_iff_encode:
  "decode src = (Inr (Some f), rest) \<longleftrightarrow>
   src = encode f @ rest \<and> length (f_payload f) \<le> unat MAX_PAYLOAD"
  by (auto dest: decode_sound intro: decode_encode)

subsection \<open>Incomplete and refused frames\<close>

lemma header_inject:
  "[a0, a1, a2, a3] @ be_bytes m @ be_bytes s @ be_bytes n @ xs
     = [b0, b1, b2, b3] @ be_bytes m' @ be_bytes s' @ be_bytes n' @ ys \<longleftrightarrow>
   a0 = b0 \<and> a1 = b1 \<and> a2 = b2 \<and> a3 = b3 \<and> m = m' \<and> s = s' \<and> n = n' \<and> xs = ys"
  by simp

text \<open>
  What \<open>decode\<close> does to a buffer that starts like a frame but ends early: nothing, it asks
  for more bytes and leaves the buffer as it is.
\<close>

lemma decode_prefix:
  assumes "length (f_payload f) \<le> unat MAX_PAYLOAD" and "strict_prefix p (encode f)"
  shows "decode p = (Inr None, p)"
proof -
  obtain z where z: "encode f = p @ z" "z \<noteq> []"
    using assms(2) by (auto simp: strict_prefix_def prefix_def)
  show ?thesis
  proof (cases "HEADER_LEN \<le> length p")
    case False
    then show ?thesis by (simp add: decode_def)
  next
    case True
    then obtain b0 b1 b2 b3 m s n body where
      p: "p = [b0, b1, b2, b3] @ be_bytes m @ be_bytes s @ be_bytes n @ body"
      by (rule long_has_header)
    have u: "unat (word_of_nat (length (f_payload f)) :: u32) = length (f_payload f)"
      using assms(1) by (intro unat_word_of_nat) (simp add: MAX_PAYLOAD_unat)
    from z(1) have "[0x4D, 0x54, 1, ptype_u8 (f_ptype f)] @ be_bytes (f_msg_id f) @ be_bytes (f_seq f)
        @ be_bytes (word_of_nat (length (f_payload f))) @ f_payload f
      = [b0, b1, b2, b3] @ be_bytes m @ be_bytes s @ be_bytes n @ (body @ z)"
      unfolding encode_cons p by (simp only: append_assoc)
    then have "b0 = 0x4D" "b1 = 0x54" "b2 = 1" "b3 = ptype_u8 (f_ptype f)"
        "n = word_of_nat (length (f_payload f))" "f_payload f = body @ z"
      unfolding header_inject by blast+
    with z(2) assms(1) u show ?thesis
      by (simp add: p decode_header [simplified] word_less_nat_alt MAX_PAYLOAD_unat)
  qed
qed

text \<open>
  The encoder does not check the payload limit that the decoder enforces.  A frame
  whose payload is over the limit (but whose length still fits in 32 bits) is encoded, and
  the receiving side answers with \<open>TooLarge\<close> whatever follows, so the stream is dead.
\<close>

lemma oversized_frame_refused:
  assumes "unat MAX_PAYLOAD < length (f_payload f)" and "length (f_payload f) < 2 ^ 32"
  shows "decode (encode f @ rest) = (Inl (TooLarge (word_of_nat (length (f_payload f)))), encode f @ rest)"
proof -
  have "unat (word_of_nat (length (f_payload f)) :: u32) = length (f_payload f)"
    using assms(2) by (intro unat_word_of_nat) simp
  with assms(1) show ?thesis
    by (simp add: encode_cons decode_header [simplified] word_less_nat_alt)
qed

lemma oversized_frame_refused_witness:
  "\<exists>f. decode (encode f @ [1]) = (Inl (TooLarge 4194305), encode f @ [1])"
proof -
  let ?f = "\<lparr>f_ptype = Request, f_msg_id = 1, f_seq = 1, f_payload = replicate 4194305 0\<rparr> :: frame"
  have "unat MAX_PAYLOAD < length (f_payload ?f)" "length (f_payload ?f) < 2 ^ 32"
    by (simp_all add: MAX_PAYLOAD_unat)
  from oversized_frame_refused [OF this, of "[1]"] show ?thesis by (intro exI [of _ ?f]) simp
qed

section \<open>Reading a stream\<close>

text \<open>
  \<open>FramedRead\<close> of the library \<open>tokio_util\<close> drives a decoder: it calls \<open>decode\<close> until it
  answers \<open>Ok(None)\<close>, hands out every frame on the way, and appends the next bytes of the
  transport to what is left in the buffer; an error ends the stream.  \<open>drain\<close> is the inner
  loop over one buffer (it also stops should a decoder not consume anything) and \<open>feed\<close>
  processes the chunks in the order the transport delivers them.
\<close>

function drain :: "(bytes \<Rightarrow> ('e + 'm option) \<times> bytes) \<Rightarrow> bytes \<Rightarrow> 'm list \<times> 'e option \<times> bytes" where
  "drain dec buf =
     (case dec buf of
        (Inl e, rest) \<Rightarrow> ([], Some e, rest)
      | (Inr None, rest) \<Rightarrow> ([], None, rest)
      | (Inr (Some m), rest) \<Rightarrow>
          (if length rest < length buf
           then case drain dec rest of (ms, e, rest') \<Rightarrow> (m # ms, e, rest')
           else ([m], None, rest)))"
  by pat_completeness auto
termination
  by (relation "measure (\<lambda>(dec, buf). length buf)") auto

declare drain.simps [simp del]

fun feed :: "(bytes \<Rightarrow> ('e + 'm option) \<times> bytes) \<Rightarrow> bytes \<Rightarrow> bytes list \<Rightarrow> 'm list \<times> 'e option \<times> bytes" where
  "feed dec buf [] = ([], None, buf)"
| "feed dec buf (c # cs) =
     (case drain dec (buf @ c) of
        (ms, Some e, rest) \<Rightarrow> (ms, Some e, rest)
      | (ms, None, rest) \<Rightarrow>
          (case feed dec rest cs of (ms', e, rest') \<Rightarrow> (ms @ ms', e, rest')))"

text \<open>
  The contract between an encoder and a decoder that makes reading independent of the
  chunks: a whole message is read off the front, a proper prefix of one is left alone.
\<close>

locale stream_codec =
  fixes enc :: "'m \<Rightarrow> bytes"
    and dec :: "bytes \<Rightarrow> ('e + 'm option) \<times> bytes"
    and ok :: "'m \<Rightarrow> bool"
  assumes dec_enc: "ok m \<Longrightarrow> dec (enc m @ rest) = (Inr (Some m), rest)"
    and dec_prefix: "ok m \<Longrightarrow> strict_prefix p (enc m) \<Longrightarrow> dec p = (Inr None, p)"
    and enc_nonempty: "ok m \<Longrightarrow> enc m \<noteq> []"
    and dec_nil: "dec [] = (Inr None, [])"
begin

definition all_enc :: "'m list \<Rightarrow> bytes" where
  "all_enc ms = concat (map enc ms)"

lemma all_enc_simps [simp]: "all_enc [] = []" "all_enc (m # ms) = enc m @ all_enc ms"
  by (simp_all add: all_enc_def)

lemma drain_message:
  "ok m \<Longrightarrow> drain dec (enc m @ rest) = (case drain dec rest of (ms, e, r) \<Rightarrow> (m # ms, e, r))"
  by (simp add: drain.simps [of dec "enc m @ rest"] dec_enc enc_nonempty)

lemma drain_prefix:
  assumes "\<forall>m\<in>set ms. ok m" and "prefix buf (all_enc ms)"
  shows "\<exists>ms1 ms2 rest. ms = ms1 @ ms2 \<and> buf = all_enc ms1 @ rest \<and> prefix rest (all_enc ms2)
     \<and> drain dec buf = (ms1, None, rest) \<and> (ms2 \<noteq> [] \<longrightarrow> strict_prefix rest (enc (hd ms2)))
     \<and> (ms2 = [] \<longrightarrow> rest = [])"
  using assms
proof (induction ms arbitrary: buf)
  case Nil
  then show ?case by (simp add: drain.simps [of dec "[]"] dec_nil)
next
  case (Cons m ms)
  show ?case
  proof (cases "strict_prefix buf (enc m)")
    case True
    with Cons.prems have "drain dec buf = ([], None, buf)"
      by (simp add: drain.simps [of dec buf] dec_prefix [OF _ True])
    with True Cons.prems show ?thesis
      by (intro exI [of _ "[]"] exI [of _ "m # ms"] exI [of _ buf]) simp
  next
    case False
    then obtain b where b: "buf = enc m @ b" "prefix b (all_enc ms)"
      using Cons.prems(2) by (auto simp: prefix_append strict_prefix_def)
    from Cons.IH [OF _ b(2)] Cons.prems(1) obtain ms1 ms2 rest where
      "ms = ms1 @ ms2" "b = all_enc ms1 @ rest" "prefix rest (all_enc ms2)"
      "drain dec b = (ms1, None, rest)" "ms2 \<noteq> [] \<longrightarrow> strict_prefix rest (enc (hd ms2))"
      "ms2 = [] \<longrightarrow> rest = []"
      by auto
    with b Cons.prems(1) show ?thesis
      by (intro exI [of _ "m # ms1"] exI [of _ ms2] exI [of _ rest]) (simp add: drain_message)
  qed
qed

lemma feed_all:
  assumes "\<forall>m\<in>set ms. ok m" and "buf @ concat chunks = all_enc ms"
    and "chunks = [] \<Longrightarrow> buf = []"
  shows "feed dec buf chunks = (ms, None, [])"
  using assms
proof (induction chunks arbitrary: buf ms)
  case Nil
  then show ?case by (cases ms) (auto dest: enc_nonempty)
next
  case (Cons c cs)
  have "prefix (buf @ c) (all_enc ms)"
    by (rule prefixI [of _ _ "concat cs"]) (use Cons.prems(2) in simp)
  from drain_prefix [OF Cons.prems(1) this] obtain ms1 ms2 rest where
    d: "ms = ms1 @ ms2" "buf @ c = all_enc ms1 @ rest" "drain dec (buf @ c) = (ms1, None, rest)"
       "ms2 \<noteq> [] \<longrightarrow> strict_prefix rest (enc (hd ms2))" "ms2 = [] \<longrightarrow> rest = []"
    by blast
  have cat: "all_enc (xs @ ys) = all_enc xs @ all_enc ys" for xs ys
    by (simp add: all_enc_def)
  from Cons.prems(2) d(1,2) have rest: "rest @ concat cs = all_enc ms2"
    by (metis append.assoc cat concat.simps(2) same_append_eq)
  have "feed dec rest cs = (ms2, None, [])"
  proof (rule Cons.IH [OF _ rest])
    show "\<forall>m\<in>set ms2. ok m" using Cons.prems(1) d(1) by simp
    assume "cs = []"
    with rest have r: "rest = all_enc ms2" by simp
    show "rest = []"
    proof (cases ms2)
      case (Cons m ms')
      with r d(4) show ?thesis by (simp add: strict_prefix_def prefix_def)
    qed (use r in simp)
  qed
  with d show ?case by simp
qed

end

interpretation tcp: stream_codec encode decode "\<lambda>f. length (f_payload f) \<le> unat MAX_PAYLOAD"
proof unfold_locales
  fix f :: frame and rest
  assume "length (f_payload f) \<le> unat MAX_PAYLOAD"
  then show "decode (encode f @ rest) = (Inr (Some f), rest)"
    by (rule decode_encode)
next
  fix f :: frame
  show "encode f \<noteq> []" by (simp add: encode_cons)
next
  show "decode [] = (Inr None, [])" by (simp add: decode_def net_consts)
qed (rule decode_prefix)

text \<open>
  C4: however the transport cuts the byte stream into chunks, the reader of the TCP
  codec delivers exactly the frames that were encoded into it, in order, with no error and
  an empty buffer at the end (no loss, no duplicate, no frame glued to another).
\<close>

theorem tcp_stream_chunking:
  assumes "\<forall>f\<in>set fs. length (f_payload f) \<le> unat MAX_PAYLOAD"
    and "concat chunks = concat (map encode fs)"
  shows "feed decode [] chunks = (fs, None, [])"
  using tcp.feed_all [of fs "[]" chunks] assms by (simp add: tcp.all_enc_def)

theorem tcp_stream_chunking_witness:
  "\<exists>f g. feed decode [] [take 5 (encode f), drop 5 (encode f) @ encode g] = ([f, g], None, [])"
proof -
  let ?f = "\<lparr>f_ptype = Heartbeat, f_msg_id = 0, f_seq = 0, f_payload = []\<rparr> :: frame"
  let ?g = "\<lparr>f_ptype = Request, f_msg_id = 1, f_seq = 2, f_payload = [7, 8]\<rparr> :: frame"
  have "\<forall>f\<in>set [?f, ?g]. length (f_payload f) \<le> unat MAX_PAYLOAD"
    by (simp add: MAX_PAYLOAD_unat)
  moreover have "concat [take 5 (encode ?f), drop 5 (encode ?f) @ encode ?g]
      = concat (map encode [?f, ?g])"
    by simp
  ultimately have "feed decode [] [take 5 (encode ?f), drop 5 (encode ?f) @ encode ?g]
      = ([?f, ?g], None, [])"
    by (rule tcp_stream_chunking)
  then show ?thesis by blast
qed

section \<open>UDP datagrams\<close>

definition udp_MAGIC :: bytes where "udp_MAGIC = [0x4D, 0x55]"
definition udp_HEADER_LEN :: nat where "udp_HEADER_LEN = 10"
definition MAX_DATAGRAM :: nat where "MAX_DATAGRAM = 2048"

lemmas udp_consts = udp_MAGIC_def udp_HEADER_LEN_def MAX_DATAGRAM_def

definition peer_packet :: "u32 \<Rightarrow> u32 \<Rightarrow> bytes \<Rightarrow> bytes" where
  "peer_packet conn_id msg_id payload = udp_MAGIC @ be_bytes conn_id @ be_bytes msg_id @ payload"

definition parse_peer_packet :: "bytes \<Rightarrow> (u32 \<times> u32 \<times> bytes) option" where
  "parse_peer_packet d =
     (if length d < udp_HEADER_LEN \<or> take 2 d \<noteq> udp_MAGIC then None
      else Some (from_be_bytes (d ! 2) (d ! 3) (d ! 4) (d ! 5),
                 from_be_bytes (d ! 6) (d ! 7) (d ! 8) (d ! 9),
                 drop udp_HEADER_LEN d))"

definition push_datagram :: "u32 \<Rightarrow> u32 \<Rightarrow> bytes \<Rightarrow> bytes" where
  "push_datagram msg_id seq payload = udp_MAGIC @ be_bytes msg_id @ be_bytes seq @ payload"

definition parse_push_datagram :: "bytes \<Rightarrow> (u32 \<times> u32 \<times> bytes) option" where
  "parse_push_datagram d =
     (if length d < udp_HEADER_LEN \<or> take 2 d \<noteq> udp_MAGIC then None
      else Some (from_be_bytes (d ! 2) (d ! 3) (d ! 4) (d ! 5),
                 from_be_bytes (d ! 6) (d ! 7) (d ! 8) (d ! 9),
                 drop udp_HEADER_LEN d))"

lemma parse_peer_peer: "parse_peer_packet (peer_packet c m p) = Some (c, m, p)"
  by (simp add: parse_peer_packet_def peer_packet_def udp_consts be_bytes_def from_be_bytes_be_bytes)

lemma peer_packet_parse:
  assumes "parse_peer_packet d = Some (c, m, p)"
  shows "d = peer_packet c m p"
proof -
  from assms have len: "10 \<le> length d" and mg: "take 2 d = [0x4D, 0x55]"
    by (auto simp: parse_peer_packet_def udp_consts not_less split: if_splits)
  have "take 10 d = map (\<lambda>i. d ! i) [0..<10]" "take 2 d = map (\<lambda>i. d ! i) [0..<2]"
    using len by (simp_all add: list_eq_iff_nth_eq)
  with mg have "take 10 d = [0x4D, 0x55, d ! 2, d ! 3, d ! 4, d ! 5, d ! 6, d ! 7, d ! 8, d ! 9]"
    by (simp add: upt_rec eval_nat_numeral)
  then have "d = [0x4D, 0x55, d ! 2, d ! 3, d ! 4, d ! 5, d ! 6, d ! 7, d ! 8, d ! 9] @ drop 10 d"
    by (metis append_take_drop_id)
  with assms show ?thesis
    by (auto simp: parse_peer_packet_def peer_packet_def udp_consts split: if_splits)
qed

lemma push_datagram_peer: "push_datagram m s p = peer_packet m s p"
  by (simp add: push_datagram_def peer_packet_def)

lemma parse_push_peer: "parse_push_datagram d = parse_peer_packet d"
  by (simp add: parse_push_datagram_def parse_peer_packet_def)

text \<open>
  a datagram parses to the fields of a peer packet exactly when it is that packet, and
  the same for a push datagram, so both formats round-trip with any payload and nothing
  else is accepted.
\<close>

lemma udp_parse_iff:
  "(parse_peer_packet d = Some (c, m, p) \<longleftrightarrow> d = peer_packet c m p) \<and>
   (parse_push_datagram d = Some (c, m, p) \<longleftrightarrow> d = push_datagram c m p)"
  by (auto simp: parse_push_peer push_datagram_peer parse_peer_peer dest: peer_packet_parse)

end
