(* ===== verification/Room.thy ===== *)
theory Room
  imports SvcFw
begin

text \<open>
  The crate \<open>grimoire-room-svc\<close>: the lobby with its rooms.

  \<^item> \<open>rplayer\<close>, \<open>room\<close>, \<open>room_app\<close> are the code's \<open>Player\<close>, \<open>Room\<close>, \<open>App\<close>; the operations
    of \<open>impl App\<close> follow in the code's order, then the dispatch and the connection events.
  \<^item> The profile store is the argument of the operations that ask it (\<open>profiles\<close>).
  \<^item> \<open>room_sys\<close> adds the clock and the sleeping clean-up tasks that a disconnect spawns;
    \<open>room_step\<close> is one step of the whole: a request, a connection event, time passing, or a
    task waking up.
\<close>

section \<open>State\<close>

definition GRACE_SECS :: nat where "GRACE_SECS = 15"

record rplayer =
  rp_conn_id :: u32
  rp_player_id :: u32
  rp_name :: string
  rp_room_id :: u32      \<comment> \<open>0: in no room\<close>
  rp_online :: bool

record room =
  rm_id :: u32
  rm_name :: string
  rm_capacity :: u32
  rm_members :: "rplayer list"

record room_app =
  ra_players :: "u32 \<rightharpoonup> rplayer"
  ra_rooms :: "u32 \<rightharpoonup> room"
  ra_next_player :: u32
  ra_next_room :: u32
  ra_pending :: "u32 \<rightharpoonup> u64"
  ra_store :: bool
  ra_session_dir :: bool
  ra_node_id :: string

definition room_new :: "bool \<Rightarrow> bool \<Rightarrow> string \<Rightarrow> room_app" where
  "room_new store session_dir node_id =
     \<lparr>ra_players = Map.empty, ra_rooms = Map.empty, ra_next_player = 1, ra_next_room = 1,
      ra_pending = Map.empty, ra_store = store, ra_session_dir = session_dir, ra_node_id = node_id\<rparr>"

record room_info =
  ri_room_id :: u32
  ri_name :: string
  ri_capacity :: u32
  ri_members :: "(u32 \<times> string) list"

definition info :: "room \<Rightarrow> room_info" where
  "info r = \<lparr>ri_room_id = rm_id r, ri_name = rm_name r, ri_capacity = rm_capacity r,
             ri_members = map (\<lambda>m. (rp_player_id m, rp_name m)) (rm_members r)\<rparr>"

datatype room_resp =
    RoomLoginResp u32 string int int
  | RoomCreateResp u32
  | RoomJoinResp "room_info option"
  | RoomLeaveResp
  | RoomListResp "room_info list"
  | RoomChatResp

datatype room_push =
    RoomStatePush string u32 "room_info option"
  | RoomChatPush u32 u32 string string

type_synonym 'r room_handled = "('r, room_app, room_push) handled"

text \<open>What the profile store answers: \<open>load\<close>, and \<open>create\<close> with its error; (games, wins).\<close>

type_synonym profiles = "(int \<Rightarrow> (int \<times> int) option) \<times> (int \<Rightarrow> string + int \<times> int)"

section \<open>Operations\<close>

definition stats_of :: "room_app \<Rightarrow> profiles \<Rightarrow> int \<Rightarrow> (int \<times> int) \<times> room_push effect list" where
  "stats_of app pr player_id =
     (if \<not> ra_store app then ((0, 0), [])
      else (case fst pr player_id of
              Some gw \<Rightarrow> (gw, [])
            | None \<Rightarrow> (case snd pr player_id of Inr gw \<Rightarrow> gw | Inl _ \<Rightarrow> (0, 0),
                       [CreateProfile player_id ''grimoire''])))"

text \<open>The online flag of the player and of the first member with this connection.\<close>

fun set_member_online :: "u32 \<Rightarrow> bool \<Rightarrow> rplayer list \<Rightarrow> rplayer list" where
  "set_member_online conn_id b [] = []"
| "set_member_online conn_id b (m # ms) =
     (if rp_conn_id m = conn_id then m\<lparr>rp_online := b\<rparr> # ms else m # set_member_online conn_id b ms)"

definition set_online :: "room_app \<Rightarrow> u32 \<Rightarrow> bool \<Rightarrow> room_app" where
  "set_online app conn_id b =
     (case ra_players app conn_id of
        None \<Rightarrow> app
      | Some p \<Rightarrow>
          let app1 = app\<lparr>ra_players := (ra_players app)(conn_id \<mapsto> p\<lparr>rp_online := b\<rparr>)\<rparr>
          in case ra_rooms app1 (rp_room_id p) of
               None \<Rightarrow> app1
             | Some r \<Rightarrow> app1\<lparr>ra_rooms := (ra_rooms app1)(rp_room_id p \<mapsto>
                           r\<lparr>rm_members := set_member_online conn_id b (rm_members r)\<rparr>)\<rparr>)"

definition cancel_removal :: "room_app \<Rightarrow> u32 \<Rightarrow> room_app" where
  "cancel_removal app conn_id = app\<lparr>ra_pending := (ra_pending app)(conn_id := None)\<rparr>"

definition room_login :: "room_app \<Rightarrow> profiles \<Rightarrow> u32 \<Rightarrow> string \<Rightarrow> room_resp room_handled" where
  "room_login app pr conn_id name =
     (case ra_players app conn_id of
        Some p \<Rightarrow>
          let app1 = set_online (cancel_removal app conn_id) conn_id True
          in (case stats_of app1 pr (uint (rp_player_id p)) of ((games, wins), es) \<Rightarrow>
               (Inr (RoomLoginResp (rp_player_id p) (rp_name p) games wins), app1, es))
      | None \<Rightarrow>
          let player_id = ra_next_player app;
              app1 = app\<lparr>ra_next_player := player_id + 1,
                         ra_players := (ra_players app)(conn_id \<mapsto>
                           \<lparr>rp_conn_id = conn_id, rp_player_id = player_id, rp_name = name,
                            rp_room_id = 0, rp_online = True\<rparr>)\<rparr>
          in (case stats_of app1 pr (uint player_id) of ((games, wins), es) \<Rightarrow>
               (Inr (RoomLoginResp player_id name games wins), app1, es)))"

text \<open>The new generation is what the spawned clean-up task carries.\<close>

definition mark_disconnected :: "room_app \<Rightarrow> u32 \<Rightarrow> room_app \<times> u64" where
  "mark_disconnected app conn_id =
     (let app1 = set_online app conn_id False;
          gen = (case ra_pending app1 conn_id of Some g \<Rightarrow> g | None \<Rightarrow> 0) + 1
      in (app1\<lparr>ra_pending := (ra_pending app1)(conn_id \<mapsto> gen)\<rparr>, gen))"

definition expire_session :: "room_app \<Rightarrow> u32 \<Rightarrow> u64 \<Rightarrow> unit room_handled" where
  "expire_session app conn_id gen =
     (if ra_pending app conn_id \<noteq> Some gen then (Inr (), app, [])
      else (let app1 = cancel_removal app conn_id
            in case ra_players app1 conn_id of
                 None \<Rightarrow> (Inr (), app1, [])
               | Some p \<Rightarrow>
                   let app2 = app1\<lparr>ra_players := (ra_players app1)(conn_id := None)\<rparr>
                   in case ra_rooms app1 (rp_room_id p) of
                        None \<Rightarrow> (Inr (), app2, [])
                      | Some r \<Rightarrow>
                          let ms = filter (\<lambda>m. rp_player_id m \<noteq> rp_player_id p) (rm_members r)
                          in if ms = []
                             then (Inr (), app2\<lparr>ra_rooms := (ra_rooms app1)(rp_room_id p := None)\<rparr>,
                                   if ra_session_dir app then [DirRemove DOMAIN_ROOM (rp_room_id p)] else [])
                             else (Inr (), app2\<lparr>ra_rooms := (ra_rooms app1)(rp_room_id p \<mapsto>
                                     r\<lparr>rm_members := ms\<rparr>)\<rparr>, [])))"

text \<open>\<open>players.get_mut(&conn_id).unwrap().room_id = ..\<close>\<close>

definition set_room_id :: "room_app \<Rightarrow> u32 \<Rightarrow> u32 \<Rightarrow> room_app outcome" where
  "set_room_id app conn_id room_id =
     (case ra_players app conn_id of
        None \<Rightarrow> Inl UnwrapNone
      | Some p \<Rightarrow> Inr (app\<lparr>ra_players := (ra_players app)(conn_id \<mapsto> p\<lparr>rp_room_id := room_id\<rparr>)\<rparr>))"

definition default_room_name :: "u32 \<Rightarrow> string" where
  "default_room_name room_id = utf8 [0xE6, 0x88, 0xBF, 0xE9, 0x97, 0xB4] @ fmt_u32 room_id"

definition clamp_capacity :: "u32 \<Rightarrow> u32" where
  "clamp_capacity capacity = (if capacity < 2 then 2 else if 64 < capacity then 64 else capacity)"

definition room_bind :: "room_app \<Rightarrow> u32 \<Rightarrow> room_push effect list" where
  "room_bind app room_id =
     (if ra_session_dir app then [DirBind DOMAIN_ROOM room_id (ra_node_id app)] else [])"

definition create_room :: "room_app \<Rightarrow> u32 \<Rightarrow> string \<Rightarrow> u32 \<Rightarrow> room_resp option room_handled" where
  "create_room app conn_id name capacity =
     (case ra_players app conn_id of
        None \<Rightarrow> (Inr None, app, [])
      | Some p \<Rightarrow>
          if rp_room_id p \<noteq> 0 then (Inr None, app, [])
          else (let room_id = ra_next_room app;
                    r = \<lparr>rm_id = room_id,
                         rm_name = (if name = [] then default_room_name room_id else name),
                         rm_capacity = clamp_capacity capacity, rm_members = [p]\<rparr>;
                    app1 = app\<lparr>ra_next_room := room_id + 1,
                               ra_rooms := (ra_rooms app)(room_id \<mapsto> r)\<rparr>
                in case set_room_id app1 conn_id room_id of
                     Inl e \<Rightarrow> (Inl e, app1, [])
                   | Inr app2 \<Rightarrow> (Inr (Some (RoomCreateResp room_id)), app2, room_bind app2 room_id)))"

definition join_room :: "room_app \<Rightarrow> u32 \<Rightarrow> u32 \<Rightarrow> room_resp option room_handled" where
  "join_room app conn_id room_id =
     (case ra_players app conn_id of
        None \<Rightarrow> (Inr None, app, [])
      | Some p \<Rightarrow>
          (case ra_rooms app room_id of
             None \<Rightarrow> (Inr None, app, [])
           | Some r \<Rightarrow>
               if rp_room_id p = room_id then (Inr (Some (RoomJoinResp (Some (info r)))), app, [])
               else if unat (rm_capacity r) \<le> length (rm_members r) then (Inr None, app, [])
               else (let r' = r\<lparr>rm_members := rm_members r @ [p]\<rparr>;
                         app1 = app\<lparr>ra_rooms := (ra_rooms app)(room_id \<mapsto> r')\<rparr>
                     in case set_room_id app1 conn_id room_id of
                          Inl e \<Rightarrow> (Inl e, app1, [])
                        | Inr app2 \<Rightarrow>
                            (Inr (Some (RoomJoinResp (Some (info r')))), app2, room_bind app2 room_id))))"

definition leave_room :: "room_app \<Rightarrow> u32 \<Rightarrow> bool room_handled" where
  "leave_room app conn_id =
     (case ra_players app conn_id of
        None \<Rightarrow> (Inr False, app, [])
      | Some p \<Rightarrow>
          (case ra_rooms app (rp_room_id p) of
             None \<Rightarrow> (Inr False, app, [])
           | Some r \<Rightarrow>
               let ms = filter (\<lambda>m. rp_player_id m \<noteq> rp_player_id p) (rm_members r);
                   app1 = app\<lparr>ra_rooms := (ra_rooms app)(rp_room_id p \<mapsto> r\<lparr>rm_members := ms\<rparr>)\<rparr>
               in case set_room_id app1 conn_id 0 of
                    Inl e \<Rightarrow> (Inl e, app1, [])
                  | Inr app2 \<Rightarrow>
                      if ms = []
                      then (Inr True, app2\<lparr>ra_rooms := (ra_rooms app2)(rp_room_id p := None)\<rparr>,
                            if ra_session_dir app then [DirRemove DOMAIN_ROOM (rp_room_id p)] else [])
                      else (Inr True, app2, [])))"

definition list_rooms :: "room_app \<Rightarrow> u32 list \<Rightarrow> room_resp" where
  "list_rooms app it = RoomListResp (map (\<lambda>(k, r). info r) (entries it (ra_rooms app)))"

definition broadcast :: "room \<Rightarrow> string \<Rightarrow> u32 \<Rightarrow> room_push effect list" where
  "broadcast r event actor_id =
     map (\<lambda>m. PushTcp (rp_conn_id m) ROOM_STATE_PUSH (RoomStatePush event actor_id (Some (info r))))
         (rm_members r)"

definition broadcast_to :: "room_app \<Rightarrow> u32 \<Rightarrow> string \<Rightarrow> u32 \<Rightarrow> room_push effect list" where
  "broadcast_to app room_id event actor_id =
     (case ra_rooms app room_id of Some r \<Rightarrow> broadcast r event actor_id | None \<Rightarrow> [])"

definition room_chat :: "room_app \<Rightarrow> u32 \<Rightarrow> string \<Rightarrow> room_resp room_handled" where
  "room_chat app conn_id txt =
     (Inr RoomChatResp, app,
      case ra_players app conn_id of
        None \<Rightarrow> []
      | Some p \<Rightarrow>
          (case ra_rooms app (rp_room_id p) of
             None \<Rightarrow> []
           | Some r \<Rightarrow> map (\<lambda>m. PushTcp (rp_conn_id m) ROOM_CHAT_PUSH
                            (RoomChatPush (rm_id r) (rp_player_id p) (rp_name p) txt))
                          (rm_members r)))"

section \<open>Dispatch\<close>

record room_codec =
  rc_dec_login :: "bytes \<Rightarrow> string + string"
  rc_dec_create :: "bytes \<Rightarrow> string + string \<times> u32"
  rc_dec_join :: "bytes \<Rightarrow> string + u32"
  rc_dec_chat :: "bytes \<Rightarrow> string + string"
  rc_enc :: "room_resp \<Rightarrow> bytes"

definition msg_in_room :: string where
  "msg_in_room = utf8 [0xE5, 0xB7, 0xB2, 0xE5, 0x9C, 0xA8, 0xE6, 0x88, 0xBF, 0xE9, 0x97, 0xB4,
     0xE4, 0xB8, 0xAD]"
definition msg_no_room :: string where
  "msg_no_room = utf8 [0xE6, 0x88, 0xBF, 0xE9, 0x97, 0xB4, 0xE4, 0xB8, 0x8D, 0xE5, 0xAD, 0x98,
     0xE5, 0x9C, 0xA8, 0xE6, 0x88, 0x96, 0xE5, 0xB7, 0xB2, 0xE6, 0xBB, 0xA1]"

text \<open>An answer that may be absent: then the error text.\<close>

definition answering :: "forward_request \<Rightarrow> ('r \<Rightarrow> bytes) \<Rightarrow> string \<Rightarrow> ('r option, 's, 'p) handled \<Rightarrow>
    (forward_reply, 's, 'p) handled" where
  "answering req enc txt h =
     (case h of (r, s, es) \<Rightarrow>
        (map_sum id (\<lambda>v. case v of Some x \<Rightarrow> reply_ok req (enc x) | None \<Rightarrow> reply_err req txt) r, s, es))"

text \<open>A join and its broadcast.\<close>

definition join_and_tell :: "room_app \<Rightarrow> u32 \<Rightarrow> u32 \<Rightarrow> room_resp option room_handled" where
  "join_and_tell app conn_id room_id =
     (case join_room app conn_id room_id of
        (Inr (Some r), app', es) \<Rightarrow>
          (Inr (Some r), app', es @ broadcast_to app' room_id ''join'' conn_id)
      | h \<Rightarrow> h)"

type_synonym room_env = "u32 list \<times> profiles"

definition room_process :: "room_codec \<Rightarrow> room_env \<Rightarrow> room_app \<Rightarrow> forward_request \<Rightarrow>
    forward_reply room_handled" where
  "room_process c env app req =
     (if fq_msg_id req = ROOM_LOGIN then
        (case rc_dec_login c (fq_payload req) of
           Inr name \<Rightarrow> replying req (rc_enc c) (room_login app (snd env) (fq_conn_id req) name)
         | Inl e \<Rightarrow> refusing req (bad_payload e) app)
      else if fq_msg_id req = ROOM_CREATE then
        (case rc_dec_create c (fq_payload req) of
           Inr (name, capacity) \<Rightarrow>
             answering req (rc_enc c) msg_in_room (create_room app (fq_conn_id req) name capacity)
         | Inl e \<Rightarrow> refusing req (bad_payload e) app)
      else if fq_msg_id req = ROOM_JOIN then
        (case rc_dec_join c (fq_payload req) of
           Inr room_id \<Rightarrow> answering req (rc_enc c) msg_no_room (join_and_tell app (fq_conn_id req) room_id)
         | Inl e \<Rightarrow> refusing req (bad_payload e) app)
      else if fq_msg_id req = ROOM_LEAVE then
        (case leave_room app (fq_conn_id req) of
           (r, app', es) \<Rightarrow> (map_sum id (\<lambda>_. reply_ok req (rc_enc c RoomLeaveResp)) r, app', es))
      else if fq_msg_id req = ROOM_LIST then
        (Inr (reply_ok req (rc_enc c (list_rooms app (fst env)))), app, [])
      else if fq_msg_id req = ROOM_CHAT then
        (case rc_dec_chat c (fq_payload req) of
           Inr txt \<Rightarrow> replying req (rc_enc c) (room_chat app (fq_conn_id req) txt)
         | Inl e \<Rightarrow> refusing req (bad_payload e) app)
      else refusing req (unknown_msg req) app)"

subsection \<open>Connection events\<close>

definition room_player_connected :: "room_app \<Rightarrow> u32 \<Rightarrow> bool room_handled" where
  "room_player_connected app conn_id =
     (Inr True,
      if ra_players app conn_id \<noteq> None then set_online (cancel_removal app conn_id) conn_id True else app,
      [])"

text \<open>The second part is the clean-up task that was spawned.\<close>

definition room_player_disconnected ::
    "room_app \<Rightarrow> u32 \<Rightarrow> bool room_handled \<times> (u32 \<times> u64) option" where
  "room_player_disconnected app conn_id =
     (case ra_players app conn_id of
        None \<Rightarrow> ((Inr True, app, []), None)
      | Some p \<Rightarrow>
          (case mark_disconnected app conn_id of (app', gen) \<Rightarrow>
             ((Inr True, app', broadcast_to app' (rp_room_id p) ''offline'' (rp_player_id p)),
              Some (conn_id, gen))))"

lemma answering_echoes:
  "answering req enc txt h = (Inr rep, s, es) \<Longrightarrow> echoes req rep"
  by (cases h; cases "fst h") (auto simp: answering_def split: option.splits)

interpretation room_bridge: service_bridge "room_process c"
    "\<lambda>m. m \<in> {ROOM_LOGIN, ROOM_CREATE, ROOM_JOIN, ROOM_LEAVE, ROOM_LIST, ROOM_CHAT}" for c
proof unfold_locales
  fix env s req rep s' es
  assume "room_process c env s req = (Inr rep, s', es)"
  then show "echoes req rep"
    by (auto simp: room_process_def refusing_def split: if_splits sum.splits prod.splits
          dest: replying_echoes answering_echoes map_sum_InrD)
qed (auto simp: room_process_def)

text \<open>The stream of a gateway, and what its contract says of the replies on it.\<close>

definition room_stream :: "room_codec \<Rightarrow> room_app \<Rightarrow> (room_env \<times> forward_request) list \<Rightarrow>
    forward_reply list \<times> room_app \<times> room_push effect list" where
  "room_stream c app reqs = serve_stream (room_process c) app reqs"

lemma room_stream_replies:
  "room_stream c app reqs = (reps, app', es) \<Longrightarrow>
   length reps \<le> length reqs \<and> list_all2 echoes (take (length reps) (map snd reqs)) reps"
  unfolding room_stream_def by (rule room_bridge.stream_replies)

section \<open>The service in time\<close>

text \<open>Sleeping clean-up tasks: when they wake up, for which connection, with which generation.\<close>

record room_sys =
  rs_app :: room_app
  rs_now :: nat
  rs_tasks :: "(nat \<times> u32 \<times> u64) list"

datatype room_call =
    CallLogin profiles u32 string
  | CallCreate u32 string u32
  | CallJoin u32 u32
  | CallLeave u32
  | CallChat u32 string
  | CallConnected u32

fun room_call_step :: "room_app \<Rightarrow> room_call \<Rightarrow> room_app \<times> room_push effect list" where
  "room_call_step s (CallLogin pr c name) = snd (room_login s pr c name)"
| "room_call_step s (CallCreate c name capacity) = snd (create_room s c name capacity)"
| "room_call_step s (CallJoin c room_id) = snd (join_and_tell s c room_id)"
| "room_call_step s (CallLeave c) = snd (leave_room s c)"
| "room_call_step s (CallChat c txt) = snd (room_chat s c txt)"
| "room_call_step s (CallConnected c) = snd (room_player_connected s c)"

inductive room_step :: "room_sys \<Rightarrow> room_push effect list \<Rightarrow> room_sys \<Rightarrow> bool" where
  request: "room_call_step (rs_app s) call = (a, es) \<Longrightarrow> room_step s es (s\<lparr>rs_app := a\<rparr>)"
| disconnect: "room_player_disconnected (rs_app s) c = ((r, a, es), t) \<Longrightarrow>
    room_step s es (s\<lparr>rs_app := a,
      rs_tasks := (case t of None \<Rightarrow> rs_tasks s
                   | Some (c', gen) \<Rightarrow> (rs_now s + GRACE_SECS, c', gen) # rs_tasks s)\<rparr>)"
| tick: "room_step s [] (s\<lparr>rs_now := Suc (rs_now s)\<rparr>)"
| wake: "(d, c, gen) \<in> set (rs_tasks s) \<Longrightarrow> d \<le> rs_now s \<Longrightarrow>
    expire_session (rs_app s) c gen = (r, a, es) \<Longrightarrow>
    room_step s es (s\<lparr>rs_app := a, rs_tasks := remove1 (d, c, gen) (rs_tasks s)\<rparr>)"

inductive_cases room_stepE: "room_step s es s'"

text \<open>\<open>n\<close> counts the steps, \<open>es\<close> collects the framework calls.\<close>

inductive room_run :: "room_sys \<Rightarrow> nat \<Rightarrow> room_push effect list \<Rightarrow> room_sys \<Rightarrow> bool" for s0 where
  start: "room_run s0 0 [] s0"
| step: "room_run s0 n es s \<Longrightarrow> room_step s es' s' \<Longrightarrow> room_run s0 (Suc n) (es @ es') s'"

abbreviation room_reach :: "room_app \<Rightarrow> nat \<Rightarrow> room_push effect list \<Rightarrow> room_sys \<Rightarrow> bool" where
  "room_reach a n es s \<equiv> room_run \<lparr>rs_app = a, rs_now = 0, rs_tasks = []\<rparr> n es s"

lemma room_run_trans:
  assumes "room_run s0 n es s" "room_run s m fs s'"
  shows "room_run s0 (n + m) (es @ fs) s'"
  using assms(2,1)
proof (induction rule: room_run.induct)
  case (step m fs s1 fs' s2)
  then show ?case using room_run.step [of s0 "n + m" "es @ fs" s1 fs' s2] by simp
qed simp

lemma room_run_one: "room_step s es s' \<Longrightarrow> room_run s 1 es s'"
  using room_run.step [OF room_run.start] by simp

lemma room_run_ticks: "room_run s m [] (s\<lparr>rs_now := rs_now s + m\<rparr>)"
proof (induction m)
  case 0
  show ?case using room_run.start [of s] by simp
next
  case (Suc m)
  from room_run.step [OF Suc room_step.tick] show ?case by simp
qed

end
