(* ===== verification/Room_Safety.thy ===== *)
theory Room_Safety
  imports Room
begin

text \<open>
  The invariant of the room service and its preservation by every step of \<open>room_step\<close>:
  rooms are never empty nor over their capacity, a player who is in a room is a member of it,
  and exactly the offline players have a pending removal, with a clean-up task that carries
  its generation.
\<close>

section \<open>The invariant\<close>

text \<open>Who is in a room: player number and connection.\<close>

definition crew :: "room \<Rightarrow> (u32 \<times> u32) set" where
  "crew r = (\<lambda>m. (rp_player_id m, rp_conn_id m)) ` set (rm_members r)"

definition room_ok :: "u32 \<Rightarrow> u32 \<Rightarrow> u32 \<Rightarrow> room \<Rightarrow> bool" where
  "room_ok np nr k r \<longleftrightarrow> rm_id r = k \<and> 0 < k \<and> k < nr \<and> rm_members r \<noteq> [] \<and>
     length (rm_members r) \<le> unat (rm_capacity r) \<and> 2 \<le> rm_capacity r \<and> rm_capacity r \<le> 64 \<and>
     (\<forall>pc\<in>crew r. fst pc < np)"

definition member_of :: "(u32 \<rightharpoonup> room) \<Rightarrow> u32 \<Rightarrow> u32 \<times> u32 \<Rightarrow> bool" where
  "member_of rooms k pc \<longleftrightarrow> (case rooms k of Some r \<Rightarrow> pc \<in> crew r | None \<Rightarrow> False)"

definition player_ok :: "u32 \<Rightarrow> (u32 \<rightharpoonup> room) \<Rightarrow> u32 \<Rightarrow> rplayer \<Rightarrow> bool" where
  "player_ok np rooms c p \<longleftrightarrow> rp_conn_id p = c \<and> rp_player_id p < np \<and>
     (rp_room_id p \<noteq> 0 \<longrightarrow> member_of rooms (rp_room_id p) (rp_player_id p, c))"

definition ids_distinct :: "(u32 \<rightharpoonup> rplayer) \<Rightarrow> bool" where
  "ids_distinct ps \<longleftrightarrow> (\<forall>c c' p q. ps c = Some p \<longrightarrow> ps c' = Some q \<longrightarrow>
     rp_player_id p = rp_player_id q \<longrightarrow> c = c')"

definition pending_ok :: "(u32 \<rightharpoonup> rplayer) \<Rightarrow> (u32 \<rightharpoonup> u64) \<Rightarrow> bool" where
  "pending_ok ps pend \<longleftrightarrow> (\<forall>c. pend c \<noteq> None \<longleftrightarrow> (\<exists>p. ps c = Some p \<and> \<not> rp_online p))"

definition room_inv :: "room_app \<Rightarrow> bool" where
  "room_inv s \<longleftrightarrow>
     (\<forall>c p. ra_players s c = Some p \<longrightarrow> player_ok (ra_next_player s) (ra_rooms s) c p) \<and>
     (\<forall>k r. ra_rooms s k = Some r \<longrightarrow> room_ok (ra_next_player s) (ra_next_room s) k r) \<and>
     ids_distinct (ra_players s) \<and> pending_ok (ra_players s) (ra_pending s) \<and>
     0 < ra_next_room s"

lemma room_invD:
  assumes "room_inv s"
  shows "ra_players s c = Some p \<Longrightarrow> player_ok (ra_next_player s) (ra_rooms s) c p"
    and "ra_rooms s k = Some r \<Longrightarrow> room_ok (ra_next_player s) (ra_next_room s) k r"
    and "ids_distinct (ra_players s)" and "pending_ok (ra_players s) (ra_pending s)"
    and "ra_rooms s 0 = None"
proof -
  show "ra_rooms s 0 = None"
  proof (cases "ra_rooms s 0")
    case (Some r)
    with assms show ?thesis by (fastforce simp: room_inv_def room_ok_def)
  qed
qed (use assms in \<open>auto simp: room_inv_def\<close>)

lemma room_inv_new: "room_inv (room_new st sd n)"
  by (simp add: room_inv_def room_new_def ids_distinct_def pending_ok_def)

section \<open>Online and offline\<close>

lemma set_member_online_same:
  "map rp_player_id (set_member_online c b ms) = map rp_player_id ms"
  "map rp_conn_id (set_member_online c b ms) = map rp_conn_id ms"
  "length (set_member_online c b ms) = length ms"
  "set_member_online c b ms = [] \<longleftrightarrow> ms = []"
  by (induction ms) auto

lemma crew_set_member_online [simp]:
  "crew (r\<lparr>rm_members := set_member_online c b (rm_members r)\<rparr>) = crew r"
proof -
  have "set (map (\<lambda>m. (rp_player_id m, rp_conn_id m)) (set_member_online c b ms))
      = set (map (\<lambda>m. (rp_player_id m, rp_conn_id m)) ms)" for ms
    by (induction ms) auto
  then show ?thesis by (simp add: crew_def)
qed

lemma room_ok_online:
  "room_ok np nr k r \<Longrightarrow> room_ok np nr k (r\<lparr>rm_members := set_member_online c b (rm_members r)\<rparr>)"
  by (simp add: room_ok_def set_member_online_same)

lemma set_online_fields [simp]:
  "ra_next_player (set_online s c b) = ra_next_player s" "ra_next_room (set_online s c b) = ra_next_room s"
  "ra_pending (set_online s c b) = ra_pending s" "ra_session_dir (set_online s c b) = ra_session_dir s"
  "ra_node_id (set_online s c b) = ra_node_id s" "ra_store (set_online s c b) = ra_store s"
  by (simp_all add: set_online_def Let_def split: option.splits)

lemma set_online_players:
  "ra_players (set_online s c b) = (case ra_players s c of None \<Rightarrow> ra_players s
     | Some p \<Rightarrow> (ra_players s)(c \<mapsto> p\<lparr>rp_online := b\<rparr>))"
  by (simp add: set_online_def Let_def split: option.splits)

lemma set_online_dom [simp]: "dom (ra_rooms (set_online s c b)) = dom (ra_rooms s)"
  by (auto simp: set_online_def Let_def split: option.splits)

lemma set_online_member [simp]: "member_of (ra_rooms (set_online s c b)) k pc = member_of (ra_rooms s) k pc"
  by (auto simp: set_online_def Let_def member_of_def split: option.splits)

text \<open>Everything but the pending table survives a change of the flag.\<close>

lemma set_online_inv:
  assumes inv: "room_inv s" and pend: "pending_ok (ra_players (set_online s c b)) pend"
  shows "room_inv ((set_online s c b)\<lparr>ra_pending := pend\<rparr>)"
proof -
  have "player_ok (ra_next_player s) (ra_rooms (set_online s c b)) c' p"
    if "ra_players (set_online s c b) c' = Some p" for c' p
  proof -
    from that obtain q where "ra_players s c' = Some q" "rp_player_id q = rp_player_id p"
      "rp_conn_id q = rp_conn_id p" "rp_room_id q = rp_room_id p"
      by (auto simp: set_online_players split: option.splits if_splits)
    with room_invD(1) [OF inv this(1)] show ?thesis by (simp add: player_ok_def)
  qed
  moreover have "room_ok (ra_next_player s) (ra_next_room s) k r"
    if "ra_rooms (set_online s c b) k = Some r" for k r
    using that room_invD(2) [OF inv]
    by (auto simp: set_online_def Let_def room_ok_online split: option.splits if_splits)
  moreover have "ids_distinct (ra_players (set_online s c b))"
    using room_invD(3) [OF inv]
    by (auto simp: set_online_players ids_distinct_def split: option.splits if_splits)
  ultimately show ?thesis using pend inv by (simp add: room_inv_def)
qed

lemma resume_inv:
  assumes inv: "room_inv s"
  shows "room_inv (set_online (cancel_removal s c) c True)"
proof -
  have eq: "set_online (cancel_removal s c) c True
      = (set_online s c True)\<lparr>ra_pending := (ra_pending s)(c := None)\<rparr>"
    by (simp add: set_online_def cancel_removal_def Let_def split: option.splits)
  show ?thesis unfolding eq
    using room_invD(4) [OF inv]
    by (intro set_online_inv inv) (auto simp: pending_ok_def set_online_players split: option.splits)
qed

lemma mark_disconnected_inv:
  assumes inv: "room_inv s" and p: "ra_players s c = Some p"
  shows "room_inv (fst (mark_disconnected s c))"
  using room_invD(4) [OF inv] p
  by (auto simp: mark_disconnected_def Let_def pending_ok_def set_online_players intro!: set_online_inv [OF inv])

section \<open>Coming and going\<close>

lemma player_ok_mono:
  assumes "player_ok np rooms c p" "np \<le> np'" "\<And>k pc. member_of rooms k pc \<Longrightarrow> member_of rooms' k pc"
  shows "player_ok np' rooms' c p"
  using assms by (auto simp: player_ok_def intro: less_le_trans)

lemma room_ok_mono:
  assumes "room_ok np nr k r" "np \<le> np'" "nr \<le> nr'"
  shows "room_ok np' nr' k r"
  using assms by (auto simp: room_ok_def intro: less_le_trans)

lemma login_new_inv:
  assumes inv: "room_inv s" and c: "ra_players s c = None" and np: "ra_next_player s \<noteq> - 1"
  shows "room_inv (s\<lparr>ra_next_player := ra_next_player s + 1, ra_players := (ra_players s)(c \<mapsto>
     \<lparr>rp_conn_id = c, rp_player_id = ra_next_player s, rp_name = name, rp_room_id = 0, rp_online = True\<rparr>)\<rparr>)"
proof -
  have inc: "ra_next_player s < ra_next_player s + 1" using np by (rule inc_noteq)
  then have "player_ok (ra_next_player s + 1) (ra_rooms s) c' p" if "ra_players s c' = Some p" for c' p
    using room_invD(1) [OF inv that] by (auto intro: player_ok_mono)
  moreover have "room_ok (ra_next_player s + 1) (ra_next_room s) k r" if "ra_rooms s k = Some r" for k r
    using room_invD(2) [OF inv that] inc by (auto intro: room_ok_mono)
  moreover have fresh: "rp_player_id p \<noteq> ra_next_player s" if "ra_players s c' = Some p" for c' p
    using room_invD(1) [OF inv that] by (auto simp: player_ok_def)
  have "ids_distinct ((ra_players s)(c \<mapsto> \<lparr>rp_conn_id = c, rp_player_id = ra_next_player s, rp_name = name,
      rp_room_id = 0, rp_online = True\<rparr>))"
    using room_invD(3) [OF inv] fresh fresh [symmetric]
    unfolding ids_distinct_def by (auto split: if_splits)
  ultimately show ?thesis
    using inv inc c unfolding room_inv_def
    by (auto simp: player_ok_def pending_ok_def)
qed

text \<open>A player \<open>p\<close> moves to room \<open>k\<close>, whose new value has the player in its crew.\<close>

lemma enter_inv:
  assumes inv: "room_inv s" and p: "ra_players s c = Some p" and k: "k \<noteq> 0"
    and r: "room_ok (ra_next_player s) nr k r" "(rp_player_id p, c) \<in> crew r"
    and old: "\<And>r0. ra_rooms s k = Some r0 \<Longrightarrow> crew r0 \<subseteq> crew r" and nr: "ra_next_room s \<le> nr"
  shows "room_inv (s\<lparr>ra_next_room := nr, ra_rooms := (ra_rooms s)(k \<mapsto> r),
     ra_players := (ra_players s)(c \<mapsto> p\<lparr>rp_room_id := k\<rparr>)\<rparr>)"
proof -
  have mem: "member_of ((ra_rooms s)(k \<mapsto> r)) k' pc" if "member_of (ra_rooms s) k' pc" for k' pc
    using that old by (auto simp: member_of_def split: option.splits)
  have "player_ok (ra_next_player s) ((ra_rooms s)(k \<mapsto> r)) c' q" if "ra_players s c' = Some q" for c' q
    using room_invD(1) [OF inv that] mem by (auto intro: player_ok_mono)
  moreover have "player_ok (ra_next_player s) ((ra_rooms s)(k \<mapsto> r)) c (p\<lparr>rp_room_id := k\<rparr>)"
    using room_invD(1) [OF inv p] r(2) by (simp add: player_ok_def member_of_def)
  moreover have "room_ok (ra_next_player s) nr k' r'" if "ra_rooms s k' = Some r'" for k' r'
    using room_invD(2) [OF inv that] nr by (auto intro: room_ok_mono)
  moreover have "0 < nr" using inv nr by (auto simp: room_inv_def intro: less_le_trans)
  ultimately show ?thesis
    using inv p r(1) unfolding room_inv_def
    by (auto simp: ids_distinct_def pending_ok_def)
qed

text \<open>A player leaves the room it is in; the room disappears when it is empty.\<close>

definition without :: "u32 \<Rightarrow> room \<Rightarrow> room" where
  "without pid r = r\<lparr>rm_members := filter (\<lambda>m. rp_player_id m \<noteq> pid) (rm_members r)\<rparr>"

definition drop_from :: "(u32 \<rightharpoonup> room) \<Rightarrow> u32 \<Rightarrow> u32 \<Rightarrow> (u32 \<rightharpoonup> room)" where
  "drop_from rooms k pid = (case rooms k of None \<Rightarrow> rooms
     | Some r \<Rightarrow> if rm_members (without pid r) = [] then rooms(k := None) else rooms(k \<mapsto> without pid r))"

lemma crew_without: "crew (without pid r) = {pc \<in> crew r. fst pc \<noteq> pid}"
  by (auto simp: crew_def without_def)

lemma member_of_drop_from:
  "member_of (drop_from rooms k pid) k' pc \<longleftrightarrow> member_of rooms k' pc \<and> (k' = k \<longrightarrow> fst pc \<noteq> pid)"
proof (cases "rooms k")
  case (Some r)
  have "rm_members (without pid r) = [] \<Longrightarrow> crew (without pid r) = {}" by (simp add: crew_def)
  with Some show ?thesis
    by (cases pc) (auto simp: drop_from_def member_of_def crew_without split: option.splits)
qed (auto simp: drop_from_def member_of_def)

lemma room_ok_drop_from:
  assumes "\<And>r. rooms k' = Some r \<Longrightarrow> room_ok np nr k' r" "drop_from rooms k pid k' = Some r"
  shows "room_ok np nr k' r"
proof (cases "k' = k")
  case True
  show ?thesis
  proof (cases "rooms k")
    case (Some r0)
    with True assms have "room_ok np nr k r0" "r = without pid r0" "rm_members r \<noteq> []"
      by (auto simp: drop_from_def split: if_splits)
    moreover have "length (rm_members (without pid r0)) \<le> length (rm_members r0)"
      by (simp add: without_def)
    moreover have "rm_id (without pid r0) = rm_id r0" "rm_capacity (without pid r0) = rm_capacity r0"
      by (simp_all add: without_def)
    ultimately show ?thesis using True by (auto simp: room_ok_def crew_without)
  qed (use assms True in \<open>simp add: drop_from_def\<close>)
qed (use assms in \<open>auto simp: drop_from_def split: option.splits if_splits\<close>)

lemma exit_inv:
  assumes inv: "room_inv s" and p: "ra_players s c = Some p"
    and q: "q = None \<and> pend = (ra_pending s)(c := None) \<or> q = Some (p\<lparr>rp_room_id := 0\<rparr>) \<and> pend = ra_pending s"
  shows "room_inv (s\<lparr>ra_players := (ra_players s)(c := q), ra_pending := pend,
     ra_rooms := drop_from (ra_rooms s) (rp_room_id p) (rp_player_id p)\<rparr>)"
proof -
  let ?R = "drop_from (ra_rooms s) (rp_room_id p) (rp_player_id p)"
  have others: "player_ok (ra_next_player s) ?R c' q'" if "ra_players s c' = Some q'" "c' \<noteq> c" for c' q'
  proof -
    have "rp_player_id q' \<noteq> rp_player_id p"
      using room_invD(3) [OF inv] that p unfolding ids_distinct_def by metis
    with room_invD(1) [OF inv that(1)] show ?thesis by (simp add: player_ok_def member_of_drop_from)
  qed
  have rooms: "room_ok (ra_next_player s) (ra_next_room s) k r" if "?R k = Some r" for k r
    using room_ok_drop_from [OF _ that] room_invD(2) [OF inv] by blast
  have pend: "pending_ok ((ra_players s)(c := q)) pend"
  proof -
    have "ra_pending s c' \<noteq> None \<longleftrightarrow> (\<exists>p. ra_players s c' = Some p \<and> \<not> rp_online p)" for c'
      using room_invD(4) [OF inv] by (simp add: pending_ok_def)
    from this [of c] this show ?thesis using q p unfolding pending_ok_def by (elim disjE) auto
  qed
  have "ids_distinct ((ra_players s)(c := q))"
    using q room_invD(3) [OF inv] p by (auto simp: ids_distinct_def)
  moreover have "player_ok (ra_next_player s) ?R c (p\<lparr>rp_room_id := 0\<rparr>)"
    using room_invD(1) [OF inv p] by (simp add: player_ok_def)
  ultimately show ?thesis
    using inv q others rooms pend unfolding room_inv_def by auto
qed

section \<open>The operations\<close>

lemma room_login_next: "next_state (room_login s pr c name) =
    (case ra_players s c of Some p \<Rightarrow> set_online (cancel_removal s c) c True
     | None \<Rightarrow> s\<lparr>ra_next_player := ra_next_player s + 1, ra_players := (ra_players s)(c \<mapsto>
         \<lparr>rp_conn_id = c, rp_player_id = ra_next_player s, rp_name = name, rp_room_id = 0, rp_online = True\<rparr>)\<rparr>)"
  by (cases "ra_players s c") (auto simp: room_login_def Let_def split: prod.splits)

lemma create_room_cases:
  obtains (refused) "create_room s c name cap = (Inr None, s, [])"
      "\<And>p. ra_players s c = Some p \<Longrightarrow> rp_room_id p \<noteq> 0"
  | (created) p where "ra_players s c = Some p" "rp_room_id p = 0"
      "create_room s c name cap = (Inr (Some (RoomCreateResp (ra_next_room s))),
         s\<lparr>ra_next_room := ra_next_room s + 1, ra_rooms := (ra_rooms s)(ra_next_room s \<mapsto>
             \<lparr>rm_id = ra_next_room s, rm_name = (if name = [] then default_room_name (ra_next_room s) else name),
              rm_capacity = clamp_capacity cap, rm_members = [p]\<rparr>),
           ra_players := (ra_players s)(c \<mapsto> p\<lparr>rp_room_id := ra_next_room s\<rparr>)\<rparr>,
         room_bind s (ra_next_room s))"
proof (cases "ra_players s c")
  case None
  then show thesis by (intro refused) (simp_all add: create_room_def)
next
  case (Some p)
  then show thesis
    by (cases "rp_room_id p = 0")
       (auto simp: create_room_def set_room_id_def Let_def room_bind_def intro: refused created)
qed

lemma join_room_cases:
  obtains (refused) "join_room s c k = (Inr None, s, [])"
      "ra_players s c = None \<or> ra_rooms s k = None \<or>
       (\<exists>r. ra_rooms s k = Some r \<and> unat (rm_capacity r) \<le> length (rm_members r))"
  | (inside) p r where "ra_players s c = Some p" "ra_rooms s k = Some r" "rp_room_id p = k"
      "join_room s c k = (Inr (Some (RoomJoinResp (Some (info r)))), s, [])"
  | (joined) p r where "ra_players s c = Some p" "ra_rooms s k = Some r" "rp_room_id p \<noteq> k"
      "length (rm_members r) < unat (rm_capacity r)"
      "join_room s c k = (Inr (Some (RoomJoinResp (Some (info (r\<lparr>rm_members := rm_members r @ [p]\<rparr>))))),
         s\<lparr>ra_rooms := (ra_rooms s)(k \<mapsto> r\<lparr>rm_members := rm_members r @ [p]\<rparr>),
           ra_players := (ra_players s)(c \<mapsto> p\<lparr>rp_room_id := k\<rparr>)\<rparr>, room_bind s k)"
proof (cases "ra_players s c")
  case None
  then show thesis by (intro refused) (simp_all add: join_room_def)
next
  case p: (Some p)
  show thesis
  proof (cases "ra_rooms s k")
    case None
    with p show thesis by (intro refused) (simp_all add: join_room_def)
  next
    case (Some r)
    consider "rp_room_id p = k" | "rp_room_id p \<noteq> k" "unat (rm_capacity r) \<le> length (rm_members r)"
      | "rp_room_id p \<noteq> k" "length (rm_members r) < unat (rm_capacity r)" by linarith
    then show thesis
    proof cases
      case 1 with p Some show thesis by (intro inside) (simp_all add: join_room_def)
    next
      case 2 with p Some show thesis by (intro refused) (simp_all add: join_room_def)
    next
      case 3 with p Some show thesis
        by (intro joined [of p r]) (simp_all add: join_room_def set_room_id_def Let_def room_bind_def)
    qed
  qed
qed

definition room_unbind :: "room_app \<Rightarrow> u32 \<Rightarrow> u32 \<Rightarrow> room_push effect list" where
  "room_unbind s k pid =
     (if ra_session_dir s \<and> drop_from (ra_rooms s) k pid k = None then [DirRemove DOMAIN_ROOM k] else [])"

lemma leave_room_cases:
  obtains (refused) "leave_room s c = (Inr False, s, [])"
  | (left) p r where "ra_players s c = Some p" "ra_rooms s (rp_room_id p) = Some r"
      "leave_room s c = (Inr True,
         s\<lparr>ra_players := (ra_players s)(c \<mapsto> p\<lparr>rp_room_id := 0\<rparr>), ra_pending := ra_pending s,
           ra_rooms := drop_from (ra_rooms s) (rp_room_id p) (rp_player_id p)\<rparr>,
         room_unbind s (rp_room_id p) (rp_player_id p))"
proof (cases "ra_players s c")
  case None
  then show thesis by (intro refused) (simp add: leave_room_def)
next
  case p: (Some p)
  show thesis
  proof (cases "ra_rooms s (rp_room_id p)")
    case None
    with p show thesis by (intro refused) (simp add: leave_room_def)
  next
    case (Some r)
    with p show thesis
      by (intro left [of p r])
         (simp_all add: leave_room_def set_room_id_def Let_def drop_from_def without_def room_unbind_def)
  qed
qed

lemma expire_session_cases:
  obtains (kept) "expire_session s c gen = (Inr (), s, [])" "ra_pending s c \<noteq> Some gen"
  | (nobody) "ra_players s c = None" "ra_pending s c = Some gen"
      "expire_session s c gen = (Inr (), cancel_removal s c, [])"
  | (expired) p where "ra_players s c = Some p" "ra_pending s c = Some gen"
      "expire_session s c gen = (Inr (),
         s\<lparr>ra_players := (ra_players s)(c := None), ra_pending := (ra_pending s)(c := None),
           ra_rooms := drop_from (ra_rooms s) (rp_room_id p) (rp_player_id p)\<rparr>,
         if ra_rooms s (rp_room_id p) = None then [] else room_unbind s (rp_room_id p) (rp_player_id p))"
proof (cases "ra_pending s c = Some gen")
  case False
  then show thesis by (intro kept) (simp_all add: expire_session_def)
next
  case pend: True
  show thesis
  proof (cases "ra_players s c")
    case None
    with pend show thesis by (intro nobody) (simp_all add: expire_session_def cancel_removal_def)
  next
    case (Some p)
    with pend show thesis
      by (intro expired [of p])
         (auto simp: expire_session_def cancel_removal_def Let_def drop_from_def without_def room_unbind_def
            split: option.splits)
  qed
qed

end
