(* ===== verification/Room_Props.thy ===== *)
theory Room_Props
  imports Room_Safety
begin

text \<open>
  The properties of the room service.  \<open>room_reach\<close> generates every state the service can
  be in, with its clock and its sleeping clean-up tasks, and the framework calls made so far.
\<close>

section \<open>The invariant over time\<close>

definition tasks_ok :: "room_sys \<Rightarrow> bool" where
  "tasks_ok s \<longleftrightarrow> (\<forall>t\<in>set (rs_tasks s). fst t \<le> rs_now s + GRACE_SECS) \<and>
     (\<forall>c gen. ra_pending (rs_app s) c = Some gen \<longrightarrow> (\<exists>d. (d, c, gen) \<in> set (rs_tasks s)))"

definition dir_ok :: "room_app \<Rightarrow> (u32 \<times> u32 \<rightharpoonup> string) \<Rightarrow> bool" where
  "dir_ok a m \<longleftrightarrow> (\<forall>k. m (DOMAIN_ROOM, k) =
     (if ra_session_dir a \<and> ra_rooms a k \<noteq> None then Some (ra_node_id a) else None))"

definition sys_inv :: "nat \<Rightarrow> room_push effect list \<Rightarrow> room_sys \<Rightarrow> bool" where
  "sys_inv n es s \<longleftrightarrow> room_inv (rs_app s) \<and> unat (ra_next_player (rs_app s)) \<le> Suc n \<and>
     unat (ra_next_room (rs_app s)) \<le> Suc n \<and> tasks_ok s \<and> dir_ok (rs_app s) (dir_after Map.empty es)"

subsection \<open>Requests\<close>

lemma broadcast_pushes [simp]: "e \<in> set (broadcast_to a k ev actor) \<Longrightarrow> is_push e"
  by (auto simp: broadcast_to_def broadcast_def split: option.splits)

lemma stats_pushes [simp]: "dir_after m (snd (stats_of a pr i)) = m"
  by (simp add: stats_of_def split: option.splits)

lemma clamp_capacity_range: "2 \<le> clamp_capacity cap" "clamp_capacity cap \<le> 64"
  by (auto simp: clamp_capacity_def not_less)

lemma create_inv:
  assumes inv: "room_inv s" and p: "ra_players s c = Some p" and nr: "ra_next_room s \<noteq> - 1"
  shows "room_inv (s\<lparr>ra_next_room := ra_next_room s + 1, ra_rooms := (ra_rooms s)(ra_next_room s \<mapsto>
      \<lparr>rm_id = ra_next_room s, rm_name = nm, rm_capacity = clamp_capacity cap, rm_members = [p]\<rparr>),
     ra_players := (ra_players s)(c \<mapsto> p\<lparr>rp_room_id := ra_next_room s\<rparr>)\<rparr>)"
proof (rule enter_inv [OF inv p])
  have inc: "ra_next_room s < ra_next_room s + 1" using nr by (rule inc_noteq)
  then show "ra_next_room s \<le> ra_next_room s + 1" by simp
  have "1 \<le> unat (clamp_capacity cap)" using clamp_capacity_range [of cap] by (auto simp: word_le_nat_alt)
  then show "room_ok (ra_next_player s) (ra_next_room s + 1) (ra_next_room s)
     \<lparr>rm_id = ra_next_room s, rm_name = nm, rm_capacity = clamp_capacity cap, rm_members = [p]\<rparr>"
    using inv inc clamp_capacity_range [of cap] room_invD(1) [OF inv p]
    by (auto simp: room_ok_def room_inv_def player_ok_def crew_def)
  show "ra_next_room s \<noteq> 0" using inv by (auto simp: room_inv_def)
  show "(rp_player_id p, c) \<in> crew \<lparr>rm_id = ra_next_room s, rm_name = nm, rm_capacity = clamp_capacity cap, rm_members = [p]\<rparr>"
    using room_invD(1) [OF inv p] by (simp add: crew_def player_ok_def)
  fix r0
  assume "ra_rooms s (ra_next_room s) = Some r0"
  with room_invD(2) [OF inv this]
  show "crew r0 \<subseteq> crew \<lparr>rm_id = ra_next_room s, rm_name = nm, rm_capacity = clamp_capacity cap, rm_members = [p]\<rparr>"
    by (simp add: room_ok_def)
qed

lemma join_inv:
  assumes inv: "room_inv s" and p: "ra_players s c = Some p" and r: "ra_rooms s k = Some r"
    and free: "length (rm_members r) < unat (rm_capacity r)"
  shows "room_inv (s\<lparr>ra_rooms := (ra_rooms s)(k \<mapsto> r\<lparr>rm_members := rm_members r @ [p]\<rparr>),
     ra_players := (ra_players s)(c \<mapsto> p\<lparr>rp_room_id := k\<rparr>)\<rparr>)"
proof -
  have "room_ok (ra_next_player s) (ra_next_room s) k (r\<lparr>rm_members := rm_members r @ [p]\<rparr>)"
    using room_invD(2) [OF inv r] room_invD(1) [OF inv p] free
    by (auto simp: room_ok_def crew_def player_ok_def)
  moreover have "(rp_player_id p, c) \<in> crew (r\<lparr>rm_members := rm_members r @ [p]\<rparr>)"
    using room_invD(1) [OF inv p] by (simp add: crew_def player_ok_def)
  moreover have "k \<noteq> 0" using room_invD(5) [OF inv] r by auto
  ultimately show ?thesis
    using enter_inv [OF inv p, of k "ra_next_room s" "r\<lparr>rm_members := rm_members r @ [p]\<rparr>"] r
    by (auto simp: crew_def)
qed

text \<open>What a request keeps; the sixth part is about the pending table.\<close>

definition step_ok :: "room_app \<Rightarrow> room_app \<times> room_push effect list \<Rightarrow> bool" where
  "step_ok s r \<longleftrightarrow> (case r of (s', es) \<Rightarrow> room_inv s' \<and>
     unat (ra_next_player s') \<le> Suc (unat (ra_next_player s)) \<and>
     unat (ra_next_room s') \<le> Suc (unat (ra_next_room s)) \<and>
     (\<forall>m. dir_ok s m \<longrightarrow> dir_ok s' (dir_after m es)) \<and>
     (\<forall>c gen. ra_pending s' c = Some gen \<longrightarrow> ra_pending s c = Some gen))"

lemma dir_ok_dom:
  "dir_ok s m \<Longrightarrow> ra_session_dir s' = ra_session_dir s \<Longrightarrow> ra_node_id s' = ra_node_id s \<Longrightarrow>
   dom (ra_rooms s') = dom (ra_rooms s) \<Longrightarrow> dir_ok s' m"
  unfolding dir_ok_def by (metis domIff)

lemma step_ok_refl: "room_inv s \<Longrightarrow> step_ok s (s, [])"
  by (simp add: step_ok_def)

lemma resume_step_ok:
  assumes "room_inv s" "\<And>m. dir_after m es = m"
  shows "step_ok s (set_online (cancel_removal s c) c True, es)"
  using assms resume_inv [OF assms(1), of c]
  by (auto simp: step_ok_def cancel_removal_def dir_ok_dom split: if_splits)

lemma drop_from_dir:
  assumes "dir_ok s m" "ra_rooms s k \<noteq> None" "ra_session_dir s' = ra_session_dir s"
    "ra_node_id s' = ra_node_id s" "ra_rooms s' = drop_from (ra_rooms s) k pid"
  shows "dir_ok s' (dir_after m (room_unbind s k pid))"
  using assms unfolding dir_ok_def
  by (auto simp: room_unbind_def drop_from_def split: option.splits)

lemma room_call_ok:
  assumes inv: "room_inv s" and np: "ra_next_player s \<noteq> - 1" and nr: "ra_next_room s \<noteq> - 1"
  shows "step_ok s (room_call_step s call)"
proof (cases call)
  case (CallLogin pr c name)
  show ?thesis
  proof (cases "ra_players s c")
    case None
    have "snd (snd (room_login s pr c name)) = snd (stats_of (s\<lparr>ra_next_player := ra_next_player s + 1,
        ra_players := (ra_players s)(c \<mapsto> \<lparr>rp_conn_id = c, rp_player_id = ra_next_player s, rp_name = name,
          rp_room_id = 0, rp_online = True\<rparr>)\<rparr>) pr (uint (ra_next_player s)))"
      using None by (simp add: room_login_def Let_def split: prod.splits)
    with None CallLogin login_new_inv [OF inv None np, of name] np show ?thesis
      using room_login_next [of s pr c name]
      by (cases "room_login s pr c name") (auto simp: step_ok_def unat_inc dir_ok_def)
  next
    case (Some p)
    have "snd (snd (room_login s pr c name))
        = snd (stats_of (set_online (cancel_removal s c) c True) pr (uint (rp_player_id p)))"
      using Some by (simp add: room_login_def Let_def split: prod.splits)
    with Some CallLogin resume_step_ok [OF inv, of "snd (snd (room_login s pr c name))" c] show ?thesis
      using room_login_next [of s pr c name] by (cases "room_login s pr c name") auto
  qed
next
  case (CallCreate c name cap)
  show ?thesis
  proof (cases rule: create_room_cases [of s c name cap])
    case refused
    with CallCreate inv show ?thesis by (simp add: step_ok_refl)
  next
    case (created p)
    with create_inv [OF inv created(1) nr] nr CallCreate show ?thesis
      by (auto simp: step_ok_def unat_inc room_bind_def dir_ok_def)
  qed
next
  case (CallJoin c k)
  show ?thesis
  proof (cases rule: join_room_cases [of s c k])
    case refused
    with CallJoin inv show ?thesis by (simp add: join_and_tell_def step_ok_refl)
  next
    case (inside p r)
    with CallJoin inv show ?thesis by (simp add: join_and_tell_def step_ok_def)
  next
    case (joined p r)
    with join_inv [OF inv joined(1,2,4)] CallJoin show ?thesis
      by (auto simp: join_and_tell_def step_ok_def room_bind_def dir_ok_def)
  qed
next
  case (CallLeave c)
  show ?thesis
  proof (cases rule: leave_room_cases [of s c])
    case refused
    with CallLeave inv show ?thesis by (simp add: step_ok_refl)
  next
    case (left p r)
    with exit_inv [OF inv left(1), of "Some (p\<lparr>rp_room_id := 0\<rparr>)" "ra_pending s"] CallLeave show ?thesis
      by (auto simp: step_ok_def intro!: drop_from_dir [of s])
  qed
next
  case (CallChat c body)
  with inv show ?thesis
    by (auto simp: room_chat_def step_ok_def split: option.splits)
next
  case (CallConnected c)
  with inv resume_step_ok [OF inv, of "[]" c] show ?thesis
    by (auto simp: room_player_connected_def step_ok_refl)
qed

subsection \<open>Every step\<close>

lemma in_set_remove1_other: "x \<in> set xs \<Longrightarrow> x \<noteq> y \<Longrightarrow> x \<in> set (remove1 y xs)"
  by simp

lemma sys_inv_start: "sys_inv 0 [] \<lparr>rs_app = room_new st sd nd, rs_now = 0, rs_tasks = []\<rparr>"
  using room_inv_new [of st sd nd]
  by (simp add: sys_inv_def tasks_ok_def dir_ok_def room_new_def)

lemma not_top: "unat (w :: u32) \<le> Suc n \<Longrightarrow> n < 2 ^ 32 - 2 \<Longrightarrow> w \<noteq> - 1"
  by (auto simp: unsigned_minus_1_eq_mask mask_eq_exp_minus_1)

lemma sys_inv_disconnect:
  assumes inv: "sys_inv n es s" and p: "ra_players (rs_app s) c = Some p"
    and md: "mark_disconnected (rs_app s) c = (a, gen)" and es': "\<forall>e\<in>set es'. is_push e"
  shows "sys_inv (Suc n) (es @ es') (s\<lparr>rs_app := a, rs_tasks := (rs_now s + GRACE_SECS, c, gen) # rs_tasks s\<rparr>)"
proof -
  from inv have i: "room_inv (rs_app s)" by (simp add: sys_inv_def)
  have a: "room_inv a" using mark_disconnected_inv [OF i p] md by simp
  have f: "a = (set_online (rs_app s) c False)\<lparr>ra_pending := (ra_pending (rs_app s))(c \<mapsto> gen)\<rparr>"
    using md by (auto simp: mark_disconnected_def Let_def)
  have "dir_ok a m" if "dir_ok (rs_app s) m" for m
    using that by (rule dir_ok_dom) (simp_all add: f)
  with inv a es' show ?thesis
    by (auto simp: sys_inv_def tasks_ok_def f split: if_splits)
qed

lemma sys_inv_wake:
  assumes inv: "sys_inv n es s" and t: "(d, c, gen) \<in> set (rs_tasks s)"
    and ex: "expire_session (rs_app s) c gen = (r, a, es')"
  shows "sys_inv (Suc n) (es @ es') (s\<lparr>rs_app := a, rs_tasks := remove1 (d, c, gen) (rs_tasks s)\<rparr>)"
proof -
  from inv have i: "room_inv (rs_app s)" and tk: "tasks_ok s" by (simp_all add: sys_inv_def)
  have late: "\<forall>t\<in>set (remove1 (d, c, gen) (rs_tasks s)). fst t \<le> rs_now s + GRACE_SECS"
    using tk by (auto simp: tasks_ok_def dest: notin_set_remove1)
  show ?thesis
  proof (cases rule: expire_session_cases [of "rs_app s" c gen])
    case kept
    have "\<exists>d'. (d', c', gen') \<in> set (remove1 (d, c, gen) (rs_tasks s))"
      if pend: "ra_pending (rs_app s) c' = Some gen'" for c' gen'
    proof -
      obtain d' where "(d', c', gen') \<in> set (rs_tasks s)" using tk pend unfolding tasks_ok_def by blast
      moreover have "(d', c', gen') \<noteq> (d, c, gen)" using kept(2) pend by auto
      ultimately show ?thesis by (blast intro: in_set_remove1_other)
    qed
    with inv kept ex late show ?thesis by (auto simp: sys_inv_def tasks_ok_def)
  next
    case nobody
    from room_invD(4) [OF i] have "ra_pending (rs_app s) c \<noteq> None
        \<longleftrightarrow> (\<exists>p. ra_players (rs_app s) c = Some p \<and> \<not> rp_online p)" by (simp add: pending_ok_def)
    with nobody(1,2) show ?thesis by simp
  next
    case (expired p)
    let ?a = "(rs_app s)\<lparr>ra_players := (ra_players (rs_app s))(c := None),
        ra_pending := (ra_pending (rs_app s))(c := None),
        ra_rooms := drop_from (ra_rooms (rs_app s)) (rp_room_id p) (rp_player_id p)\<rparr>"
    have "room_inv ?a" using exit_inv [OF i expired(1), of None] by auto
    moreover have "dir_ok ?a (dir_after m es')" if "dir_ok (rs_app s) m" for m
    proof (cases "ra_rooms (rs_app s) (rp_room_id p)")
      case None
      with that ex expired(3) show ?thesis by (auto simp: drop_from_def dir_ok_def)
    next
      case (Some r)
      with drop_from_dir [OF that, of "rp_room_id p" ?a] ex expired(3) show ?thesis by auto
    qed
    moreover have "\<exists>d'. (d', c', gen') \<in> set (remove1 (d, c, gen) (rs_tasks s))"
      if ne: "c' \<noteq> c" and pend: "ra_pending (rs_app s) c' = Some gen'" for c' gen'
    proof -
      obtain d' where "(d', c', gen') \<in> set (rs_tasks s)" using tk pend unfolding tasks_ok_def by blast
      with ne show ?thesis by (blast intro: in_set_remove1_other)
    qed
    moreover have "a = ?a" using ex expired(3) by auto
    ultimately show ?thesis using inv late
      by (auto simp: sys_inv_def tasks_ok_def split: if_splits)
  qed
qed

lemma sys_inv_step:
  assumes inv: "sys_inv n es s" and step: "room_step s es' s'" and n: "n < 2 ^ 32 - 2"
  shows "sys_inv (Suc n) (es @ es') s'"
  using step
proof (cases rule: room_step.cases)
  case (request call a)
  have i: "room_inv (rs_app s)" "ra_next_player (rs_app s) \<noteq> - 1" "ra_next_room (rs_app s) \<noteq> - 1"
    using inv n by (auto simp: sys_inv_def dest: not_top)
  from room_call_ok [OF this, of call] request inv show ?thesis
    by (fastforce simp: step_ok_def sys_inv_def tasks_ok_def)
next
  case (disconnect c r a t)
  show ?thesis
  proof (cases "ra_players (rs_app s) c")
    case None
    with disconnect inv show ?thesis by (auto simp: room_player_disconnected_def sys_inv_def tasks_ok_def)
  next
    case (Some p)
    obtain a' gen where md: "mark_disconnected (rs_app s) c = (a', gen)"
      by (cases "mark_disconnected (rs_app s) c")
    with Some disconnect sys_inv_disconnect [OF inv Some md, of es'] show ?thesis
      by (auto simp: room_player_disconnected_def)
  qed
next
  case tick
  with inv show ?thesis by (auto simp: sys_inv_def tasks_ok_def le_SucI)
next
  case (wake d c gen r a)
  with sys_inv_wake [OF inv wake(2) wake(4)] show ?thesis by simp
qed

lemma room_reach_inv:
  assumes "room_reach (room_new st sd nd) n es s" "n < 2 ^ 32 - 1"
  shows "sys_inv n es s"
  using assms
proof (induction rule: room_run.induct)
  case start
  show ?case by (rule sys_inv_start)
next
  case (step n es s es' s')
  then show ?case by (intro sys_inv_step) auto
qed

section \<open>Going offline and back\<close>

definition offline_app :: "room_app \<Rightarrow> u32 \<Rightarrow> room_app" where
  "offline_app a c = fst (mark_disconnected a c)"

lemma disconnect_fresh:
  assumes "ra_players (rs_app s) c = Some p" "ra_pending (rs_app s) c = None"
  shows "\<exists>es. room_step s es (s\<lparr>rs_app := offline_app (rs_app s) c,
      rs_tasks := (rs_now s + GRACE_SECS, c, 1) # rs_tasks s\<rparr>)"
    and "ra_players (offline_app (rs_app s) c) c = Some (p\<lparr>rp_online := False\<rparr>)"
    and "ra_pending (offline_app (rs_app s) c) c = Some 1"
proof -
  have "snd (mark_disconnected (rs_app s) c) = 1" using assms by (simp add: mark_disconnected_def Let_def)
  then have md: "mark_disconnected (rs_app s) c = (offline_app (rs_app s) c, 1)"
    by (simp add: offline_app_def prod_eq_iff)
  show "\<exists>es. room_step s es (s\<lparr>rs_app := offline_app (rs_app s) c,
      rs_tasks := (rs_now s + GRACE_SECS, c, 1) # rs_tasks s\<rparr>)"
    using room_step.disconnect [of s c "Inr True" "offline_app (rs_app s) c" _ "Some (c, 1)"] assms md
    by (auto simp: room_player_disconnected_def)
  show "ra_players (offline_app (rs_app s) c) c = Some (p\<lparr>rp_online := False\<rparr>)"
    "ra_pending (offline_app (rs_app s) c) c = Some 1"
    using assms by (auto simp: offline_app_def mark_disconnected_def Let_def set_online_players)
qed

lemma connect_back:
  assumes "ra_players (rs_app s) c = Some p"
  shows "\<exists>a. room_step s [] (s\<lparr>rs_app := a\<rparr>) \<and> ra_players a c = Some (p\<lparr>rp_online := True\<rparr>) \<and> ra_pending a c = None"
  using assms room_step.request [of s "CallConnected c" _ "[]"]
  by (intro exI [of _ "set_online (cancel_removal (rs_app s) c) c True"])
     (auto simp: room_player_connected_def set_online_players cancel_removal_def split: option.splits)

section \<open>A concrete run\<close>

text \<open>Two players log in and create a room each; the witnesses start from here.\<close>

definition demo_app :: room_app where
  "demo_app =
     \<lparr>ra_players = [7 \<mapsto> \<lparr>rp_conn_id = 7, rp_player_id = 1, rp_name = ''A'', rp_room_id = 1, rp_online = True\<rparr>,
                    9 \<mapsto> \<lparr>rp_conn_id = 9, rp_player_id = 2, rp_name = ''B'', rp_room_id = 2, rp_online = True\<rparr>],
      ra_rooms = [1 \<mapsto> \<lparr>rm_id = 1, rm_name = ''x'', rm_capacity = 2, rm_members =
                    [\<lparr>rp_conn_id = 7, rp_player_id = 1, rp_name = ''A'', rp_room_id = 0, rp_online = True\<rparr>]\<rparr>,
                  2 \<mapsto> \<lparr>rm_id = 2, rm_name = ''y'', rm_capacity = 2, rm_members =
                    [\<lparr>rp_conn_id = 9, rp_player_id = 2, rp_name = ''B'', rp_room_id = 0, rp_online = True\<rparr>]\<rparr>],
      ra_next_player = 3, ra_next_room = 3, ra_pending = Map.empty, ra_store = False,
      ra_session_dir = True, ra_node_id = ''n''\<rparr>"

definition demo_7 :: rplayer where
  "demo_7 = \<lparr>rp_conn_id = 7, rp_player_id = 1, rp_name = ''A'', rp_room_id = 1, rp_online = True\<rparr>"

lemma demo_room_lookup:
  "ra_players demo_app 7 = Some demo_7" "rp_room_id demo_7 = 1" "rp_player_id demo_7 = 1" "rp_online demo_7"
  "\<exists>r. ra_rooms demo_app 2 = Some r \<and> length (rm_members r) < unat (rm_capacity r)"
  "ra_pending demo_app c = None" "ra_session_dir demo_app" "ra_node_id demo_app = ''n''"
  by (simp_all add: demo_app_def demo_7_def)

definition no_profiles :: profiles where
  "no_profiles = ((\<lambda>_. None), (\<lambda>_. Inl []))"

lemma run_calls: "room_run s (length calls) (concat (map snd (snd (foldl (\<lambda>(a, rs) call.
     let r = room_call_step a call in (fst r, rs @ [r])) (rs_app s, []) calls))))
   (s\<lparr>rs_app := fst (foldl (\<lambda>(a, rs) call. let r = room_call_step a call in (fst r, rs @ [r])) (rs_app s, []) calls)\<rparr>)"
proof (induction calls rule: rev_induct)
  case Nil
  show ?case using room_run.start [of s] by simp
next
  case (snoc call calls)
  let ?f = "\<lambda>(a, rs) call. let r = room_call_step a call in (fst r, rs @ [r])"
  obtain a rs where f: "foldl ?f (rs_app s, []) calls = (a, rs)"
    by (cases "foldl ?f (rs_app s, []) calls")
  have "room_step (s\<lparr>rs_app := a\<rparr>) (snd (room_call_step a call)) (s\<lparr>rs_app := a\<rparr>\<lparr>rs_app := fst (room_call_step a call)\<rparr>)"
    by (rule room_step.request [of _ call]) simp
  from room_run.step [OF snoc [unfolded f fst_conv snd_conv] this] f show ?case by (simp add: Let_def)
qed

lemma demo_reach: "room_reach (room_new False True ''n'') 4
    [DirBind DOMAIN_ROOM 1 ''n'', DirBind DOMAIN_ROOM 2 ''n''] \<lparr>rs_app = demo_app, rs_now = 0, rs_tasks = []\<rparr>"
  using run_calls [of "\<lparr>rs_app = room_new False True ''n'', rs_now = 0, rs_tasks = []\<rparr>"
      "[CallLogin no_profiles 7 ''A'', CallLogin no_profiles 9 ''B'', CallCreate 7 ''x'' 0, CallCreate 9 ''y'' 0]"]
  by (simp add: room_new_def room_login_def stats_of_def create_room_def set_room_id_def room_bind_def
      clamp_capacity_def Let_def demo_app_def eval_nat_numeral fun_upd_twist)

section \<open>Properties\<close>

lemma reach_room_inv: "room_reach (room_new st sd nd) n es s \<Longrightarrow> n < 2 ^ 32 - 1 \<Longrightarrow> room_inv (rs_app s)"
  by (drule (1) room_reach_inv) (simp add: sys_inv_def)





text \<open>
  No step takes an online player out of the player table or changes the player's number:
  sessions only end while they are marked offline.
\<close>

lemma online_session_kept:
  assumes "room_reach (room_new st sd nd) n es s" "n < 2 ^ 32 - 2" "room_step s es' s'"
    and "ra_players (rs_app s) c = Some p" "rp_online p"
  shows "\<exists>q. ra_players (rs_app s') c = Some q \<and> rp_player_id q = rp_player_id p"
  using assms(3)
proof (cases rule: room_step.cases)
  case (request call a)
  then show ?thesis using assms(4)
  proof (cases call)
    case (CallLogin pr c' name)
    with request assms(4) room_login_next [of "rs_app s" pr c' name] show ?thesis
      by (auto simp: set_online_players cancel_removal_def split: option.splits if_splits)
  next
    case (CallCreate c' name cap)
    with request assms(4) show ?thesis
      by (cases rule: create_room_cases [of "rs_app s" c' name cap]) auto
  next
    case (CallJoin c' k)
    with request assms(4) show ?thesis
      by (cases rule: join_room_cases [of "rs_app s" c' k]) (auto simp: join_and_tell_def)
  next
    case (CallLeave c')
    with request assms(4) show ?thesis
      by (cases rule: leave_room_cases [of "rs_app s" c']) auto
  next
    case (CallChat c' body)
    with request assms(4) show ?thesis by (auto simp: room_chat_def)
  next
    case (CallConnected c')
    with request assms(4) show ?thesis
      by (auto simp: room_player_connected_def set_online_players cancel_removal_def split: option.splits if_splits)
  qed
next
  case (disconnect c' r a t)
  with assms(4) show ?thesis
    by (auto simp: room_player_disconnected_def mark_disconnected_def Let_def set_online_players
        split: option.splits if_splits)
next
  case tick
  with assms(4) show ?thesis by simp
next
  case (wake d c' gen r a)
  have i: "pending_ok (ra_players (rs_app s)) (ra_pending (rs_app s))"
    using reach_room_inv [OF assms(1)] assms(2) by (auto simp: room_inv_def)
  then have "ra_pending (rs_app s) c \<noteq> None
      \<longleftrightarrow> (\<exists>p. ra_players (rs_app s) c = Some p \<and> \<not> rp_online p)" by (simp add: pending_ok_def)
  with assms(4,5) have "ra_pending (rs_app s) c = None" by auto
  with wake assms(4) show ?thesis
    by (cases rule: expire_session_cases [of "rs_app s" c' gen])
       (auto simp: cancel_removal_def split: if_splits)
qed

lemma online_session_kept_witness:
  "\<exists>q. ra_players (fst (room_call_step demo_app (CallLeave 7))) 7 = Some q \<and> rp_player_id q = 1"
proof -
  let ?s = "\<lparr>rs_app = demo_app, rs_now = 0, rs_tasks = []\<rparr>"
  have "room_step ?s (snd (room_call_step demo_app (CallLeave 7)))
      (?s\<lparr>rs_app := fst (room_call_step demo_app (CallLeave 7))\<rparr>)"
    by (rule room_step.request [of _ "CallLeave 7"]) simp
  from online_session_kept [OF demo_reach _ this, of 7] show ?thesis
    by (auto simp: demo_app_def)
qed

text \<open>
  C33: Every offline player of a reachable state is taken care of: a clean-up task with the
  player's current generation is asleep, due within 15 seconds, and when it wakes up the
  player is gone from the table and from the room the player was in.
\<close>

theorem offline_session_expires:
  assumes "room_reach (room_new st sd nd) n es s" "n < 2 ^ 32 - 1"
    and "ra_players (rs_app s) c = Some p" "\<not> rp_online p"
  shows "\<exists>d gen. (d, c, gen) \<in> set (rs_tasks s) \<and> d \<le> rs_now s + GRACE_SECS \<and>
     (let a = next_state (expire_session (rs_app s) c gen)
      in ra_players a c = None \<and> ra_pending a c = None \<and>
         (\<forall>r. ra_rooms a (rp_room_id p) = Some r \<longrightarrow> (\<forall>m\<in>set (rm_members r). rp_player_id m \<noteq> rp_player_id p)))"
proof -
  note inv = room_reach_inv [OF assms(1,2)]
  then have i: "pending_ok (ra_players (rs_app s)) (ra_pending (rs_app s))" and t: "tasks_ok s"
    by (auto simp: sys_inv_def room_inv_def)
  from i have "ra_pending (rs_app s) c \<noteq> None
      \<longleftrightarrow> (\<exists>p. ra_players (rs_app s) c = Some p \<and> \<not> rp_online p)" by (simp add: pending_ok_def)
  with assms(3,4) obtain gen where gen: "ra_pending (rs_app s) c = Some gen" by auto
  with t obtain d where d: "(d, c, gen) \<in> set (rs_tasks s)" unfolding tasks_ok_def by blast
  with t have "d \<le> rs_now s + GRACE_SECS" by (auto simp: tasks_ok_def)
  moreover have "let a = next_state (expire_session (rs_app s) c gen)
      in ra_players a c = None \<and> ra_pending a c = None \<and>
         (\<forall>r. ra_rooms a (rp_room_id p) = Some r \<longrightarrow> (\<forall>m\<in>set (rm_members r). rp_player_id m \<noteq> rp_player_id p))"
    using gen assms(3)
    by (cases rule: expire_session_cases [of "rs_app s" c gen])
       (auto simp: drop_from_def without_def split: option.splits if_splits)
  ultimately show ?thesis using d by blast
qed

theorem offline_session_expires_witness:
  "\<exists>d gen (s :: room_sys). (d, 7, gen) \<in> set (rs_tasks s) \<and> d \<le> 15 \<and>
     ra_players (next_state (expire_session (rs_app s) 7 gen)) 7 = None"
proof -
  let ?s = "\<lparr>rs_app = demo_app, rs_now = 0, rs_tasks = []\<rparr>"
  let ?t = "?s\<lparr>rs_app := offline_app demo_app 7, rs_tasks := [(GRACE_SECS, 7, 1)]\<rparr>"
  obtain es where st: "room_step ?s es ?t"
    using disconnect_fresh(1) [of ?s 7 demo_7] by (auto simp: demo_room_lookup)
  have "ra_players (rs_app ?t) 7 = Some (demo_7\<lparr>rp_online := False\<rparr>)"
    using disconnect_fresh(2) [of ?s 7 demo_7] by (simp add: demo_room_lookup)
  from offline_session_expires [OF room_run.step [OF demo_reach st] _ this]
  have "(GRACE_SECS, 7, 1) \<in> set (rs_tasks ?t) \<and> GRACE_SECS \<le> 15 \<and>
      ra_players (next_state (expire_session (rs_app ?t) 7 1)) 7 = None"
    by (auto simp: Let_def GRACE_SECS_def)
  then show ?thesis by blast
qed

text \<open>
  No request to the room service panics, whatever the state, the message and what the
  profile store answers.
\<close>

lemma room_requests_never_panic:
  "\<not> panics (outcome_of (room_process codec env s req))"
proof -
  have 1: "\<not> panics (outcome_of (room_login s pr c name))" for pr c name
    by (simp add: room_login_def Let_def split: option.splits prod.splits)
  have 2: "\<not> panics (outcome_of (create_room s c name cap))" for c name cap
    by (rule create_room_cases [of s c name cap]) auto
  have 3: "\<not> panics (outcome_of (join_and_tell s c k))" for c k
    by (rule join_room_cases [of s c k]) (auto simp: join_and_tell_def)
  have 4: "\<not> panics (outcome_of (leave_room s c))" for c
    by (rule leave_room_cases [of s c]) auto
  have r: "\<not> panics (outcome_of h) \<Longrightarrow> \<not> panics (outcome_of (replying q enc h))" for q enc and h :: "room_resp room_handled"
    by (cases h; cases "fst h") (auto simp: replying_def)
  have a: "\<not> panics (outcome_of h) \<Longrightarrow> \<not> panics (outcome_of (answering q enc msg h))" for q enc msg and h :: "room_resp option room_handled"
    by (cases h; cases "fst h") (auto simp: answering_def)
  have l: "\<not> panics (outcome_of (case leave_room s c of (r, x) \<Rightarrow> (map_sum id f r, x)))"
    for c and f :: "bool \<Rightarrow> forward_reply"
    using 4 [of c] by (cases "leave_room s c"; cases "fst (leave_room s c)") auto
  show ?thesis
    by (auto simp: room_process_def refusing_def r a l 1 2 3 room_chat_def split: sum.splits)
qed

text \<open>
  A player who is in a room and joins another one that has a free place stays a member
  of the first: leaving and the end of the session take the player out of the second room
  only, so the first room keeps the dead member.
\<close>

lemma second_join_leaves_ghost:
  assumes "room_reach (room_new st sd nd) n es s" "n < 2 ^ 32 - 1"
    and "ra_players (rs_app s) c = Some p" "rp_room_id p \<noteq> 0" "k \<noteq> rp_room_id p"
    and "ra_rooms (rs_app s) k = Some r" "length (rm_members r) < unat (rm_capacity r)"
    and "s2 = next_state (join_room (rs_app s) c k)"
  shows "ra_players s2 c = Some (p\<lparr>rp_room_id := k\<rparr>) \<and>
     member_of (ra_rooms s2) k (rp_player_id p, c) \<and>
     member_of (ra_rooms s2) (rp_room_id p) (rp_player_id p, c) \<and>
     \<not> member_of (ra_rooms (next_state (leave_room s2 c))) k (rp_player_id p, c) \<and>
     member_of (ra_rooms (next_state (leave_room s2 c))) (rp_room_id p) (rp_player_id p, c) \<and>
     member_of (ra_rooms (next_state (expire_session s2 c gen))) (rp_room_id p) (rp_player_id p, c)"
proof -
  have inv: "room_inv (rs_app s)" using assms(1,2) by (rule reach_room_inv)
  have s2: "s2 = (rs_app s)\<lparr>ra_rooms := (ra_rooms (rs_app s))(k \<mapsto> r\<lparr>rm_members := rm_members r @ [p]\<rparr>),
      ra_players := (ra_players (rs_app s))(c \<mapsto> p\<lparr>rp_room_id := k\<rparr>)\<rparr>"
    using assms(3-8) by (cases rule: join_room_cases [of "rs_app s" c k]) auto
  from room_invD(1) [OF inv assms(3)] have c: "rp_conn_id p = c"
    and old: "member_of (ra_rooms (rs_app s)) (rp_room_id p) (rp_player_id p, c)"
    using assms(4) by (auto simp: player_ok_def)
  have p2: "ra_players s2 c = Some (p\<lparr>rp_room_id := k\<rparr>)" by (simp add: s2)
  have k2: "member_of (ra_rooms s2) k (rp_player_id p, c)" using c by (simp add: s2 member_of_def crew_def)
  have k1: "member_of (ra_rooms s2) (rp_room_id p) (rp_player_id p, c)"
    using old assms(5) by (simp add: s2 member_of_def)
  obtain r2 where r2: "ra_rooms s2 k = Some r2" by (simp add: s2)
  have lv: "ra_rooms (next_state (leave_room s2 c)) = drop_from (ra_rooms s2) k (rp_player_id p)"
    using p2 r2 by (cases rule: leave_room_cases [of s2 c]) (auto simp: leave_room_def set_room_id_def Let_def split: if_splits)
  have ex: "member_of (ra_rooms (next_state (expire_session s2 c gen))) (rp_room_id p) (rp_player_id p, c)"
    using p2 k1 assms(5)
    by (cases rule: expire_session_cases [of s2 c gen]) (auto simp: member_of_drop_from)
  show ?thesis using p2 k1 k2 assms(5) ex by (simp add: lv member_of_drop_from)
qed

lemma second_join_leaves_ghost_witness:
  "member_of (ra_rooms (next_state (leave_room (next_state (join_room demo_app 7 2)) 7))) 1 (1, 7)"
proof -
  obtain r where "ra_rooms demo_app 2 = Some r" "length (rm_members r) < unat (rm_capacity r)"
    using demo_room_lookup(5) by blast
  then show ?thesis
    using second_join_leaves_ghost [OF demo_reach, of 7 demo_7 2 r] by (simp add: demo_room_lookup)
qed

text \<open>
  The grace period can be cut short: from any reachable state with an online player, if
  the player disconnects, comes back after \<open>a\<close> seconds and disconnects again \<open>b\<close> seconds
  later (together less than the grace period), there is a run in which the session is gone
  only \<open>15 - a - b\<close> seconds after that last disconnect.  The clean-up task of the first
  disconnect was not cancelled: the second one has the same generation.
\<close>

lemma grace_period_cut_short:
  assumes "room_reach (room_new st sd nd) n es s" "n < 2 ^ 32 - 1"
    and "ra_players (rs_app s) c = Some p" "rp_online p" "a + b < GRACE_SECS"
  shows "\<exists>u1 n1 es1 u2 es2 u3 n3 es3.
     room_run s n1 es1 u1 \<and> ra_players (rs_app u1) c = Some p \<and> rs_now u1 = rs_now s + a + b \<and>
     room_step u1 es2 u2 \<and> ra_players (rs_app u2) c = Some (p\<lparr>rp_online := False\<rparr>) \<and>
     room_run u2 n3 es3 u3 \<and> rs_now u3 = rs_now u1 + (GRACE_SECS - a - b) \<and>
     ra_players (rs_app u3) c = None"
proof -
  have i: "pending_ok (ra_players (rs_app s)) (ra_pending (rs_app s))"
    using reach_room_inv [OF assms(1,2)] by (auto simp: room_inv_def)
  then have "ra_pending (rs_app s) c \<noteq> None
      \<longleftrightarrow> (\<exists>p. ra_players (rs_app s) c = Some p \<and> \<not> rp_online p)" by (simp add: pending_ok_def)
  with assms(3,4) have none: "ra_pending (rs_app s) c = None" by auto
  define v1 where "v1 = s\<lparr>rs_app := offline_app (rs_app s) c,
      rs_tasks := (rs_now s + GRACE_SECS, c, 1) # rs_tasks s\<rparr>"
  from disconnect_fresh(1) [OF assms(3) none] obtain e1 where e1: "room_step s e1 v1" by (auto simp: v1_def)
  define v2 where "v2 = v1\<lparr>rs_now := rs_now s + a\<rparr>"
  have r2: "room_run v1 a [] v2" using room_run_ticks [of v1 a] by (simp add: v2_def v1_def)
  have "ra_players (rs_app v2) c = Some (p\<lparr>rp_online := False\<rparr>)"
    using disconnect_fresh(2) [OF assms(3) none] by (simp add: v2_def v1_def)
  from connect_back [OF this] assms(4) obtain w where w: "room_step v2 [] (v2\<lparr>rs_app := w\<rparr>)"
    "ra_players w c = Some p" "ra_pending w c = None" by auto
  define u1 where "u1 = v2\<lparr>rs_app := w, rs_now := rs_now s + a + b\<rparr>"
  have "room_run (v2\<lparr>rs_app := w\<rparr>) b [] u1"
    using room_run_ticks [of "v2\<lparr>rs_app := w\<rparr>" b] by (simp add: u1_def v2_def)
  from room_run_trans [OF room_run_one [OF e1] room_run_trans [OF r2 room_run_trans [OF room_run_one [OF w(1)] this]]]
  have run1: "room_run s (1 + (a + (1 + b))) (e1 @ [] @ [] @ []) u1" .
  have u1: "ra_players (rs_app u1) c = Some p" "ra_pending (rs_app u1) c = None" "rs_now u1 = rs_now s + a + b"
    "(rs_now s + GRACE_SECS, c, 1) \<in> set (rs_tasks u1)"
    using w by (simp_all add: u1_def v2_def v1_def)
  define u2 where "u2 = u1\<lparr>rs_app := offline_app (rs_app u1) c,
      rs_tasks := (rs_now u1 + GRACE_SECS, c, 1) # rs_tasks u1\<rparr>"
  from disconnect_fresh(1) [OF u1(1,2)] obtain e2 where e2: "room_step u1 e2 u2" by (auto simp: u2_def)
  note u2 = disconnect_fresh(2,3) [OF u1(1,2)]
  define v3 where "v3 = u2\<lparr>rs_now := rs_now s + GRACE_SECS\<rparr>"
  have r3: "room_run u2 (GRACE_SECS - a - b) [] v3"
    using room_run_ticks [of u2 "GRACE_SECS - a - b"] assms(5) u1(3) by (simp add: v3_def u2_def)
  obtain q x es3 where ex: "expire_session (rs_app v3) c 1 = (q, x, es3)" by (cases "expire_session (rs_app v3) c 1")
  have st: "room_step v3 es3 (v3\<lparr>rs_app := x, rs_tasks := remove1 (rs_now s + GRACE_SECS, c, 1) (rs_tasks v3)\<rparr>)"
    using u1(4) ex by (intro room_step.wake) (auto simp: v3_def u2_def)
  have gone: "ra_players x c = None"
    using ex u2 by (cases rule: expire_session_cases [of "rs_app v3" c 1]) (auto simp: v3_def u2_def)
  show ?thesis
    using run1 u1 e2 u2 room_run_trans [OF r3 room_run_one [OF st]] gone assms(5)
    by (intro exI conjI) (assumption | simp add: v3_def u2_def)+
qed

lemma grace_period_cut_short_witness:
  "\<exists>u1 es2 u2 n3 es3 u3. room_step u1 es2 u2 \<and> room_run u2 n3 es3 u3 \<and> rs_now u3 = rs_now u1 + 1 \<and>
     ra_players (rs_app u1) 7 \<noteq> None \<and> ra_players (rs_app u3) 7 = None"
proof -
  have *: "rp_online demo_7" "ra_players (rs_app \<lparr>rs_app = demo_app, rs_now = 0, rs_tasks = []\<rparr>) 7 = Some demo_7"
    "1 + 13 < GRACE_SECS" "GRACE_SECS - 1 - 13 = 1"
    by (simp_all add: demo_room_lookup GRACE_SECS_def)
  obtain u1 es2 u2 n3 es3 u3 where "ra_players (rs_app u1) 7 = Some demo_7" "room_step u1 es2 u2"
    "room_run u2 n3 es3 u3" "rs_now u3 = rs_now u1 + (GRACE_SECS - 1 - 13)" "ra_players (rs_app u3) 7 = None"
    using grace_period_cut_short [OF demo_reach _ *(2,1,3)] by auto
  with *(4) show ?thesis
    by (intro exI [of _ u1] exI [of _ es2] exI [of _ u2] exI [of _ n3] exI [of _ es3] exI [of _ u3]) simp
qed

text \<open>
  A chat message goes to the connections of the members of the sender's room, once per
  member and to nobody else, with the sender's number and name and the room's number; a
  sender who is in a room gets it too.
\<close>

lemma chat_reaches_the_room:
  assumes "room_reach (room_new st sd nd) n es s" "n < 2 ^ 32 - 1"
    and "ra_players (rs_app s) c = Some p" "rp_room_id p \<noteq> 0"
  shows "\<exists>r. ra_rooms (rs_app s) (rp_room_id p) = Some r \<and> c \<in> set (map rp_conn_id (rm_members r)) \<and>
     room_chat (rs_app s) c body = (Inr RoomChatResp, rs_app s,
       map (\<lambda>to. PushTcp to ROOM_CHAT_PUSH (RoomChatPush (rp_room_id p) (rp_player_id p) (rp_name p) body))
           (map rp_conn_id (rm_members r)))"
proof -
  have inv: "room_inv (rs_app s)" using assms(1,2) by (rule reach_room_inv)
  from room_invD(1) [OF inv assms(3)] assms(4) obtain r where r: "ra_rooms (rs_app s) (rp_room_id p) = Some r"
    "(rp_player_id p, c) \<in> crew r"
    by (auto simp: player_ok_def member_of_def split: option.splits)
  from room_invD(2) [OF inv r(1)] have "rm_id r = rp_room_id p" by (simp add: room_ok_def)
  with r assms(3) show ?thesis
    by (intro exI [of _ r]) (auto simp: room_chat_def crew_def)
qed

lemma chat_reaches_the_room_witness:
  "snd (snd (room_chat demo_app 9 ''hi'')) = [PushTcp 9 ROOM_CHAT_PUSH (RoomChatPush 2 2 ''B'' ''hi'')]"
  using chat_reaches_the_room [OF demo_reach, of 9 _ "''hi''"] by (auto simp: demo_app_def)

end
