(* ===== verification/F32.thy ===== *)
theory F32
  imports Complex_Main Prelude
begin

text \<open>
  Rust's \<open>f32\<close>: IEEE 754 single precision with rounding to nearest, ties to even.

  A finite value is the rational number it stands for, so the two zeros are one value (no
  operation below tells them apart; a division by zero, which the source does not do, is by
  \<open>+0\<close>).  \<open>round_f32\<close> is the rounding every arithmetic operation ends with; the operations
  compute, so a concrete simulation step can be evaluated.
\<close>

section \<open>Rounding\<close>

datatype f32 = Fin rat | Inf bool | NaN      \<comment> \<open>\<open>Inf True\<close> is the negative infinity\<close>

definition pow2 :: "int \<Rightarrow> rat" where
  "pow2 e = (if 0 \<le> e then 2 ^ nat e else 1 / 2 ^ nat (- e))"

text \<open>The number of bits of a natural number.\<close>

fun bits :: "nat \<Rightarrow> nat" where
  "bits n = (if n = 0 then 0 else Suc (bits (n div 2)))"

declare bits.simps [simp del]

text \<open>The exponent \<open>e\<close> with \<open>2 ^ e \<le> q < 2 ^ (e + 1)\<close>, for \<open>0 < q\<close>.\<close>

definition exponent :: "rat \<Rightarrow> int" where
  "exponent q = (case quotient_of q of (a, b) \<Rightarrow>
     let k = int (bits (nat a)) - int (bits (nat b)) in if pow2 k \<le> q then k else k - 1)"

text \<open>The distance of neighbouring numbers around \<open>q\<close>: 24 bits of precision, denormals below.\<close>

definition quantum :: "int \<Rightarrow> rat" where
  "quantum e = pow2 (max (e - 23) (- 149))"

definition half_even :: "rat \<Rightarrow> int" where
  "half_even r = (let n = \<lfloor>r\<rfloor>; d = r - of_int n
     in if d < 1 / 2 then n else if 1 / 2 < d then n + 1 else if even n then n else n + 1)"

definition round_pos :: "rat \<Rightarrow> f32" where
  "round_pos q = (let u = quantum (exponent q); v = of_int (half_even (q / u)) * u
     in if pow2 128 \<le> v then Inf False else Fin v)"

definition neg_f32 :: "f32 \<Rightarrow> f32" where
  "neg_f32 x = (case x of Fin q \<Rightarrow> Fin (- q) | Inf s \<Rightarrow> Inf (\<not> s) | NaN \<Rightarrow> NaN)"

definition round_f32 :: "rat \<Rightarrow> f32" where
  "round_f32 q = (if q = 0 then Fin 0 else if 0 < q then round_pos q else neg_f32 (round_pos (- q)))"

section \<open>Operations\<close>

fun f32_add :: "f32 \<Rightarrow> f32 \<Rightarrow> f32" where
  "f32_add NaN y = NaN"
| "f32_add x NaN = NaN"
| "f32_add (Fin a) (Fin b) = round_f32 (a + b)"
| "f32_add (Fin a) (Inf t) = Inf t"
| "f32_add (Inf s) (Fin b) = Inf s"
| "f32_add (Inf s) (Inf t) = (if s = t then Inf s else NaN)"

fun f32_mul :: "f32 \<Rightarrow> f32 \<Rightarrow> f32" where
  "f32_mul NaN y = NaN"
| "f32_mul x NaN = NaN"
| "f32_mul (Fin a) (Fin b) = round_f32 (a * b)"
| "f32_mul (Fin a) (Inf t) = (if a = 0 then NaN else Inf ((a < 0) \<noteq> t))"
| "f32_mul (Inf s) (Fin b) = (if b = 0 then NaN else Inf (s \<noteq> (b < 0)))"
| "f32_mul (Inf s) (Inf t) = Inf (s \<noteq> t)"

fun f32_div :: "f32 \<Rightarrow> f32 \<Rightarrow> f32" where
  "f32_div NaN y = NaN"
| "f32_div x NaN = NaN"
| "f32_div (Fin a) (Fin b) =
     (if b = 0 then if a = 0 then NaN else Inf (a < 0) else round_f32 (a / b))"
| "f32_div (Fin a) (Inf t) = Fin 0"
| "f32_div (Inf s) (Fin b) = Inf (s \<noteq> (b < 0))"
| "f32_div (Inf s) (Inf t) = NaN"

text \<open>The integer square root, two bits at a time, and the correctly rounded \<open>f32::sqrt\<close>.\<close>

fun isqrt :: "nat \<Rightarrow> nat" where
  "isqrt n = (if n = 0 then 0
     else let r = 2 * isqrt (n div 4) in if (r + 1) * (r + 1) \<le> n then r + 1 else r)"

declare isqrt.simps [simp del]

definition sqrt_pos :: "rat \<Rightarrow> rat" where
  "sqrt_pos q =
     (let u = quantum (exponent q div 2); r = q / (u * u);
          n = int (isqrt (nat \<lfloor>r\<rfloor>)); m = (of_int n + 1 / 2) * (of_int n + 1 / 2)
      in of_int (if r < m then n else if m < r then n + 1 else if even n then n else n + 1) * u)"

fun f32_sqrt :: "f32 \<Rightarrow> f32" where
  "f32_sqrt NaN = NaN"
| "f32_sqrt (Inf s) = (if s then NaN else Inf False)"
| "f32_sqrt (Fin q) = (if q < 0 then NaN else if q = 0 then Fin 0 else Fin (sqrt_pos q))"

fun f32_less :: "f32 \<Rightarrow> f32 \<Rightarrow> bool" where
  "f32_less NaN y = False"
| "f32_less x NaN = False"
| "f32_less (Fin a) (Fin b) = (a < b)"
| "f32_less (Fin a) (Inf t) = (\<not> t)"
| "f32_less (Inf s) (Fin b) = s"
| "f32_less (Inf s) (Inf t) = (s \<and> \<not> t)"

text \<open>\<open>f32::clamp\<close>: a NaN passes both comparisons and stays.\<close>

definition f32_clamp :: "f32 \<Rightarrow> f32 \<Rightarrow> f32 \<Rightarrow> f32" where
  "f32_clamp x lo hi = (let y = if f32_less x lo then lo else x in if f32_less hi y then hi else y)"

section \<open>Facts\<close>

lemma pow2_pos [simp]: "0 < pow2 e"
  by (simp add: pow2_def)

lemma quantum_pos [simp]: "0 < quantum e"
  by (simp add: quantum_def)

lemma bits_bounds: "n < 2 ^ bits n \<and> (0 < n \<longrightarrow> 2 ^ bits n \<le> 2 * n)"
proof (induction n rule: bits.induct)
  case (1 n)
  show ?case
  proof (cases "n = 0")
    case False
    with 1 have b: "n div 2 < 2 ^ bits (n div 2)" "0 < n div 2 \<longrightarrow> 2 ^ bits (n div 2) \<le> 2 * (n div 2)"
      by auto
    have r: "bits n = Suc (bits (n div 2))" using False by (simp add: bits.simps [of n])
    show ?thesis
    proof (cases "n div 2 = 0")
      case True
      then have "n = 1" using False by auto
      then show ?thesis by (simp add: bits.simps)
    next
      case div: False
      with b have "2 ^ bits (n div 2) \<le> 2 * (n div 2)" "n div 2 + 1 \<le> 2 ^ bits (n div 2)" by auto
      then show ?thesis by (simp add: r) linarith
    qed
  qed (simp add: bits.simps)
qed

lemma pow2_diff: "pow2 (int m - int n) = 2 ^ m / 2 ^ n"
proof (cases "n \<le> m")
  case True
  then have "(2 :: rat) ^ m = 2 ^ (m - n) * 2 ^ n" by (simp add: power_add [symmetric])
  moreover have "nat (int m - int n) = m - n" using True by linarith
  ultimately show ?thesis using True by (simp add: pow2_def)
next
  case False
  then have "(2 :: rat) ^ n = 2 ^ (n - m) * 2 ^ m" by (simp add: power_add [symmetric])
  moreover have "nat (- (int m - int n)) = n - m" using False by linarith
  ultimately show ?thesis using False by (simp add: pow2_def)
qed

lemma pow2_Suc: "pow2 (e + 1) = 2 * pow2 e"
proof (cases "0 \<le> e")
  case True
  then show ?thesis by (simp add: pow2_def nat_add_distrib)
next
  case False
  define n where "n = nat (- e - 1)"
  with False have "nat (- e) = Suc n" "e + 1 = - int n" by simp_all
  with False show ?thesis by (cases "n = 0") (simp_all add: pow2_def)
qed

text \<open>\<open>exponent\<close> is the binary exponent.\<close>

lemma exponent_bounds:
  assumes "0 < q"
  shows "pow2 (exponent q) \<le> q" "q < pow2 (exponent q + 1)"
proof -
  obtain a b where ab: "quotient_of q = (a, b)" by (cases "quotient_of q")
  have b: "0 < b" and q: "q = of_int a / of_int b"
    using quotient_of_denom_pos [OF ab] quotient_of_div [OF ab] by auto
  with assms have a: "0 < a" by (simp add: zero_less_divide_iff)
  define m n k where "m = bits (nat a)" and "n = bits (nat b)" and "k = int m - int n"
  have "nat a < 2 ^ m" "2 ^ m \<le> 2 * nat a" "nat b < 2 ^ n" "2 ^ n \<le> 2 * nat b"
    using bits_bounds [of "nat a"] bits_bounds [of "nat b"] a b by (auto simp: m_def n_def)
  then have "int (nat a) < int (2 ^ m)" "int (2 ^ m) \<le> int (2 * nat a)"
    "int (nat b) < int (2 ^ n)" "int (2 ^ n) \<le> int (2 * nat b)"
    by (simp_all only: of_nat_less_iff of_nat_le_iff)
  then have "a < 2 ^ m" "2 ^ m \<le> 2 * a" "b < 2 ^ n" "2 ^ n \<le> 2 * b" using a b by simp_all
  then have "(of_int a :: rat) < of_int (2 ^ m)" "(of_int (2 ^ m) :: rat) \<le> of_int (2 * a)"
    "(of_int b :: rat) < of_int (2 ^ n)" "(of_int (2 ^ n) :: rat) \<le> of_int (2 * b)"
    by (simp_all only: of_int_less_iff of_int_le_iff)
  then have r: "of_int a < (2 :: rat) ^ m" "(2 :: rat) ^ m \<le> 2 * of_int a"
    "of_int b < (2 :: rat) ^ n" "(2 :: rat) ^ n \<le> 2 * of_int b"
    by simp_all
  have pos: "(0 :: rat) < of_int a" "(0 :: rat) < of_int b" using a b by simp_all
  have "q * 2 ^ n < 2 * (2 :: rat) ^ m"
  proof -
    have "q * 2 ^ n \<le> q * (2 * of_int b)" using r(4) assms by (intro mult_left_mono) auto
    also have "\<dots> = 2 * of_int a" using pos by (simp add: q)
    also have "\<dots> < 2 * 2 ^ m" using r(1) by simp
    finally show ?thesis .
  qed
  then have up: "q < pow2 (k + 1)" unfolding pow2_Suc k_def pow2_diff by (simp add: field_simps)
  have "(2 :: rat) ^ m < 2 * (q * 2 ^ n)"
  proof -
    have "(2 :: rat) ^ m \<le> 2 * of_int a" by (rule r(2))
    also have "\<dots> = 2 * (q * of_int b)" using pos by (simp add: q)
    also have "\<dots> < 2 * (q * 2 ^ n)" using r(3) assms by simp
    finally show ?thesis .
  qed
  then have "pow2 k < 2 * q" by (simp add: k_def pow2_diff field_simps)
  then have low: "pow2 (k - 1) \<le> q" using pow2_Suc [of "k - 1"] by simp
  have e: "exponent q = (if pow2 k \<le> q then k else k - 1)"
    by (simp add: exponent_def ab m_def n_def k_def Let_def)
  show "pow2 (exponent q) \<le> q" "q < pow2 (exponent q + 1)"
    using up low by (auto simp: e)
qed

lemma pow2_add: "pow2 (e + int n) = 2 ^ n * pow2 e"
proof (induction n)
  case (Suc n)
  have "pow2 (e + int (Suc n)) = pow2 ((e + int n) + 1)" by (simp add: algebra_simps)
  with Suc show ?case by (simp only: pow2_Suc) simp
qed simp

lemma pow2_mono: "e \<le> f \<Longrightarrow> pow2 e \<le> pow2 f"
proof -
  assume "e \<le> f"
  then obtain n where f: "f = e + int n" by (metis zle_iff_zadd)
  have "1 * pow2 e \<le> 2 ^ n * pow2 e" by (rule mult_right_mono) (simp_all add: less_imp_le)
  then show ?thesis by (simp add: f pow2_add)
qed

text \<open>The bounds determine the exponent, so it can be given instead of computed.\<close>

lemma exponent_eq:
  assumes "pow2 e \<le> q" "q < pow2 (e + 1)"
  shows "exponent q = e"
proof (rule antisym; rule ccontr)
  have q: "0 < q" using assms(1) pow2_pos [of e] by linarith
  { assume "\<not> exponent q \<le> e"
    then have "pow2 (e + 1) \<le> pow2 (exponent q)" by (intro pow2_mono) simp
    with exponent_bounds(1) [OF q] assms(2) show False by linarith }
  { assume "\<not> e \<le> exponent q"
    then have "pow2 (exponent q + 1) \<le> pow2 e" by (intro pow2_mono) simp
    with exponent_bounds(2) [OF q] assms(1) show False by linarith }
qed

lemma quantum_nonzero [simp]: "quantum e \<noteq> 0"
  using quantum_pos [of e] by linarith

lemma isqrt_bounds: "isqrt n * isqrt n \<le> n \<and> n < (isqrt n + 1) * (isqrt n + 1)"
proof (induction n rule: isqrt.induct)
  case (1 n)
  show ?case
  proof (cases "n = 0")
    case False
    define s where "s = isqrt (n div 4)"
    from 1 False have b: "s * s \<le> n div 4" "n div 4 < (s + 1) * (s + 1)" by (auto simp: s_def)
    from b(1) have l: "4 * (s * s) \<le> n" by linarith
    from b(2) have "n div 4 + 1 \<le> (s + 1) * (s + 1)" by simp
    then have u: "n < 4 * ((s + 1) * (s + 1))" by linarith
    have r: "isqrt n = (if (2 * s + 1) * (2 * s + 1) \<le> n then 2 * s + 1 else 2 * s)"
      using False by (simp add: isqrt.simps [of n] s_def Let_def)
    have eqs: "4 * ((s + 1) * (s + 1)) = (2 * s + 1 + 1) * (2 * s + 1 + 1)" "4 * (s * s) = (2 * s) * (2 * s)"
      by (simp_all add: algebra_simps)
    note lu = l [unfolded eqs] u [unfolded eqs]
    show ?thesis
    proof (cases "(2 * s + 1) * (2 * s + 1) \<le> n")
      case True
      then have e: "isqrt n = 2 * s + 1" using r by simp
      show ?thesis unfolding e using True lu(2) by blast
    next
      case False
      then have e: "isqrt n = 2 * s" using r by simp
      show ?thesis unfolding e using False lu(1) not_le by blast
    qed
  qed (simp add: isqrt.simps)
qed

lemma isqrt_unique:
  assumes "r * r \<le> n" "n < (r + 1) * (r + 1)"
  shows "isqrt n = r"
proof (rule antisym; rule ccontr)
  note b = isqrt_bounds [of n]
  { assume "\<not> isqrt n \<le> r"
    then have "r + 1 \<le> isqrt n" by simp
    from mult_le_mono [OF this this] have "(r + 1) * (r + 1) \<le> isqrt n * isqrt n" .
    with b assms(2) show False by linarith }
  { assume "\<not> r \<le> isqrt n"
    then have "isqrt n + 1 \<le> r" by simp
    from mult_le_mono [OF this this] have "(isqrt n + 1) * (isqrt n + 1) \<le> r * r" .
    with b assms(1) show False by linarith }
qed

lemma half_even_close: "\<bar>of_int (half_even r) - r\<bar> \<le> 1 / 2"
proof -
  have "of_int \<lfloor>r\<rfloor> \<le> r" "r < of_int \<lfloor>r\<rfloor> + 1" using floor_correct [of r] by simp_all
  then show ?thesis by (auto simp: half_even_def Let_def abs_le_iff)
qed

lemma half_even_int [simp]: "half_even (of_int n) = n"
  by (simp add: half_even_def)

lemma half_even_nonneg: "0 \<le> r \<Longrightarrow> 0 \<le> half_even r"
  by (auto simp: half_even_def Let_def)

text \<open>A rounded result is within half a unit in the last place.\<close>

lemma round_pos_error:
  assumes "round_pos q = Fin v"
  shows "\<bar>v - q\<bar> \<le> quantum (exponent q) / 2"
proof -
  let ?u = "quantum (exponent q)"
  have v: "v = of_int (half_even (q / ?u)) * ?u"
    using assms by (auto simp: round_pos_def Let_def split: if_splits)
  have u: "0 < ?u" by simp
  have q: "q = q / ?u * ?u" by simp
  have "v - q = (of_int (half_even (q / ?u)) - q / ?u) * ?u"
    using u by (simp add: v left_diff_distrib)
  then have "\<bar>v - q\<bar> = \<bar>of_int (half_even (q / ?u)) - q / ?u\<bar> * \<bar>?u\<bar>"
    by (simp only: abs_mult)
  also have "\<dots> = \<bar>of_int (half_even (q / ?u)) - q / ?u\<bar> * ?u"
    using u by (simp only: abs_of_pos)
  also have "\<dots> \<le> 1 / 2 * ?u"
    using half_even_close [of "q / ?u"] u by (intro mult_right_mono less_imp_le [OF u]) simp_all
  finally show ?thesis by simp
qed

lemma round_f32_eval:
  assumes "pow2 e \<le> q" "q < pow2 (e + 1)" "\<lfloor>q / quantum e\<rfloor> = n"
    "q / quantum e - of_int n < 1 / 2 \<and> m = n \<or> 1 / 2 < q / quantum e - of_int n \<and> m = n + 1"
    "of_int m * quantum e < pow2 128"
  shows "round_f32 q = Fin (of_int m * quantum e)"
proof -
  have q: "0 < q" using assms(1) pow2_pos [of e] by linarith
  have "half_even (q / quantum e) = m" using assms(3,4) by (auto simp: half_even_def Let_def)
  with q exponent_eq [OF assms(1,2)] assms(5) show ?thesis
    by (simp add: round_f32_def round_pos_def Let_def)
qed

lemma round_f32_not_NaN [simp]: "round_f32 q \<noteq> NaN"
  by (auto simp: round_f32_def round_pos_def neg_f32_def Let_def)

lemma round_f32_cases:
  obtains v where "round_f32 q = Fin v" "0 \<le> q \<Longrightarrow> 0 \<le> v" | "round_f32 q = Inf (q < 0)" "q \<noteq> 0"
proof -
  have pos: "\<exists>v. round_pos r = Fin v \<and> 0 \<le> v" if "round_pos r \<noteq> Inf False" "0 < r" for r
  proof -
    have "0 \<le> half_even (r / quantum (exponent r))"
      using that(2) by (intro half_even_nonneg) (simp add: less_imp_le)
    then have "0 \<le> of_int (half_even (r / quantum (exponent r))) * quantum (exponent r)"
      by (simp add: less_imp_le)
    with that(1) show ?thesis by (auto simp: round_pos_def Let_def split: if_splits)
  qed
  have dec: "round_pos r = Inf False \<or> (\<exists>v. round_pos r = Fin v)" for r
    by (auto simp: round_pos_def Let_def)
  consider "q = 0" | "0 < q" | "q < 0" by linarith
  then show thesis
  proof cases
    case 1 then show thesis by (intro that(1) [of 0]) (simp_all add: round_f32_def)
  next
    case 2
    then show thesis
      using that pos [of q] by (cases "round_pos q = Inf False") (auto simp: round_f32_def)
  next
    case 3
    then show thesis
      using that dec [of "- q"] by (auto simp: round_f32_def neg_f32_def)
  qed
qed

text \<open>Clamping anything but a NaN gives a value between the (finite) bounds.\<close>

lemma f32_clamp_range:
  assumes "x \<noteq> NaN" "lo \<le> hi"
  shows "\<exists>v. f32_clamp x (Fin lo) (Fin hi) = Fin v \<and> lo \<le> v \<and> v \<le> hi"
  using assms by (cases x) (auto simp: f32_clamp_def Let_def not_less)

lemma f32_clamp_NaN [simp]: "f32_clamp NaN lo hi = NaN"
  by (cases hi) (simp_all add: f32_clamp_def)

lemma f32_add_NaN [simp]: "f32_add x NaN = NaN"
  by (cases x) auto

lemma f32_mul_NaN [simp]: "f32_mul x NaN = NaN"
  by (cases x) auto

end
