(* ===== verification/Battle.thy ===== *)
theory Battle
  imports F32 SvcFw
begin

text \<open>
  The crate \<open>grimoire-battle-svc\<close>: the real-time battle in lock step.

  \<^item> \<open>battle\<close> is one battle with its queued inputs and its ring of snapshots; the operations of
    \<open>impl Battle\<close> follow in the code's order.  The players' map is an association list without
    duplicate keys; the order in which \<open>players.values()\<close> visits it is the argument \<open>it\<close>.
  \<^item> \<open>battle_app\<close> is the service's state with the operations of \<open>impl App\<close>, \<open>battle_process\<close> the
    dispatch.  \<open>battle_join\<close> is split between the choice of a battle and the entry, as the
    code holds no lock in between.
\<close>

section \<open>One battle\<close>

definition FRAME_RATE :: u32 where "FRAME_RATE = 20"
definition SPEED :: f32 where "SPEED = Fin 8"
definition FIELD :: f32 where "FIELD = Fin 100"
definition BATTLE_CAPACITY :: nat where "BATTLE_CAPACITY = 2"
definition INPUT_DELAY_FRAMES :: u64 where "INPUT_DELAY_FRAMES = 2"
definition SNAPSHOT_RING :: nat where "SNAPSHOT_RING = 30"

record bplayer =
  bp_player_id :: u32
  bp_x :: f32
  bp_y :: f32
  bp_conn_id :: u32

record battle_player =
  vp_player_id :: u32
  vp_x :: f32
  vp_y :: f32
  vp_score :: u32

definition proto :: "bplayer \<Rightarrow> battle_player" where
  "proto p = \<lparr>vp_player_id = bp_player_id p, vp_x = bp_x p, vp_y = bp_y p, vp_score = 0\<rparr>"

record battle =
  bt_id :: u32
  bt_frame :: u64
  bt_players :: "(u32 \<times> bplayer) list"
  bt_pending :: "u64 \<rightharpoonup> (u32 \<times> f32 \<times> f32) list"
  bt_ring :: "(u64 \<times> battle_player list) list"

definition battle_new :: "u32 \<Rightarrow> battle" where
  "battle_new bid = \<lparr>bt_id = bid, bt_frame = 0, bt_players = [], bt_pending = Map.empty, bt_ring = []\<rparr>"

definition battle_add_player :: "battle \<Rightarrow> bplayer \<Rightarrow> battle" where
  "battle_add_player b p =
     (let (x, y) = (if length (bt_players b) = 0 then (Fin 25, Fin 50) else (Fin 75, Fin 50))
      in b\<lparr>bt_players := AList.update (bp_player_id p) (p\<lparr>bp_x := x, bp_y := y\<rparr>) (bt_players b)\<rparr>)"

definition remove_player :: "battle \<Rightarrow> u32 \<Rightarrow> battle" where
  "remove_player b player_id =
     b\<lparr>bt_players := AList.delete player_id (bt_players b),
       bt_pending := (\<lambda>k. map_option (filter (\<lambda>(pid, _, _). pid \<noteq> player_id)) (bt_pending b k))\<rparr>"

definition battle_is_full :: "battle \<Rightarrow> bool" where
  "battle_is_full b \<longleftrightarrow> BATTLE_CAPACITY \<le> length (bt_players b)"

definition input_target :: "u64 \<Rightarrow> u64 \<Rightarrow> u64" where
  "input_target now frame = max (saturating_add frame INPUT_DELAY_FRAMES) (now + 1)"

definition battle_queue :: "battle \<Rightarrow> u32 \<Rightarrow> f32 \<Rightarrow> f32 \<Rightarrow> u64 \<Rightarrow> battle" where
  "battle_queue b player_id dx dy frame =
     (let target = input_target (bt_frame b) frame;
          queued = (case bt_pending b target of Some is \<Rightarrow> is | None \<Rightarrow> [])
      in b\<lparr>bt_pending := (bt_pending b)(target \<mapsto> queued @ [(player_id, dx, dy)])\<rparr>)"

text \<open>\<open>1.0 / FRAME_RATE as f32\<close>: 20 is exact.\<close>

definition frame_dt :: f32 where
  "frame_dt = f32_div (Fin 1) (Fin (of_int (uint FRAME_RATE)))"

definition MIN_NORM :: f32 where
  "MIN_NORM = round_f32 (1 / 1000000)"

text \<open>One input applied to one player.\<close>

definition axis_step :: "f32 \<Rightarrow> f32 \<Rightarrow> f32 \<Rightarrow> f32" where
  "axis_step pos d nrm =
     f32_clamp (f32_add pos (f32_mul (f32_mul (f32_div d nrm) SPEED) frame_dt)) (Fin 0) FIELD"

definition move_player :: "bplayer \<Rightarrow> f32 \<Rightarrow> f32 \<Rightarrow> bplayer" where
  "move_player p dx dy =
     (let nrm = f32_sqrt (f32_add (f32_mul dx dx) (f32_mul dy dy))
      in if f32_less MIN_NORM nrm
         then p\<lparr>bp_x := axis_step (bp_x p) dx nrm, bp_y := axis_step (bp_y p) dy nrm\<rparr>
         else p)"

fun apply_inputs :: "(u32 \<times> f32 \<times> f32) list \<Rightarrow> (u32 \<times> bplayer) list \<Rightarrow> (u32 \<times> bplayer) list" where
  "apply_inputs [] ps = ps"
| "apply_inputs ((pid, dx, dy) # is) ps =
     apply_inputs is (case map_of ps pid of
       Some p \<Rightarrow> AList.update pid (move_player p dx dy) ps | None \<Rightarrow> ps)"

text \<open>The players as \<open>values()\<close> yields them, in the visiting order \<open>it\<close>.\<close>

definition values_of :: "u32 list \<Rightarrow> (u32 \<times> bplayer) list \<Rightarrow> bplayer list" where
  "values_of it ps = map snd (entries it (map_of ps))"

definition tick_frame :: "battle \<Rightarrow> u32 list \<Rightarrow> battle" where
  "tick_frame b it =
     (let (players, pending) =
            (case bt_pending b (bt_frame b) of
               Some inputs \<Rightarrow> (apply_inputs inputs (bt_players b), (bt_pending b)(bt_frame b := None))
             | None \<Rightarrow> (bt_players b, bt_pending b));
          frame = bt_frame b + 1;
          ring = bt_ring b @ [(frame, map proto (values_of it players))]
      in b\<lparr>bt_players := players, bt_pending := pending, bt_frame := frame,
           bt_ring := (if SNAPSHOT_RING < length ring then tl ring else ring)\<rparr>)"

record frame_sync =
  fs_frame :: u64
  fs_battle_id :: u32
  fs_players :: "battle_player list"

definition resync :: "battle \<Rightarrow> u64 \<Rightarrow> frame_sync list" where
  "resync b last_frame =
     map (\<lambda>(f, ps). \<lparr>fs_frame = f, fs_battle_id = bt_id b, fs_players = ps\<rparr>)
         (filter (\<lambda>(f, _). last_frame < f) (bt_ring b))"

definition battle_snapshot :: "battle \<Rightarrow> u32 list \<Rightarrow> frame_sync" where
  "battle_snapshot b it =
     \<lparr>fs_frame = bt_frame b, fs_battle_id = bt_id b, fs_players = map proto (values_of it (bt_players b))\<rparr>"

section \<open>The service\<close>

record battle_app =
  ba_battles :: "u32 \<rightharpoonup> battle"
  ba_conn_battle :: "u32 \<rightharpoonup> u32 \<times> u32"
  ba_next_player :: u32
  ba_next_battle :: u32
  ba_session_dir :: bool
  ba_node_id :: string

definition battle_app_new :: "bool \<Rightarrow> string \<Rightarrow> battle_app" where
  "battle_app_new session_dir node_id =
     \<lparr>ba_battles = Map.empty, ba_conn_battle = Map.empty, ba_next_player = 1, ba_next_battle = 1,
      ba_session_dir = session_dir, ba_node_id = node_id\<rparr>"

datatype battle_resp =
    BattleJoinResp u32 u32 u32 "battle_player list"
  | BattleInputResp
  | BattleResyncResp "frame_sync list"
  | BattleLeaveResp

datatype battle_push = FrameSyncPush frame_sync

type_synonym 'r battle_handled = "('r, battle_app, battle_push) handled"

definition join_resp :: "u32 \<Rightarrow> u32 \<Rightarrow> battle \<Rightarrow> u32 list \<Rightarrow> battle_resp" where
  "join_resp battle_id player_id b it =
     BattleJoinResp battle_id player_id FRAME_RATE (map proto (values_of it (bt_players b)))"

text \<open>The first battle, in visiting order, with a free place.\<close>

definition find_open :: "battle_app \<Rightarrow> u32 list \<Rightarrow> u32 option" where
  "find_open app bids_it =
     map_option fst (find (\<lambda>(bid, b). length (bt_players b) < BATTLE_CAPACITY) (entries bids_it (ba_battles app)))"

definition battle_directory :: "battle_app \<Rightarrow> u32 \<Rightarrow> bool \<Rightarrow> bool \<Rightarrow> battle_push effect list" where
  "battle_directory app target_id created_new full =
     (if ba_session_dir app
      then [DirBind DOMAIN_BATTLE target_id (ba_node_id app)]
           @ (if created_new then [LobbySet DOMAIN_BATTLE target_id] else [])
           @ (if full then [LobbyClear DOMAIN_BATTLE target_id] else [])
      else [])"

text \<open>The entry into the battle chosen before, or into a new one.\<close>

definition join_enter :: "battle_app \<Rightarrow> u32 \<Rightarrow> u32 option \<Rightarrow> u32 list \<Rightarrow> battle_resp battle_handled" where
  "join_enter app conn_id target it =
     (let created_new = (target = None);
          (target_id, app1) =
            (case target of
               Some bid \<Rightarrow> (bid, app)
             | None \<Rightarrow> (ba_next_battle app,
                 app\<lparr>ba_next_battle := ba_next_battle app + 1,
                     ba_battles := (ba_battles app)(ba_next_battle app \<mapsto> battle_new (ba_next_battle app))\<rparr>));
          player_id = ba_next_player app1;
          app2 = app1\<lparr>ba_next_player := player_id + 1\<rparr>
      in case ba_battles app2 target_id of
           None \<Rightarrow> (Inl UnwrapNone, app2, [])
         | Some b \<Rightarrow>
             let b' = battle_add_player b \<lparr>bp_player_id = player_id, bp_x = Fin 0, bp_y = Fin 0, bp_conn_id = conn_id\<rparr>;
                 app3 = app2\<lparr>ba_battles := (ba_battles app2)(target_id \<mapsto> b'),
                             ba_conn_battle := (ba_conn_battle app2)(conn_id \<mapsto> (target_id, player_id))\<rparr>
             in (Inr (join_resp target_id player_id b' it), app3,
                 battle_directory app3 target_id created_new (battle_is_full b')))"

definition join_existing :: "battle_app \<Rightarrow> u32 \<Rightarrow> u32 list \<Rightarrow> battle_resp option" where
  "join_existing app conn_id it =
     (case ba_conn_battle app conn_id of
        Some (bid, pid) \<Rightarrow> map_option (\<lambda>b. join_resp bid pid b it) (ba_battles app bid)
      | None \<Rightarrow> None)"

definition battle_join :: "battle_app \<Rightarrow> u32 \<Rightarrow> u32 list \<Rightarrow> u32 list \<Rightarrow> battle_resp battle_handled" where
  "battle_join app conn_id bids_it it =
     (case join_existing app conn_id it of
        Some r \<Rightarrow> (Inr r, app, [])
      | None \<Rightarrow> join_enter app conn_id (find_open app bids_it) it)"

definition battle_input :: "battle_app \<Rightarrow> u32 \<Rightarrow> f32 \<Rightarrow> f32 \<Rightarrow> u64 \<Rightarrow> bool battle_handled" where
  "battle_input app conn_id dx dy frame =
     (case ba_conn_battle app conn_id of
        None \<Rightarrow> (Inr False, app, [])
      | Some (bid, pid) \<Rightarrow>
          (case ba_battles app bid of
             None \<Rightarrow> (Inr False, app, [])
           | Some b \<Rightarrow> (Inr True, app\<lparr>ba_battles := (ba_battles app)(bid \<mapsto> battle_queue b pid dx dy frame)\<rparr>, [])))"

definition battle_resync :: "battle_app \<Rightarrow> u32 \<Rightarrow> u64 \<Rightarrow> frame_sync list option" where
  "battle_resync app conn_id last_frame =
     (case ba_conn_battle app conn_id of
        None \<Rightarrow> None
      | Some (bid, _) \<Rightarrow> map_option (\<lambda>b. resync b last_frame) (ba_battles app bid))"

definition battle_leave :: "battle_app \<Rightarrow> u32 \<Rightarrow> bool battle_handled" where
  "battle_leave app conn_id =
     (case ba_conn_battle app conn_id of
        None \<Rightarrow> (Inr False, app, [])
      | Some (bid, pid) \<Rightarrow>
          let app1 = app\<lparr>ba_conn_battle := (ba_conn_battle app)(conn_id := None)\<rparr>
          in case ba_battles app1 bid of
               None \<Rightarrow> (Inr True, app1, [])
             | Some b \<Rightarrow>
                 let b' = remove_player b pid;
                     app2 = app1\<lparr>ba_battles := (ba_battles app1)(bid \<mapsto> b')\<rparr>
                 in if bt_players b' = []
                    then (Inr True, app2\<lparr>ba_battles := (ba_battles app2)(bid := None)\<rparr>,
                          if ba_session_dir app then [DirRemove DOMAIN_BATTLE bid] else [])
                    else if length (bt_players b') = 1
                    then (Inr True, app2, if ba_session_dir app then [LobbySet DOMAIN_BATTLE bid] else [])
                    else (Inr True, app2, []))"

text \<open>
  One beat of the 20 Hz loop: every battle, in visiting order \<open>bids_it\<close>, is advanced and its
  snapshot pushed to its players; \<open>its\<close> gives the visiting order of each battle's players.
\<close>

definition tick_pushes :: "battle \<Rightarrow> u32 list \<Rightarrow> battle_push effect list" where
  "tick_pushes b it =
     map (\<lambda>p. PushUdp (bp_conn_id p) BATTLE_FRAME_SYNC (FrameSyncPush (battle_snapshot b it)))
         (values_of it (bt_players b))"

fun tick_battles :: "battle_app \<Rightarrow> u32 list \<Rightarrow> (u32 \<Rightarrow> u32 list) \<Rightarrow> battle_app \<times> battle_push effect list" where
  "tick_battles app [] its = (app, [])"
| "tick_battles app (bid # bids) its =
     (case ba_battles app bid of
        None \<Rightarrow> tick_battles app bids its
      | Some b \<Rightarrow>
          let b' = tick_frame b (its bid);
              app' = app\<lparr>ba_battles := (ba_battles app)(bid \<mapsto> b')\<rparr>
          in (case tick_battles app' bids its of
                (app'', es) \<Rightarrow> (app'', tick_pushes b' (its bid) @ es)))"

definition battle_tick :: "battle_app \<Rightarrow> u32 list \<Rightarrow> (u32 \<Rightarrow> u32 list) \<Rightarrow> unit battle_handled" where
  "battle_tick app bids_it its = (Inr (), tick_battles app bids_it its)"

section \<open>Dispatch\<close>

record battle_codec =
  bc_dec_join :: "bytes \<Rightarrow> string + unit"
  bc_dec_input :: "bytes \<Rightarrow> string + f32 \<times> f32 \<times> u64"
  bc_dec_resync :: "bytes \<Rightarrow> string + u64"
  bc_enc :: "battle_resp \<Rightarrow> bytes"

definition msg_not_in_battle :: string where
  "msg_not_in_battle = utf8 [0xE6, 0x9C, 0xAA, 0xE5, 0x9C, 0xA8, 0xE5, 0xAF, 0xB9, 0xE5, 0xB1, 0x80,
     0xE4, 0xB8, 0xAD]"

type_synonym battle_env = "u32 list \<times> u32 list"

definition battle_process :: "battle_codec \<Rightarrow> battle_env \<Rightarrow> battle_app \<Rightarrow> forward_request \<Rightarrow>
    forward_reply battle_handled" where
  "battle_process c env app req =
     (if fq_msg_id req = BATTLE_JOIN then
        (case bc_dec_join c (fq_payload req) of
           Inr _ \<Rightarrow> replying req (bc_enc c) (battle_join app (fq_conn_id req) (fst env) (snd env))
         | Inl e \<Rightarrow> refusing req (bad_payload e) app)
      else if fq_msg_id req = BATTLE_INPUT then
        (case bc_dec_input c (fq_payload req) of
           Inr (dx, dy, frame) \<Rightarrow>
             replying req (\<lambda>_. bc_enc c BattleInputResp) (battle_input app (fq_conn_id req) dx dy frame)
         | Inl e \<Rightarrow> refusing req (bad_payload e) app)
      else if fq_msg_id req = BATTLE_RESYNC then
        (case bc_dec_resync c (fq_payload req) of
           Inr last_frame \<Rightarrow>
             (case battle_resync app (fq_conn_id req) last_frame of
                Some frames \<Rightarrow> (Inr (reply_ok req (bc_enc c (BattleResyncResp frames))), app, [])
              | None \<Rightarrow> refusing req msg_not_in_battle app)
         | Inl e \<Rightarrow> refusing req (bad_payload e) app)
      else if fq_msg_id req = BATTLE_LEAVE then
        replying req (\<lambda>_. bc_enc c BattleLeaveResp) (battle_leave app (fq_conn_id req))
      else refusing req (unknown_msg req) app)"

definition battle_player_connected :: "battle_app \<Rightarrow> u32 \<Rightarrow> bool battle_handled" where
  "battle_player_connected app conn_id = (Inr True, app, [])"

definition battle_player_disconnected :: "battle_app \<Rightarrow> u32 \<Rightarrow> bool battle_handled" where
  "battle_player_disconnected app conn_id =
     (case battle_leave app conn_id of (r, app', es) \<Rightarrow> (map_sum id (\<lambda>_. True) r, app', es))"

interpretation battle_bridge: service_bridge "battle_process c"
    "\<lambda>m. m \<in> {BATTLE_JOIN, BATTLE_INPUT, BATTLE_RESYNC, BATTLE_LEAVE}" for c
proof unfold_locales
  fix env s req rep s' es
  assume "battle_process c env s req = (Inr rep, s', es)"
  then show "echoes req rep"
    by (auto simp: battle_process_def refusing_def split: if_splits sum.splits prod.splits option.splits
          dest: replying_echoes)
qed (auto simp: battle_process_def)

text \<open>The stream of a gateway, and what its contract says of the replies on it.\<close>

definition battle_stream :: "battle_codec \<Rightarrow> battle_app \<Rightarrow> (battle_env \<times> forward_request) list \<Rightarrow>
    forward_reply list \<times> battle_app \<times> battle_push effect list" where
  "battle_stream c app reqs = serve_stream (battle_process c) app reqs"

lemma battle_stream_replies:
  "battle_stream c app reqs = (reps, app', es) \<Longrightarrow>
   length reps \<le> length reqs \<and> list_all2 echoes (take (length reps) (map snd reqs)) reps"
  unfolding battle_stream_def by (rule battle_bridge.stream_replies)

end
