(* ===== verification/Battle_Safety.thy ===== *)
theory Battle_Safety
  imports Battle
begin

text \<open>
  What the battle service keeps true.  \<open>battle_step\<close> is the service as a state machine;
  \<open>battle_inv n\<close> is its invariant after \<open>n\<close> events: one or two players per battle, no input
  queued for a past frame, a ring of consecutive snapshots, and, as long as clients send
  finite directions, positions inside the field.
\<close>

section \<open>Moving\<close>

definition finite_f32 :: "f32 \<Rightarrow> bool" where
  "finite_f32 x \<longleftrightarrow> (case x of Fin _ \<Rightarrow> True | _ \<Rightarrow> False)"

definition in_field :: "f32 \<Rightarrow> bool" where
  "in_field x \<longleftrightarrow> (case x of Fin q \<Rightarrow> 0 \<le> q \<and> q \<le> 100 | _ \<Rightarrow> False)"

definition on_field :: "bplayer \<Rightarrow> bool" where
  "on_field p \<longleftrightarrow> in_field (bp_x p) \<and> in_field (bp_y p)"

lemma frame_dt_value: "frame_dt = Fin (13421773 / 268435456)"
  by code_simp

lemma MIN_NORM_value: "MIN_NORM = Fin (8796093 / 8796093022208)"
proof -
  have "exponent (1 / 1000000) = - 20" by (rule exponent_eq) (simp_all add: pow2_def)
  moreover have "\<lfloor>137438953472 / 15625 :: rat\<rfloor> = 8796093" by (rule floor_unique) simp_all
  ultimately show ?thesis
    by (simp add: MIN_NORM_def round_f32_def round_pos_def quantum_def pow2_def half_even_def Let_def)
qed

lemma square_sum:
  assumes "finite_f32 dx" "finite_f32 dy"
  obtains m where "f32_sqrt (f32_add (f32_mul dx dx) (f32_mul dy dy)) = Fin m"
  | "f32_sqrt (f32_add (f32_mul dx dx) (f32_mul dy dy)) = Inf False"
proof -
  from assms obtain a b where ab: "dx = Fin a" "dy = Fin b"
    by (auto simp: finite_f32_def split: f32.splits)
  have sq: "\<exists>v. f32_mul (Fin c) (Fin c) = Fin v \<and> 0 \<le> v \<or> f32_mul (Fin c) (Fin c) = Inf False" for c
    by (rule round_f32_cases [of "c * c"]) (auto simp: not_less mult_less_0_iff)
  have add: "\<exists>v. f32_add (Fin c) (Fin d) = Fin v \<and> 0 \<le> v \<or> f32_add (Fin c) (Fin d) = Inf False"
    if "0 \<le> c" "0 \<le> d" for c d
    by (rule round_f32_cases [of "c + d"]) (use that in auto)
  have rt: "\<exists>m. f32_sqrt (Fin c) = Fin m" if "0 \<le> c" for c
    using that by simp
  from sq [of a] sq [of b] show thesis
    using that add rt unfolding ab by (fastforce simp del: f32_mul.simps(5) f32_sqrt.simps(3))
qed

text \<open>One axis of a move: never a NaN when position and direction are finite.\<close>

lemma axis_step_in_field:
  assumes "finite_f32 d" "finite_f32 x" "n = Inf False \<or> (\<exists>m. n = Fin m \<and> m \<noteq> 0)"
  shows "in_field (axis_step x d n)"
proof -
  have div: "f32_div d n \<noteq> NaN"
    using assms(1,3) by (cases d) (auto simp: finite_f32_def)
  have mul: "f32_mul y (Fin c) \<noteq> NaN" if "y \<noteq> NaN" "c \<noteq> 0" for y c
    using that by (cases y) auto
  have add: "f32_add x y \<noteq> NaN" if "y \<noteq> NaN" for y
    using that assms(2) by (cases x; cases y) (auto simp: finite_f32_def)
  have "f32_add x (f32_mul (f32_mul (f32_div d n) SPEED) frame_dt) \<noteq> NaN"
    unfolding SPEED_def frame_dt_value by (intro add mul div) simp_all
  from f32_clamp_range [OF this, of 0 100] show ?thesis
    by (auto simp: axis_step_def FIELD_def in_field_def)
qed

lemma in_field_finite: "in_field x \<Longrightarrow> finite_f32 x"
  by (simp add: in_field_def finite_f32_def split: f32.splits)

lemma move_player_on_field:
  assumes "on_field p" "finite_f32 dx" "finite_f32 dy"
  shows "on_field (move_player p dx dy)"
proof -
  define n where "n = f32_sqrt (f32_add (f32_mul dx dx) (f32_mul dy dy))"
  show ?thesis
  proof (cases "f32_less MIN_NORM n")
    case True
    have "n = Inf False \<or> (\<exists>m. n = Fin m \<and> m \<noteq> 0)"
    proof (rule square_sum [OF assms(2,3), folded n_def])
      fix m
      assume "n = Fin m"
      with True show ?thesis by (auto simp: MIN_NORM_value)
    qed simp
    with assms True show ?thesis
      by (auto simp: move_player_def n_def [symmetric] Let_def on_field_def
          intro!: axis_step_in_field in_field_finite)
  next
    case False
    with assms(1) show ?thesis by (simp add: move_player_def n_def [symmetric] Let_def)
  qed
qed

lemma move_player_ids [simp]:
  "bp_player_id (move_player p dx dy) = bp_player_id p" "bp_conn_id (move_player p dx dy) = bp_conn_id p"
  by (simp_all add: move_player_def Let_def)

section \<open>Applying the inputs of a frame\<close>

text \<open>The players after \<open>apply_inputs\<close>, one at a time: all inputs of the player, in order.\<close>

lemma map_of_apply_inputs:
  "map_of (apply_inputs is ps) pid = map_option
     (fold (\<lambda>(_, dx, dy) p. move_player p dx dy) (filter (\<lambda>i. fst i = pid) is)) (map_of ps pid)"
proof (induction "is" ps rule: apply_inputs.induct)
  case (2 q dx dy "is" ps)
  show ?case
  proof (cases "map_of ps q")
    case None
    with 2 show ?thesis by (cases "map_of ps pid") auto
  next
    case (Some p)
    with 2 show ?thesis by (cases "q = pid") (auto simp: update_conv)
  qed
qed (simp add: option.map_ident)

lemma keys_apply_inputs [simp]: "map fst (apply_inputs is ps) = map fst ps"
proof (induction "is" ps rule: apply_inputs.induct)
  case (2 q dx dy "is" ps)
  have "map fst (AList.update q p ps) = map fst ps" if "map_of ps q = Some p'" for p p'
    using that by (induction ps) (auto split: if_splits)
  with 2 show ?case by (auto split: option.splits)
qed simp

lemma length_apply_inputs [simp]: "length (apply_inputs is ps) = length ps"
  by (metis keys_apply_inputs length_map)

definition all_on_field :: "(u32 \<times> bplayer) list \<Rightarrow> bool" where
  "all_on_field ps \<longleftrightarrow> (\<forall>pid p. map_of ps pid = Some p \<longrightarrow> on_field p)"

definition finite_inputs :: "(u32 \<times> f32 \<times> f32) list \<Rightarrow> bool" where
  "finite_inputs is \<longleftrightarrow> (\<forall>(_, dx, dy)\<in>set is. finite_f32 dx \<and> finite_f32 dy)"

lemma fold_moves_on_field:
  "on_field p \<Longrightarrow> finite_inputs is \<Longrightarrow> on_field (fold (\<lambda>(_, dx, dy) p. move_player p dx dy) is p)"
  by (induction "is" arbitrary: p) (auto simp: finite_inputs_def move_player_on_field)

lemma apply_inputs_on_field:
  assumes "all_on_field ps" "finite_inputs is"
  shows "all_on_field (apply_inputs is ps)"
proof -
  have "finite_inputs (filter (\<lambda>i. fst i = pid) is)" for pid
    using assms(2) by (auto simp: finite_inputs_def)
  with assms(1) show ?thesis
    by (auto simp: all_on_field_def map_of_apply_inputs intro: fold_moves_on_field)
qed

section \<open>The ring\<close>

text \<open>The ring after \<open>n\<close> frames: the last 30 of them, in order.\<close>

definition ring_frames :: "nat \<Rightarrow> u64 list" where
  "ring_frames n = map word_of_nat [Suc (n - 30) ..< Suc n]"

lemma ring_frames_0: "ring_frames 0 = []"
  by (simp add: ring_frames_def)

lemma ring_frames_Suc:
  "ring_frames (Suc n) =
     (let r = ring_frames n @ [word_of_nat (Suc n)] in if 30 < length r then tl r else r)"
proof (cases "n < 30")
  case True
  then show ?thesis by (auto simp: ring_frames_def Let_def)
next
  case False
  define m where "m = n - 30"
  have m': "Suc n - 30 = Suc m" and m: "n - 30 = m" using False by (simp_all add: m_def)
  have c: "[Suc m ..< Suc (Suc n)] = Suc m # [Suc (Suc m) ..< Suc (Suc n)]"
    by (rule upt_conv_Cons) (simp add: m_def)
  have "[Suc m ..< Suc (Suc n)] = [Suc m ..< Suc n] @ [Suc n]"
    by (rule upt_Suc_append) (simp add: m_def)
  then have r: "ring_frames n @ [word_of_nat (Suc n)] = map word_of_nat (Suc m # [Suc (Suc m) ..< Suc (Suc n)])"
    by (simp only: ring_frames_def m flip: c) simp
  have l: "30 < length (Suc m # [Suc (Suc m) ..< Suc (Suc n)])"
    using False unfolding m_def length_Cons length_upt by linarith
  show ?thesis unfolding r Let_def length_map if_P [OF l] unfolding ring_frames_def m' by simp
qed

lemma filter_ring_frames:
  assumes "n < 2 ^ 64"
  shows "filter (\<lambda>f. last_frame < f) (ring_frames n)
     = map word_of_nat [Suc (max (unat last_frame) (n - 30)) ..< Suc n]"
proof -
  have less: "last_frame < (word_of_nat k :: u64) \<longleftrightarrow> unat last_frame < k" if "k < 2 ^ 64" for k
    using that by (simp add: word_less_nat_alt unat_word_of_nat)
  have "filter (\<lambda>f. last_frame < f) (ring_frames n)
      = map word_of_nat (filter (\<lambda>k. last_frame < (word_of_nat k :: u64)) [Suc (n - 30) ..< Suc n])"
    by (simp add: ring_frames_def filter_map comp_def)
  also have "filter (\<lambda>k. last_frame < (word_of_nat k :: u64)) [Suc (n - 30) ..< Suc n]
      = filter (\<lambda>k. unat last_frame < k) [Suc (n - 30) ..< Suc n]"
    using assms by (intro filter_cong) (auto simp: less)
  also have "\<dots> = [Suc (max (unat last_frame) (n - 30)) ..< Suc n]"
    unfolding filter_less_upt by (simp add: max_Suc_Suc del: upt_Suc)
  finally show ?thesis .
qed

section \<open>The service as a state machine\<close>

datatype battle_event =
    BJoin u32 "u32 list" "u32 list"
  | BInput u32 f32 f32 u64
  | BLeave u32
  | BTick "u32 list" "u32 \<Rightarrow> u32 list"

fun battle_step :: "battle_app \<Rightarrow> battle_event \<Rightarrow> battle_app" where
  "battle_step s (BJoin c bids_it it) = next_state (battle_join s c bids_it it)"
| "battle_step s (BInput c dx dy f) = next_state (battle_input s c dx dy f)"
| "battle_step s (BLeave c) = next_state (battle_leave s c)"
| "battle_step s (BTick bids_it its) = next_state (battle_tick s bids_it its)"

text \<open>A beat visits each battle at most once; \<open>fin\<close> restricts the clients to finite directions.\<close>

fun battle_event_ok :: "bool \<Rightarrow> battle_event \<Rightarrow> bool" where
  "battle_event_ok fin (BInput c dx dy f) \<longleftrightarrow> (fin \<longrightarrow> finite_f32 dx \<and> finite_f32 dy)"
| "battle_event_ok fin (BTick bids_it its) \<longleftrightarrow> distinct bids_it"
| "battle_event_ok fin _ \<longleftrightarrow> True"

subsection \<open>The invariant\<close>

definition players_ok :: "u32 \<Rightarrow> (u32 \<times> bplayer) list \<Rightarrow> bool" where
  "players_ok np ps \<longleftrightarrow> distinct (map fst ps) \<and> ps \<noteq> [] \<and> length ps \<le> 2 \<and> (\<forall>k\<in>set (map fst ps). k < np)"

definition queue_ok :: "bool \<Rightarrow> u64 \<Rightarrow> (u64 \<rightharpoonup> (u32 \<times> f32 \<times> f32) list) \<Rightarrow> bool" where
  "queue_ok fin frame pend \<longleftrightarrow>
     (\<forall>k is. pend k = Some is \<longrightarrow> frame \<le> k \<and> (fin \<longrightarrow> finite_inputs is))"

definition battle_ok :: "bool \<Rightarrow> nat \<Rightarrow> u32 \<Rightarrow> battle \<Rightarrow> bool" where
  "battle_ok fin n np b \<longleftrightarrow> players_ok np (bt_players b) \<and> unat (bt_frame b) \<le> n \<and>
     map fst (bt_ring b) = ring_frames (unat (bt_frame b)) \<and>
     queue_ok fin (bt_frame b) (bt_pending b) \<and> (fin \<longrightarrow> all_on_field (bt_players b))"

definition battle_inv :: "bool \<Rightarrow> nat \<Rightarrow> battle_app \<Rightarrow> bool" where
  "battle_inv fin n s \<longleftrightarrow> unat (ba_next_player s) \<le> Suc n \<and> unat (ba_next_battle s) \<le> Suc n \<and>
     (\<forall>bid b. ba_battles s bid = Some b \<longrightarrow> battle_ok fin n (ba_next_player s) b \<and> bid < ba_next_battle s)"

lemma battle_ok_mono:
  "battle_ok fin n np b \<Longrightarrow> n \<le> n' \<Longrightarrow> np \<le> np' \<Longrightarrow> battle_ok fin n' np' b"
  by (auto simp: battle_ok_def players_ok_def intro: less_le_trans)

lemma battle_ok_Suc: "battle_ok fin n np b \<Longrightarrow> battle_ok fin (Suc n) np b"
  by (erule battle_ok_mono) auto

lemma battle_inv_new: "battle_inv fin 0 (battle_app_new sd nd)"
  by (simp add: battle_inv_def battle_app_new_def)

lemma battle_inv_Suc: "battle_inv fin n s \<Longrightarrow> battle_inv fin (Suc n) s"
  unfolding battle_inv_def by (auto intro: battle_ok_Suc)

lemma battle_inv_update:
  assumes "battle_inv fin n s" "ba_battles s bid = Some b" "battle_ok fin (Suc n) (ba_next_player s) b'"
  shows "battle_inv fin (Suc n) (s\<lparr>ba_battles := (ba_battles s)(bid \<mapsto> b')\<rparr>)"
  using assms battle_inv_Suc [OF assms(1)] by (auto simp: battle_inv_def)

subsection \<open>Joining\<close>

lemma on_field_spawn:
  "on_field (p\<lparr>bp_x := Fin 25, bp_y := Fin 50\<rparr>)" "on_field (p\<lparr>bp_x := Fin 75, bp_y := Fin 50\<rparr>)"
  by (simp_all add: on_field_def in_field_def)

lemma AList_update_fresh: "k \<notin> set (map fst ps) \<Longrightarrow> AList.update k v ps = ps @ [(k, v)]"
  by (induction ps) auto

lemma add_player_ok:
  assumes "battle_ok fin n np b \<or> b = battle_new bid" "length (bt_players b) < 2"
    "bp_player_id p = np" "np \<noteq> - 1"
  shows "battle_ok fin n (np + 1) (battle_add_player b p)"
    and "length (bt_players (battle_add_player b p)) = Suc (length (bt_players b))"
proof -
  have fresh: "np \<notin> set (map fst (bt_players b))"
    using assms(1) by (auto simp: battle_ok_def players_ok_def battle_new_def)
  obtain q where ps: "bt_players (battle_add_player b p) = bt_players b @ [(np, q)]" "on_field q"
    and rest: "bt_frame (battle_add_player b p) = bt_frame b" "bt_ring (battle_add_player b p) = bt_ring b"
    "bt_pending (battle_add_player b p) = bt_pending b"
    using AList_update_fresh [OF fresh] assms(3) on_field_spawn
    by (cases "bt_players b = []") (auto simp: battle_add_player_def Let_def)
  have inc: "np < np + 1" using assms(4) by (rule inc_noteq)
  have b: "players_ok np (bt_players b) \<or> bt_players b = []" "unat (bt_frame b) \<le> n"
    "map fst (bt_ring b) = ring_frames (unat (bt_frame b))" "queue_ok fin (bt_frame b) (bt_pending b)"
    "fin \<longrightarrow> all_on_field (bt_players b)"
    using assms(1) by (auto simp: battle_ok_def battle_new_def ring_frames_0 queue_ok_def all_on_field_def)
  then have "players_ok (np + 1) (bt_players b @ [(np, q)])"
    using fresh inc assms(2) by (auto simp: players_ok_def intro: less_trans)
  moreover have "fin \<longrightarrow> all_on_field (bt_players b @ [(np, q)])"
    using b(5) ps(2) fresh by (auto simp: all_on_field_def map_add_def split: option.splits)
  ultimately show "battle_ok fin n (np + 1) (battle_add_player b p)"
    using b by (simp add: battle_ok_def ps(1) rest)
  show "length (bt_players (battle_add_player b p)) = Suc (length (bt_players b))" by (simp add: ps(1))
qed

lemma find_open_Some:
  assumes "find_open s bids_it = Some bid"
  obtains b where "ba_battles s bid = Some b" "length (bt_players b) < 2"
proof -
  from assms obtain e where e: "find (\<lambda>(bid, b). length (bt_players b) < BATTLE_CAPACITY)
      (entries bids_it (ba_battles s)) = Some e" "fst e = bid"
    by (auto simp: find_open_def)
  from find_SomeD [OF e(1)] have "e \<in> set (entries bids_it (ba_battles s))" "length (bt_players (snd e)) < 2"
    by (auto simp: BATTLE_CAPACITY_def split: prod.splits)
  with e(2) show thesis by (intro that [of "snd e"]) (cases e, auto simp: set_entries)+
qed

lemma join_enter_inv:
  assumes inv: "battle_inv fin n s" and n: "n < 2 ^ 32 - 2"
    and target: "\<And>bid. target = Some bid \<Longrightarrow> \<exists>b. ba_battles s bid = Some b \<and> length (bt_players b) < 2"
  shows "battle_inv fin (Suc n) (next_state (join_enter s c target it))"
proof -
  have np: "ba_next_player s \<noteq> - 1" and nb: "ba_next_battle s \<noteq> - 1"
    using inv n by (auto simp: battle_inv_def unsigned_minus_1_eq_mask mask_eq_exp_minus_1)
  note inc = inc_noteq [OF np] inc_noteq [OF nb]
  let ?p = "\<lparr>bp_player_id = ba_next_player s, bp_x = Fin 0, bp_y = Fin 0, bp_conn_id = c\<rparr>"
  have others: "battle_ok fin (Suc n) (ba_next_player s + 1) b \<and> bid < ba_next_battle s"
    if "ba_battles s bid = Some b" for bid b
  proof
    from inv that have b: "battle_ok fin n (ba_next_player s) b" "bid < ba_next_battle s"
      by (auto simp: battle_inv_def)
    show "battle_ok fin (Suc n) (ba_next_player s + 1) b"
      by (rule battle_ok_mono [OF b(1)]) (use inc in \<open>auto simp: less_imp_le\<close>)
    show "bid < ba_next_battle s" by (rule b(2))
  qed
  show ?thesis
  proof (cases target)
    case None
    have "battle_ok fin (Suc n) (ba_next_player s + 1) (battle_add_player (battle_new (ba_next_battle s)) ?p)"
      by (rule add_player_ok [OF _ _ _ np]) (auto simp: battle_new_def)
    with None inv others inc np nb show ?thesis
      by (auto simp: join_enter_def Let_def battle_inv_def unat_inc intro: less_trans)
  next
    case (Some bid)
    then obtain b where b: "ba_battles s bid = Some b" "length (bt_players b) < 2" using target by blast
    have "battle_ok fin (Suc n) (ba_next_player s) b"
      using inv b(1) by (auto simp: battle_inv_def intro: battle_ok_Suc)
    then have "battle_ok fin (Suc n) (ba_next_player s + 1) (battle_add_player b ?p)"
      by (intro add_player_ok [OF _ b(2) _ np]) auto
    with Some b inv others np show ?thesis
      by (auto simp: join_enter_def Let_def battle_inv_def unat_inc)
  qed
qed

lemma battle_join_inv:
  assumes "battle_inv fin n s" "n < 2 ^ 32 - 2"
  shows "battle_inv fin (Suc n) (next_state (battle_join s c bids_it it))"
proof (cases "join_existing s c it")
  case None
  with assms show ?thesis
    by (auto simp: battle_join_def intro!: join_enter_inv elim!: find_open_Some)
next
  case (Some r)
  with assms battle_inv_Suc show ?thesis by (auto simp: battle_join_def)
qed

subsection \<open>Inputs, leaving, beats\<close>

lemma input_target_nat:
  assumes "now \<noteq> (- 1 :: u64)"
  shows "unat (input_target now f) = max (min (unat f + 2) (2 ^ 64 - 1)) (unat now + 1)"
  using assms unat_saturating_add [of f INPUT_DELAY_FRAMES]
  by (simp add: input_target_def unat_max unat_inc INPUT_DELAY_FRAMES_def)

lemma queue_battle_ok:
  assumes "battle_ok fin n np b" "fin \<longrightarrow> finite_f32 dx \<and> finite_f32 dy" "n < 2 ^ 32"
  shows "battle_ok fin n np (battle_queue b pid dx dy f)"
proof -
  have now: "bt_frame b \<noteq> - 1"
    using assms(1,3) by (auto simp: battle_ok_def unsigned_minus_1_eq_mask mask_eq_exp_minus_1)
  have "bt_frame b \<le> input_target (bt_frame b) f"
    using inc_noteq [OF now] by (simp add: input_target_def le_max_iff_disj less_imp_le)
  moreover have "fin \<longrightarrow> finite_inputs ((case bt_pending b (input_target (bt_frame b) f) of
      Some is \<Rightarrow> is | None \<Rightarrow> []) @ [(pid, dx, dy)])"
    using assms(1,2)
    by (cases "bt_pending b (input_target (bt_frame b) f)")
       (auto simp: battle_ok_def queue_ok_def finite_inputs_def)
  ultimately show ?thesis
    using assms(1) by (auto simp: battle_ok_def queue_ok_def battle_queue_def Let_def)
qed

lemma battle_input_inv:
  assumes inv: "battle_inv fin n s" and "fin \<longrightarrow> finite_f32 dx \<and> finite_f32 dy" "n < 2 ^ 32 - 2"
  shows "battle_inv fin (Suc n) (next_state (battle_input s c dx dy f))"
proof (cases "ba_conn_battle s c")
  case None
  with battle_inv_Suc [OF inv] show ?thesis by (simp add: battle_input_def)
next
  case (Some bp)
  obtain bid pid where bp: "bp = (bid, pid)" by (cases bp)
  show ?thesis
  proof (cases "ba_battles s bid")
    case None
    with Some bp battle_inv_Suc [OF inv] show ?thesis by (simp add: battle_input_def)
  next
    case b: (Some b)
    then have "battle_ok fin (Suc n) (ba_next_player s) b"
      using inv by (auto simp: battle_inv_def intro: battle_ok_Suc)
    with assms(2,3) have "battle_ok fin (Suc n) (ba_next_player s) (battle_queue b pid dx dy f)"
      by (intro queue_battle_ok) auto
    with Some bp b battle_inv_update [OF inv b] show ?thesis by (simp add: battle_input_def)
  qed
qed

lemma remove_player_ok:
  assumes "battle_ok fin n np b" "bt_players (remove_player b pid) \<noteq> []"
  shows "battle_ok fin n np (remove_player b pid)"
proof -
  have "length (AList.delete pid (bt_players b)) \<le> length (bt_players b)"
    "set (map fst (AList.delete pid (bt_players b))) \<subseteq> set (map fst (bt_players b))"
    by (auto simp: AList.delete_eq)
  moreover have "distinct (map fst (bt_players b))" using assms(1) by (simp add: battle_ok_def players_ok_def)
  then have "distinct (map fst (AList.delete pid (bt_players b)))" by (rule AList.distinct_delete)
  ultimately have "players_ok np (AList.delete pid (bt_players b))"
    using assms unfolding battle_ok_def players_ok_def remove_player_def
    by (simp del: set_map) (meson order_trans subsetD)
  moreover have "all_on_field (bt_players b) \<Longrightarrow> all_on_field (AList.delete pid (bt_players b))"
    by (auto simp: all_on_field_def AList.delete_conv')
  moreover have "queue_ok fin (bt_frame b) (bt_pending (remove_player b pid))"
    using assms(1) by (fastforce simp: battle_ok_def queue_ok_def remove_player_def finite_inputs_def)
  ultimately show ?thesis
    using assms(1) by (auto simp: battle_ok_def remove_player_def)
qed

lemma battle_leave_inv:
  assumes inv: "battle_inv fin n s"
  shows "battle_inv fin (Suc n) (next_state (battle_leave s c))"
proof (cases "ba_conn_battle s c")
  case None
  with battle_inv_Suc [OF inv] show ?thesis by (simp add: battle_leave_def)
next
  case (Some bp)
  obtain bid pid where bp: "bp = (bid, pid)" by (cases bp)
  note i = battle_inv_Suc [OF inv]
  show ?thesis
  proof (cases "ba_battles s bid")
    case None
    with Some bp i show ?thesis by (simp add: battle_leave_def Let_def battle_inv_def)
  next
    case b: (Some b)
    then have ok: "battle_ok fin (Suc n) (ba_next_player s) b"
      using i by (auto simp: battle_inv_def)
    show ?thesis
    proof (cases "bt_players (remove_player b pid) = []")
      case True
      with Some bp b i show ?thesis by (auto simp: battle_leave_def Let_def battle_inv_def)
    next
      case False
      with remove_player_ok [OF ok] Some bp b i show ?thesis
        by (auto simp: battle_leave_def Let_def battle_inv_def)
    qed
  qed
qed

lemma tick_frame_ok:
  assumes ok: "battle_ok fin n np b" and n: "n < 2 ^ 32"
  shows "battle_ok fin (Suc n) np (tick_frame b it)"
proof -
  have now: "bt_frame b \<noteq> - 1"
    using ok n by (auto simp: battle_ok_def unsigned_minus_1_eq_mask mask_eq_exp_minus_1)
  then have f: "unat (bt_frame b + 1) = Suc (unat (bt_frame b))" by (rule unat_inc)
  have ring: "map fst (bt_ring (tick_frame b it)) = ring_frames (Suc (unat (bt_frame b)))"
  proof -
    have "(word_of_nat (Suc (unat (bt_frame b))) :: u64) = bt_frame b + 1"
      by (simp flip: f)
    moreover have "map fst (bt_ring b) = ring_frames (unat (bt_frame b))"
      using ok by (simp add: battle_ok_def)
    moreover from this have "length (bt_ring b) = length (ring_frames (unat (bt_frame b)))"
      by (metis length_map)
    ultimately show ?thesis
      by (auto simp: tick_frame_def Let_def ring_frames_Suc SNAPSHOT_RING_def map_tl add.commute
          split: option.splits prod.splits)
  qed
  have gt: "bt_frame b + 1 \<le> k" if "bt_frame b \<le> k" "k \<noteq> bt_frame b" for k
    using that f by (simp add: word_le_nat_alt word_unat_eq_iff)
  have frame: "bt_frame (tick_frame b it) = bt_frame b + 1"
    by (simp add: tick_frame_def Let_def split: option.splits)
  have "queue_ok fin (bt_frame b + 1) (bt_pending (tick_frame b it))"
    using ok gt unfolding battle_ok_def queue_ok_def
    by (auto simp: tick_frame_def Let_def split: option.splits if_splits intro!: gt)
  moreover have "players_ok np (bt_players (tick_frame b it))"
  proof -
    have "map fst (bt_players (tick_frame b it)) = map fst (bt_players b)"
      by (simp add: tick_frame_def Let_def split: option.splits)
    moreover from this have "length (bt_players (tick_frame b it)) = length (bt_players b)"
      by (metis length_map)
    ultimately show ?thesis using ok unfolding battle_ok_def players_ok_def by auto
  qed
  moreover have "fin \<longrightarrow> all_on_field (bt_players (tick_frame b it))"
    using ok by (auto simp: battle_ok_def queue_ok_def tick_frame_def Let_def split: option.splits
        intro: apply_inputs_on_field)
  ultimately show ?thesis using ok ring f by (simp add: battle_ok_def frame)
qed

text \<open>A beat touches the battles of its list only, each once.\<close>

lemma tick_battles_frame:
  "ba_next_player (fst (tick_battles s bids its)) = ba_next_player s \<and>
   ba_next_battle (fst (tick_battles s bids its)) = ba_next_battle s \<and>
   ba_conn_battle (fst (tick_battles s bids its)) = ba_conn_battle s \<and>
   (distinct bids \<longrightarrow> ba_battles (fst (tick_battles s bids its)) =
      (\<lambda>k. if k \<in> set bids then map_option (\<lambda>b. tick_frame b (its k)) (ba_battles s k) else ba_battles s k))"
proof (induction bids arbitrary: s)
  case (Cons bid bids)
  show ?case
  proof (cases "ba_battles s bid")
    case None
    with Cons [of s] show ?thesis by auto
  next
    case (Some b)
    with Cons [of "s\<lparr>ba_battles := (ba_battles s)(bid \<mapsto> tick_frame b (its bid))\<rparr>"] show ?thesis
      by (auto simp: Let_def split: prod.splits)
  qed
qed auto

lemma battle_tick_inv:
  assumes inv: "battle_inv fin n s" and n: "n < 2 ^ 32 - 2" and d: "distinct bids_it"
  shows "battle_inv fin (Suc n) (next_state (battle_tick s bids_it its))"
proof -
  have "battle_ok fin (Suc n) (ba_next_player s) (tick_frame b it)" if "ba_battles s bid = Some b" for bid b it
    using inv that n by (auto simp: battle_inv_def intro: tick_frame_ok)
  moreover have "battle_ok fin (Suc n) (ba_next_player s) b" if "ba_battles s bid = Some b" for bid b
    using battle_inv_Suc [OF inv] that by (auto simp: battle_inv_def)
  ultimately show ?thesis
    using inv d tick_battles_frame [of s bids_it its]
    by (auto simp: battle_inv_def battle_tick_def split: if_splits)
qed

interpretation battle_machine: budgeted_machine "\<lambda>(n, s) e. (Suc n, battle_step s e)"
    "\<lambda>(n, s). battle_inv fin n s" fst "2 ^ 32 - 2" "battle_event_ok fin" for fin
proof unfold_locales
  fix ns :: "nat \<times> battle_app" and e
  assume i: "case ns of (n, s) \<Rightarrow> battle_inv fin n s" and ok: "battle_event_ok fin e" and n: "fst ns < 2 ^ 32 - 2"
  obtain n s where ns: "ns = (n, s)" by (cases ns)
  show "case (case ns of (n, s) \<Rightarrow> \<lambda>e. (Suc n, battle_step s e)) e of (n, s) \<Rightarrow> battle_inv fin n s"
    using i ok n unfolding ns
    by (cases e) (auto intro: battle_join_inv battle_input_inv battle_leave_inv battle_tick_inv)
qed (auto split: prod.splits)

end
