(* ===== verification/Battle_Props.thy ===== *)
theory Battle_Props
  imports Battle_Safety
begin

text \<open>
  The properties of the battle service over every sequence of events (\<open>battle_run\<close>), what
  one tick does to the players, and two joins at once.
\<close>

definition battle_run :: "bool \<Rightarrow> string \<Rightarrow> battle_event list \<Rightarrow> battle_app" where
  "battle_run session_dir node_id es = foldl battle_step (battle_app_new session_dir node_id) es"

lemma foldl_counted:
  "foldl (\<lambda>(n, s) e. (Suc n, step s e)) (n, s) es = (n + length es, foldl step s es)"
  by (induction es arbitrary: n s) auto

lemma battle_run_inv:
  assumes "\<forall>e\<in>set es. battle_event_ok fin e" "length es < 2 ^ 32 - 2"
  shows "battle_inv fin (length es) (battle_run sd nd es)"
  using battle_machine.run_inv [of fin "(0, battle_app_new sd nd)" es] assms battle_inv_new
  by (simp add: foldl_counted battle_run_def)

lemma battle_run_ok:
  assumes "\<forall>e\<in>set es. battle_event_ok fin e" "length es < 2 ^ 32 - 2"
    "ba_battles (battle_run sd nd es) bid = Some b"
  shows "battle_ok fin (length es) (ba_next_player (battle_run sd nd es)) b"
  using battle_run_inv [OF assms(1,2)] assms(3) by (auto simp: battle_inv_def)

lemma tick_frame_frame [simp]: "bt_frame (tick_frame b it) = bt_frame b + 1"
  by (simp add: tick_frame_def Let_def split: option.splits)

section \<open>A concrete battle\<close>

text \<open>Two players join and an input is queued; the witnesses evaluate this battle.\<close>

definition demo_events :: "battle_event list" where
  "demo_events = [BJoin 7 [] [], BJoin 9 [1] [], BInput 7 (Fin 1) (Fin 0) 0]"

definition demo_battle :: battle where
  "demo_battle = \<lparr>bt_id = 1, bt_frame = 0, bt_players =
     [(1, \<lparr>bp_player_id = 1, bp_x = Fin 25, bp_y = Fin 50, bp_conn_id = 7\<rparr>),
      (2, \<lparr>bp_player_id = 2, bp_x = Fin 75, bp_y = Fin 50, bp_conn_id = 9\<rparr>)],
     bt_pending = [2 \<mapsto> [(1, Fin 1, Fin 0)]], bt_ring = []\<rparr>"

lemma demo_ok [simp]: "\<forall>e\<in>set demo_events. battle_event_ok fin e" "length demo_events = 3"
  by (simp_all add: demo_events_def finite_f32_def)

lemma demo_target: "input_target 0 0 = 2"
  by (simp add: input_target_def saturating_add_def INPUT_DELAY_FRAMES_def max_def word_le_nat_alt)

lemma demo_lookup: "ba_battles (battle_run sd nd demo_events) 1 = Some demo_battle"
  by (simp add: battle_run_def demo_events_def battle_app_new_def battle_join_def join_existing_def
      find_open_def join_enter_def Let_def battle_new_def battle_add_player_def battle_input_def
      battle_queue_def demo_target demo_battle_def BATTLE_CAPACITY_def)

section \<open>What is always true\<close>



text \<open>
  C31: A resync returns exactly the frames the client has not seen, among the last 30, in
  order: from the one after \<open>last_frame\<close> (or the oldest kept) up to the current frame.  So a
  client that is at most 30 frames behind misses none.
\<close>

theorem resync_exact:
  assumes "\<forall>e\<in>set es. battle_event_ok False e" "length es < 2 ^ 32 - 2"
    and "ba_battles (battle_run sd nd es) bid = Some b"
  shows "map fs_frame (resync b last_frame)
     = map word_of_nat [Suc (max (unat last_frame) (unat (bt_frame b) - SNAPSHOT_RING)) ..< Suc (unat (bt_frame b))]"
proof -
  have ring: "map fst (bt_ring b) = ring_frames (unat (bt_frame b))"
    using battle_run_ok [OF assms] by (simp add: battle_ok_def)
  have "map fs_frame (resync b last_frame) = filter (\<lambda>f. last_frame < f) (map fst (bt_ring b))"
    by (simp add: resync_def filter_map comp_def case_prod_unfold)
  also have "\<dots> = filter (\<lambda>f. last_frame < f) (ring_frames (unat (bt_frame b)))" by (simp add: ring)
  also have "\<dots> = map word_of_nat [Suc (max (unat last_frame) (unat (bt_frame b) - 30)) ..< Suc (unat (bt_frame b))]"
    by (rule filter_ring_frames) (rule u64_bound)
  finally show ?thesis by (simp add: SNAPSHOT_RING_def)
qed

theorem resync_exact_witness:
  "\<exists>b. ba_battles (battle_run False [] (demo_events @ [BTick [1] (\<lambda>_. [1, 2]), BTick [1] (\<lambda>_. [1, 2])])) 1 = Some b \<and>
     map fs_frame (resync b 1) = [2]"
proof -
  let ?es = "demo_events @ [BTick [1] (\<lambda>_. [1, 2]), BTick [1] (\<lambda>_. [1, 2])]"
  have run: "battle_run False [] ?es = battle_step (battle_step (battle_run False [] demo_events)
      (BTick [1] (\<lambda>_. [1, 2]))) (BTick [1] (\<lambda>_. [1, 2]))"
    by (simp add: battle_run_def)
  have b: "ba_battles (battle_run False [] ?es) 1 = Some (tick_frame (tick_frame demo_battle [1, 2]) [1, 2])"
    by (simp add: run battle_tick_def demo_lookup Let_def)
  have f: "unat (bt_frame (tick_frame (tick_frame demo_battle [1, 2]) [1, 2])) = 2"
    by (simp add: demo_battle_def)
  have u: "[Suc (max (unat (1 :: u64)) (2 - 30)) ..< Suc 2] = [2]" by (simp add: upt_conv_Cons)
  have "\<forall>e\<in>set ?es. battle_event_ok False e" "length ?es < 2 ^ 32 - 2"
    using demo_ok by (auto simp: ball_Un)
  from resync_exact [OF this b, of 1]
  have "map fs_frame (resync (tick_frame (tick_frame demo_battle [1, 2]) [1, 2]) 1) = [2]"
    by (simp only: f SNAPSHOT_RING_def u list.map of_nat_numeral)
  with b show ?thesis by (intro exI [of _ "tick_frame (tick_frame demo_battle [1, 2]) [1, 2]"] conjI)
qed

text \<open>
  C32: As long as clients send finite directions, every player of every battle is at a finite
  position between 0 and 100 on both axes, whatever they send: huge directions, whose square
  overflows, included.
\<close>

theorem positions_stay_on_field:
  assumes "\<forall>e\<in>set es. battle_event_ok True e" "length es < 2 ^ 32 - 2"
    and "ba_battles (battle_run sd nd es) bid = Some b" "map_of (bt_players b) pid = Some p"
  shows "\<exists>x y. bp_x p = Fin x \<and> bp_y p = Fin y \<and> 0 \<le> x \<and> x \<le> 100 \<and> 0 \<le> y \<and> y \<le> 100"
proof -
  have "on_field p" using battle_run_ok [OF assms(1-3)] assms(4) by (auto simp: battle_ok_def all_on_field_def)
  then show ?thesis by (auto simp: on_field_def in_field_def split: f32.splits)
qed

theorem positions_stay_on_field_witness:
  "\<exists>x y. bp_x (snd (bt_players demo_battle ! 1)) = Fin x \<and> x \<le> 100 \<and> bp_y (snd (bt_players demo_battle ! 1)) = Fin y"
  using positions_stay_on_field [OF _ _ demo_lookup, of 2 "snd (bt_players demo_battle ! 1)"]
  by (auto simp: demo_battle_def)

section \<open>The first steps of a player\<close>

text \<open>Two moves along the first axis from the spawn point, evaluated.\<close>

lemma f32_values:
  "round_f32 1 = Fin 1" "round_f32 8 = Fin 8"
  "round_f32 (13421773 / 33554432) = Fin (13421773 / 33554432)"
  using round_f32_eval [of 0 1 "2 ^ 23" "2 ^ 23"] round_f32_eval [of 3 8 "2 ^ 23" "2 ^ 23"]
    round_f32_eval [of "- 2" "13421773 / 33554432" 13421773 13421773]
  by (simp_all add: pow2_def quantum_def)

lemma f32_sums:
  "round_f32 (852282573 / 33554432) = Fin (13316915 / 524288)"
  "round_f32 (865704333 / 33554432) = Fin (6763315 / 262144)"
proof -
  have f: "\<lfloor>852282573 / 64 :: rat\<rfloor> = 13316915" "\<lfloor>865704333 / 64 :: rat\<rfloor> = 13526630"
    by (rule floor_unique; simp)+
  show "round_f32 (852282573 / 33554432) = Fin (13316915 / 524288)"
    "round_f32 (865704333 / 33554432) = Fin (6763315 / 262144)"
    using round_f32_eval [of 4 "852282573 / 33554432" 13316915 13316915]
      round_f32_eval [of 4 "865704333 / 33554432" 13526630 13526630]
    by (simp_all add: pow2_def quantum_def f)
qed

lemma sqrt_pos_1: "sqrt_pos 1 = 1"
proof -
  have "isqrt 70368744177664 = 8388608" by (rule isqrt_unique) simp_all
  moreover have "exponent 1 = 0" by (rule exponent_eq) (simp_all add: pow2_def)
  ultimately show ?thesis by (simp add: sqrt_pos_def quantum_def pow2_def Let_def)
qed

lemma move_right:
  "bp_x (move_player p (Fin 1) (Fin 0)) =
     f32_clamp (f32_add (bp_x p) (Fin (13421773 / 33554432))) (Fin 0) (Fin 100)"
proof -
  have "round_f32 0 = Fin 0" by (simp add: round_f32_def)
  then show ?thesis
    by (simp add: move_player_def Let_def f32_values sqrt_pos_1 MIN_NORM_value axis_step_def
        SPEED_def FIELD_def frame_dt_value)
qed

lemma two_moves_right:
  "bp_x p = Fin 25 \<Longrightarrow> bp_x (move_player (move_player p (Fin 1) (Fin 0)) (Fin 1) (Fin 0)) = Fin (6763315 / 262144)"
  by (simp add: move_right f32_sums f32_clamp_def)

section \<open>One tick\<close>

lemma tick_player:
  assumes "bt_pending b (bt_frame b) = Some is"
  shows "map_of (bt_players (tick_frame b it)) pid = map_option
     (fold (\<lambda>(_, dx, dy) p. move_player p dx dy) (filter (\<lambda>i. fst i = pid) is)) (map_of (bt_players b) pid)"
  using assms by (simp add: tick_frame_def Let_def map_of_apply_inputs)

text \<open>
  A tick moves a player once for every input of the player queued for the frame, in the
  order they came, not only for the latest: a client that sends the same input five times
  moves five times as far.
\<close>

lemma every_queued_input_moves:
  assumes "map_of (bt_players b) pid = Some p" "bt_frame b \<noteq> - 1"
    and "bt_pending b (bt_frame b) = None" "unat f + 2 \<le> unat (bt_frame b) + 1"
    and "b' = foldl (\<lambda>b (dx, dy). battle_queue b pid dx dy f) b dirs" "dirs \<noteq> []"
  shows "map_of (bt_players (tick_frame (tick_frame b' it1) it2)) pid =
     (case bt_pending b (bt_frame b + 1) of
        None \<Rightarrow> Some (fold (\<lambda>(dx, dy) p. move_player p dx dy) dirs p)
      | Some is \<Rightarrow> Some (fold (\<lambda>(dx, dy) p. move_player p dx dy) dirs
           (fold (\<lambda>(_, dx, dy) p. move_player p dx dy) (filter (\<lambda>i. fst i = pid) is) p)))"
proof -
  let ?t = "bt_frame b + 1"
  have t: "input_target (bt_frame b) f = ?t"
  proof (rule word_unat_eq_iff [THEN iffD2])
    show "unat (input_target (bt_frame b) f) = unat ?t"
      using assms(2,4) unat_inc [OF assms(2)] by (simp add: input_target_nat max_def min_def)
  qed
  have q: "bt_frame c = bt_frame b \<Longrightarrow> foldl (\<lambda>b (dx, dy). battle_queue b pid dx dy f) c ds =
      (if ds = [] then c else c\<lparr>bt_pending := (bt_pending c)(?t \<mapsto>
         (case bt_pending c ?t of Some is \<Rightarrow> is | None \<Rightarrow> []) @ map (Pair pid) ds)\<rparr>)" for c ds
  proof (induction ds arbitrary: c)
    case (Cons d ds)
    obtain dx dy where d: "d = (dx, dy)" by (cases d)
    show ?case
      using Cons.prems Cons.IH [of "battle_queue c pid dx dy f"]
      by (simp add: d battle_queue_def t Let_def)
  qed simp
  have ne: "?t \<noteq> bt_frame b" by simp
  have b': "b' = b\<lparr>bt_pending := (bt_pending b)(?t \<mapsto>
         (case bt_pending b ?t of Some is \<Rightarrow> is | None \<Rightarrow> []) @ map (Pair pid) dirs)\<rparr>"
    using q [of b dirs] assms(5,6) by simp
  have t1: "bt_players (tick_frame b' it1) = bt_players b" "bt_frame (tick_frame b' it1) = ?t"
    "bt_pending (tick_frame b' it1) ?t = Some ((case bt_pending b ?t of Some is \<Rightarrow> is | None \<Rightarrow> []) @ map (Pair pid) dirs)"
    using assms(3) ne by (simp_all add: b' tick_frame_def Let_def)
  have fm: "fold (\<lambda>(_, dx, dy) p. move_player p dx dy) (map (Pair pid) ds) r
      = fold (\<lambda>(dx, dy) p. move_player p dx dy) ds r" for ds r
    by (induction ds arbitrary: r) auto
  have fl: "filter (\<lambda>i. fst i = pid) (map (Pair pid) ds) = map (Pair pid) ds" for ds :: "(f32 \<times> f32) list"
    by (induction ds) auto
  show ?thesis
    using tick_player [of "tick_frame b' it1" _ it2 pid] t1 assms(1)
    by (auto simp: fm fl split: option.splits)
qed

lemma every_queued_input_moves_witness:
  "let b = demo_battle\<lparr>bt_frame := 5, bt_pending := Map.empty\<rparr>;
       b' = foldl (\<lambda>b (dx, dy). battle_queue b 1 dx dy 0) b [(Fin 1, Fin 0), (Fin 1, Fin 0)]
   in map_option bp_x (map_of (bt_players (tick_frame (tick_frame b' [1, 2]) [2, 1])) 1) = Some (Fin (6763315 / 262144))"
proof -
  let ?b = "demo_battle\<lparr>bt_frame := 5, bt_pending := Map.empty\<rparr>"
  let ?p = "\<lparr>bp_player_id = 1, bp_x = Fin 25, bp_y = Fin 50, bp_conn_id = 7\<rparr>"
  have "map_of (bt_players ?b) 1 = Some ?p" by (simp add: demo_battle_def)
  from every_queued_input_moves [OF this _ _ _ refl, of 0 "[(Fin 1, Fin 0), (Fin 1, Fin 0)]" "[1, 2]" "[2, 1]"]
  show ?thesis using two_moves_right [of ?p] by (simp add: Let_def)
qed

text \<open>
  One input with an infinite direction (the other axis not a NaN) destroys the player's
  position: on the tick that applies it the coordinate becomes a NaN, whatever else is queued
  for the frame, and it stays a NaN on every later tick while the player is in the battle.
\<close>

lemma norm_of_infinite: "dy \<noteq> NaN \<Longrightarrow> f32_sqrt (f32_add (f32_mul (Inf s) (Inf s)) (f32_mul dy dy)) = Inf False"
proof -
  assume "dy \<noteq> NaN"
  then have "f32_mul dy dy = Inf False \<or> (\<exists>v. f32_mul dy dy = Fin v)"
  proof (cases dy)
    case (Fin a)
    then show ?thesis by (cases rule: round_f32_cases [of "a * a"]) (auto simp: not_less mult_less_0_iff)
  qed auto
  then show ?thesis by auto
qed

lemma move_infinite: "dy \<noteq> NaN \<Longrightarrow> bp_x (move_player p (Inf s) dy) = NaN"
  using norm_of_infinite [of dy s]
  by (simp add: move_player_def Let_def MIN_NORM_value axis_step_def)

lemma move_NaN: "bp_x p = NaN \<Longrightarrow> bp_x (move_player p dx dy) = NaN"
  by (simp add: move_player_def Let_def axis_step_def)

lemma fold_NaN: "bp_x p = NaN \<Longrightarrow> bp_x (fold (\<lambda>(_, dx, dy) p. move_player p dx dy) is p) = NaN"
  by (induction "is" arbitrary: p) (auto simp: move_NaN)

lemma fold_infinite:
  "(pid, Inf s, dy) \<in> set is \<Longrightarrow> dy \<noteq> NaN \<Longrightarrow> bp_x (fold (\<lambda>(_, dx, dy) p. move_player p dx dy) is p) = NaN"
proof (induction "is" arbitrary: p)
  case (Cons i "is")
  then show ?case by (auto simp: move_infinite fold_NaN)
qed simp

definition poisoned :: "u32 \<Rightarrow> battle \<Rightarrow> bool" where
  "poisoned pid b \<longleftrightarrow> (\<exists>q. map_of (bt_players b) pid = Some q \<and> bp_x q = NaN)"

lemma poisoned_tick: "poisoned pid b \<Longrightarrow> poisoned pid (tick_frame b it)"
  by (auto simp: poisoned_def tick_frame_def Let_def map_of_apply_inputs fold_NaN split: option.splits)

lemma poisoned_queue: "poisoned pid b \<Longrightarrow> poisoned pid (battle_queue b q dx dy f)"
  by (simp add: poisoned_def battle_queue_def Let_def)

lemma infinite_input_destroys_position:
  assumes "map_of (bt_players b) pid = Some p" "bt_pending b (bt_frame b) = Some is"
    and "(pid, Inf s, dy) \<in> set is" "dy \<noteq> NaN"
  shows "poisoned pid (tick_frame b it) \<and>
     poisoned pid (foldl (\<lambda>b (qs, it). tick_frame (foldl (\<lambda>b (q, dx, dy, f). battle_queue b q dx dy f) b qs) it)
        (tick_frame b it) later)"
proof -
  have "(pid, Inf s, dy) \<in> set (filter (\<lambda>i. fst i = pid) is)" using assms(3) by simp
  then have now: "poisoned pid (tick_frame b it)"
    using assms tick_player [OF assms(2), of it pid] by (auto simp: poisoned_def intro: fold_infinite)
  have qs: "poisoned pid b \<Longrightarrow> poisoned pid (foldl (\<lambda>b (q, dx, dy, f). battle_queue b q dx dy f) b qs)" for qs b
    by (induction qs arbitrary: b) (auto intro: poisoned_queue)
  have "poisoned pid b \<Longrightarrow> poisoned pid (foldl (\<lambda>b (qs, it). tick_frame
      (foldl (\<lambda>b (q, dx, dy, f). battle_queue b q dx dy f) b qs) it) b later)" for b
    by (induction later arbitrary: b) (auto intro: poisoned_tick qs)
  with now show ?thesis by blast
qed

lemma infinite_input_destroys_position_witness:
  "poisoned 1 (tick_frame (demo_battle\<lparr>bt_pending := [0 \<mapsto> [(1, Inf False, Fin 1)]]\<rparr>) [1, 2])"
proof -
  let ?b = "demo_battle\<lparr>bt_pending := [0 \<mapsto> [(1, Inf False, Fin 1)]]\<rparr>"
  have "map_of (bt_players ?b) 1 = Some \<lparr>bp_player_id = 1, bp_x = Fin 25, bp_y = Fin 50, bp_conn_id = 7\<rparr>"
    "bt_pending ?b (bt_frame ?b) = Some [(1, Inf False, Fin 1)]"
    by (simp_all add: demo_battle_def)
  from infinite_input_destroys_position [OF this, of False "Fin 1" "[1, 2]" "[]"] show ?thesis by simp
qed

text \<open>
  C34: An input is applied on the frame it was queued for and on no other: for an input that
  arrives at frame \<open>now\<close> the target is the later of \<open>frame + 2\<close> (capped at the top) and
  \<open>now + 1\<close>; after exactly that many more ticks the battle is at the target and the input is
  among those of the next tick; until then it stays in its slot.
\<close>

lemma tick_keeps_pending:
  "k \<noteq> bt_frame b \<Longrightarrow> bt_pending (tick_frame b it) k = bt_pending b k"
  by (simp add: tick_frame_def Let_def split: option.splits)

lemma ticks_keep_pending:
  "unat (bt_frame b) + length its \<le> unat k \<Longrightarrow>
   bt_frame (foldl tick_frame b its) = bt_frame b + word_of_nat (length its) \<and>
   bt_pending (foldl tick_frame b its) k = bt_pending b k"
proof (induction its arbitrary: b)
  case (Cons it its)
  have "unat k < 2 ^ 64" by (rule u64_bound)
  with Cons.prems have top: "bt_frame b \<noteq> - 1"
    by (auto simp: unsigned_minus_1_eq_mask mask_eq_exp_minus_1)
  with Cons.prems have "unat (bt_frame (tick_frame b it)) + length its \<le> unat k" by (simp add: unat_inc)
  moreover have "k \<noteq> bt_frame b" using Cons.prems by auto
  ultimately show ?case
    using Cons.IH [of "tick_frame b it"] by (simp add: tick_keeps_pending algebra_simps)
qed simp



section \<open>Two joins at once\<close>

text \<open>
  Two connections that both chose the same battle with one player before either entered
  it both get in: the capacity is checked without the lock under which the player is added,
  so the battle ends up with three players.
\<close>

lemma join_race_exceeds_capacity:
  assumes "\<forall>e\<in>set es. battle_event_ok False e" "length es < 2 ^ 32 - 4"
    and "s = battle_run sd nd es" "find_open s bids_it = Some bid"
    and "ba_battles s bid = Some b" "length (bt_players b) = 1"
    and "s1 = next_state (join_enter s c1 (Some bid) it1)"
  shows "\<exists>b2. ba_battles (next_state (join_enter s1 c2 (Some bid) it2)) bid = Some b2 \<and>
    BATTLE_CAPACITY < length (bt_players b2) \<and>
    \<not> panics (outcome_of (join_enter s1 c2 (Some bid) it2))"
proof -
  have inv: "battle_inv False (length es) s" using battle_run_inv [OF assms(1)] assms(2,3) by simp
  have np: "ba_next_player s \<noteq> - 1" "ba_next_player s + 1 \<noteq> - 1"
  proof -
    have le: "unat (ba_next_player s) \<le> Suc (length es)" using inv by (simp add: battle_inv_def)
    with assms(2) show 1: "ba_next_player s \<noteq> - 1"
      by (auto simp: unsigned_minus_1_eq_mask mask_eq_exp_minus_1)
    have "unat (ba_next_player s + 1) < 2 ^ 32 - 1" using unat_inc [OF 1] le assms(2) by simp
    moreover have "unat (- 1 :: u32) = 2 ^ 32 - 1"
      by (simp add: unsigned_minus_1_eq_mask mask_eq_exp_minus_1)
    ultimately show "ba_next_player s + 1 \<noteq> - 1" by (metis less_irrefl)
  qed
  have ok: "battle_ok False (length es) (ba_next_player s) b" using inv assms(5) by (simp add: battle_inv_def)
  let ?p1 = "\<lparr>bp_player_id = ba_next_player s, bp_x = Fin 0, bp_y = Fin 0, bp_conn_id = c1\<rparr>"
  let ?b1 = "battle_add_player b ?p1"
  have b1: "battle_ok False (length es) (ba_next_player s + 1) ?b1" "length (bt_players ?b1) = 2"
    using add_player_ok [OF _ _ _ np(1), of False "length es" b 0 ?p1] ok assms(6) by simp_all
  have s1: "ba_battles s1 bid = Some ?b1" "ba_next_player s1 = ba_next_player s + 1"
    using assms(5,7) by (simp_all add: join_enter_def Let_def)
  let ?p2 = "\<lparr>bp_player_id = ba_next_player s + 1, bp_x = Fin 0, bp_y = Fin 0, bp_conn_id = c2\<rparr>"
  have "ba_next_player s + 1 \<notin> set (map fst (bt_players ?b1))"
    using b1(1) by (auto simp: battle_ok_def players_ok_def)
  then have "length (bt_players (battle_add_player ?b1 ?p2)) = Suc (length (bt_players ?b1))"
    by (simp add: battle_add_player_def AList_update_fresh Let_def split: prod.splits)
  with b1(2) s1 show ?thesis
    by (simp add: join_enter_def Let_def BATTLE_CAPACITY_def)
qed

lemma demo_first: "ba_battles (battle_run sd nd [BJoin 7 [] []]) 1 = Some (demo_battle\<lparr>bt_players :=
    [(1, \<lparr>bp_player_id = 1, bp_x = Fin 25, bp_y = Fin 50, bp_conn_id = 7\<rparr>)], bt_pending := Map.empty\<rparr>)"
  by (simp add: battle_run_def battle_app_new_def battle_join_def join_existing_def
      find_open_def join_enter_def Let_def battle_new_def battle_add_player_def demo_battle_def BATTLE_CAPACITY_def)

lemma join_race_exceeds_capacity_witness:
  "\<exists>b2. ba_battles (next_state (join_enter (next_state (join_enter (battle_run False [] [BJoin 7 [] []])
      9 (Some 1) [])) 11 (Some 1) [])) 1 = Some b2 \<and> BATTLE_CAPACITY < length (bt_players b2)"
proof -
  have "find_open (battle_run False [] [BJoin 7 [] []]) [1] = Some 1"
    by (simp add: find_open_def demo_first BATTLE_CAPACITY_def)
  from join_race_exceeds_capacity [OF _ _ refl this demo_first _ refl, of 9 "[]" 11 "[]"]
  show ?thesis by auto
qed

text \<open>
  If the only player of the chosen battle leaves before the entry, the join panics: it
  unwraps the lookup of a battle that was removed, after it has used up a player number.
\<close>

lemma join_race_panics:
  assumes "ba_battles s bid = Some b" "bt_players b = [(pid, p)]" "ba_conn_battle s c1 = Some (bid, pid)"
    and "s1 = next_state (battle_leave s c1)"
  shows "join_enter s1 c2 (Some bid) it = (Inl UnwrapNone, s1\<lparr>ba_next_player := ba_next_player s1 + 1\<rparr>, [])"
proof -
  have "bt_players (remove_player b pid) = []" using assms(2) by (simp add: remove_player_def)
  then have "ba_battles s1 bid = None" using assms by (simp add: battle_leave_def Let_def)
  then show ?thesis by (simp add: join_enter_def Let_def)
qed

lemma join_race_panics_witness:
  "outcome_of (join_enter (next_state (battle_leave (battle_run False [] [BJoin 7 [] []]) 7)) 9 (Some 1) [])
     = Inl UnwrapNone"
proof -
  have "ba_conn_battle (battle_run False [] [BJoin 7 [] []]) 7 = Some (1, 1)"
    by (simp add: battle_run_def battle_app_new_def battle_join_def join_existing_def find_open_def join_enter_def Let_def)
  from join_race_panics [OF demo_first _ this refl, of _ 9 "[]"] show ?thesis by simp
qed

end
