(* ===== verification/Registry.thy ===== *)
theory Registry
  imports SvcFw
begin

text \<open>
  The crate \<open>grimoire-registry\<close> with its in-memory backend, and the client of it in
  \<open>grimoire-svcfw/src/reg.rs\<close>.

  \<^item> \<open>registry_state\<close> and its operations are \<open>memory_backend.rs\<close>: a table of the nodes of each
    service, every node with the end of its lease.  A clock reading (nanoseconds since 1970) is
    an argument.
  \<^item> \<open>svc_register\<close>, \<open>svc_heartbeat\<close>, \<open>svc_discover\<close>, \<open>svc_unregister\<close> are the requests of
    \<open>main.rs\<close> on that backend, with the default lease of ten seconds.
  \<^item> \<open>heartbeat_period\<close> and \<open>heartbeat_round\<close> are the client's loop.

  The locale \<open>lease_table\<close> states what the table means for one node: its entry follows a small
  automaton \<open>node_step\<close> that no event of another node touches.  The registry interprets it.
\<close>

section \<open>Nodes\<close>

type_synonym i32 = "32 word"
type_synonym u128 = "128 word"
type_synonym meta = "string \<rightharpoonup> string"

record node_info =
  ni_node_id :: string
  ni_addr :: string
  ni_meta :: meta

record node_record =
  nr_addr :: string
  nr_meta :: meta
  nr_expires_at :: u128

text \<open>\<open>now_ns() + (ttl_secs.max(1) as u128) * 1_000_000_000\<close>.\<close>

definition lease_end :: "u128 \<Rightarrow> i32 \<Rightarrow> u128" where
  "lease_end now ttl = now + word_of_int (max (sint ttl) 1) * 1000000000"

definition node_new :: "string \<Rightarrow> meta \<Rightarrow> i32 \<Rightarrow> u128 \<Rightarrow> node_record" where
  "node_new addr meta ttl now = \<lparr>nr_addr = addr, nr_meta = meta, nr_expires_at = lease_end now ttl\<rparr>"

definition refresh :: "node_record \<Rightarrow> i32 \<Rightarrow> u128 \<Rightarrow> node_record" where
  "refresh n ttl now = n\<lparr>nr_expires_at := lease_end now ttl\<rparr>"

section \<open>The in-memory backend\<close>

type_synonym registry_state = "string \<rightharpoonup> (string \<rightharpoonup> node_record)"

definition nodes_of :: "registry_state \<Rightarrow> string \<Rightarrow> (string \<rightharpoonup> node_record)" where
  "nodes_of st service = (case st service of None \<Rightarrow> Map.empty | Some m \<Rightarrow> m)"

definition reg_insert :: "registry_state \<Rightarrow> string \<Rightarrow> string \<Rightarrow> string \<Rightarrow> meta \<Rightarrow> i32 \<Rightarrow> u128 \<Rightarrow> registry_state" where
  "reg_insert st service node_id addr meta ttl now =
     st(service \<mapsto> (nodes_of st service)(node_id \<mapsto> node_new addr meta ttl now))"

definition reg_heartbeat :: "registry_state \<Rightarrow> string \<Rightarrow> string \<Rightarrow> i32 \<Rightarrow> u128 \<Rightarrow> bool \<times> registry_state" where
  "reg_heartbeat st service node_id ttl now =
     (case st service of
        None \<Rightarrow> (False, st)
      | Some m \<Rightarrow>
          (case m node_id of
             None \<Rightarrow> (False, st)
           | Some n \<Rightarrow> (True, st(service \<mapsto> m(node_id \<mapsto> refresh n ttl now)))))"

definition reg_discover :: "string list \<Rightarrow> registry_state \<Rightarrow> string \<Rightarrow> node_info list" where
  "reg_discover it st service =
     (case st service of
        None \<Rightarrow> []
      | Some m \<Rightarrow> map (\<lambda>(id, n). \<lparr>ni_node_id = id, ni_addr = nr_addr n, ni_meta = nr_meta n\<rparr>) (entries it m))"

definition reg_remove :: "registry_state \<Rightarrow> string \<Rightarrow> string \<Rightarrow> registry_state" where
  "reg_remove st service node_id =
     (case st service of None \<Rightarrow> st | Some m \<Rightarrow> st(service \<mapsto> m(node_id := None)))"

text \<open>One round of the sweeper: of every service, the nodes whose lease has not ended.\<close>

definition retain_live :: "u128 \<Rightarrow> (string \<rightharpoonup> node_record) \<Rightarrow> (string \<rightharpoonup> node_record)" where
  "retain_live now m =
     (\<lambda>id. case m id of None \<Rightarrow> None | Some n \<Rightarrow> if now < nr_expires_at n then Some n else None)"

definition sweep :: "registry_state \<Rightarrow> u128 \<Rightarrow> registry_state" where
  "sweep st now = (\<lambda>service. map_option (retain_live now) (st service))"

section \<open>The service\<close>

definition DEFAULT_TTL :: i32 where "DEFAULT_TTL = 10"

definition register_ttl :: "i32 \<Rightarrow> i32" where
  "register_ttl ttl_secs = (if 0 < sint ttl_secs then ttl_secs else DEFAULT_TTL)"

definition svc_register :: "registry_state \<Rightarrow> string \<Rightarrow> string \<Rightarrow> string \<Rightarrow> meta \<Rightarrow> i32 \<Rightarrow> u128 \<Rightarrow> registry_state" where
  "svc_register st service node_id addr meta ttl_secs now =
     reg_insert st service node_id addr meta (register_ttl ttl_secs) now"

definition svc_heartbeat :: "registry_state \<Rightarrow> string \<Rightarrow> string \<Rightarrow> u128 \<Rightarrow> bool \<times> registry_state" where
  "svc_heartbeat st service node_id now = reg_heartbeat st service node_id DEFAULT_TTL now"

definition svc_discover :: "string list \<Rightarrow> registry_state \<Rightarrow> string \<Rightarrow> node_info list" where
  "svc_discover it st service = reg_discover it st service"

definition svc_unregister :: "registry_state \<Rightarrow> string \<Rightarrow> string \<Rightarrow> registry_state" where
  "svc_unregister st service node_id = reg_remove st service node_id"

datatype reg_event =
    Register string string string meta i32 u128  \<comment> \<open>service, node, address, meta, lease, clock\<close>
  | Renew string string u128
  | Unregister string string
  | Sweep u128

fun reg_step :: "registry_state \<Rightarrow> reg_event \<Rightarrow> registry_state" where
  "reg_step st (Register service node_id addr meta ttl now) = svc_register st service node_id addr meta ttl now"
| "reg_step st (Renew service node_id now) = snd (svc_heartbeat st service node_id now)"
| "reg_step st (Unregister service node_id) = svc_unregister st service node_id"
| "reg_step st (Sweep now) = sweep st now"

definition reg_run :: "reg_event list \<Rightarrow> registry_state" where
  "reg_run es = foldl reg_step Map.empty es"

section \<open>The client\<close>

text \<open>\<open>(ttl_secs.max(3) / 3).max(1)\<close> seconds; the division is of a positive number.\<close>

definition heartbeat_period :: "i32 \<Rightarrow> int" where
  "heartbeat_period ttl_secs = max (max (sint ttl_secs) 3 div 3) 1"

text \<open>What one heartbeat call comes back with.\<close>

datatype beat_reply = BeatOk bool | BeatFailed | BeatTimeout

text \<open>
  One round of the loop: the call on the registry when it is \<open>reached\<close>, and the registration
  that follows a rejected heartbeat; \<open>meta: Default::default()\<close> is the empty map.
\<close>

definition heartbeat_reply :: "bool \<Rightarrow> bool \<Rightarrow> bool \<Rightarrow> beat_reply" where
  "heartbeat_reply reached answered ok =
     (if reached \<and> answered then BeatOk ok else if answered then BeatFailed else BeatTimeout)"

definition heartbeat_round :: "registry_state \<Rightarrow> string \<Rightarrow> string \<Rightarrow> string \<Rightarrow> i32 \<Rightarrow>
    bool \<Rightarrow> bool \<Rightarrow> bool \<Rightarrow> u128 \<Rightarrow> u128 \<Rightarrow> registry_state" where
  "heartbeat_round st service node_id addr ttl_secs reached answered again now now' =
     (case (if reached then svc_heartbeat st service node_id now else (False, st)) of
        (ok, st') \<Rightarrow>
          (case heartbeat_reply reached answered ok of
             BeatOk True \<Rightarrow> st'
           | BeatOk False \<Rightarrow>
               if again then svc_register st' service node_id addr Map.empty ttl_secs now' else st'
           | BeatFailed \<Rightarrow> st'
           | BeatTimeout \<Rightarrow> st'))"

section \<open>The contract of a lease table\<close>

definition node_of :: "registry_state \<Rightarrow> string \<Rightarrow> string \<Rightarrow> node_record option" where
  "node_of st service node_id = nodes_of st service node_id"

text \<open>What one event does to the entry of one node.\<close>

fun node_step :: "string \<Rightarrow> string \<Rightarrow> node_record option \<Rightarrow> reg_event \<Rightarrow> node_record option" where
  "node_step s n r (Register s' n' addr meta ttl now) =
     (if s' = s \<and> n' = n then Some (node_new addr meta (register_ttl ttl) now) else r)"
| "node_step s n r (Renew s' n' now) =
     (if s' = s \<and> n' = n then map_option (\<lambda>x. refresh x DEFAULT_TTL now) r else r)"
| "node_step s n r (Unregister s' n') = (if s' = s \<and> n' = n then None else r)"
| "node_step s n r (Sweep now) =
     (case r of None \<Rightarrow> None | Some x \<Rightarrow> if now < nr_expires_at x then Some x else None)"

fun event_time :: "reg_event \<Rightarrow> u128 option" where
  "event_time (Register _ _ _ _ _ now) = Some now"
| "event_time (Renew _ _ now) = Some now"
| "event_time (Unregister _ _) = None"
| "event_time (Sweep now) = Some now"

text \<open>The renewals of one node.\<close>

fun renews :: "string \<Rightarrow> string \<Rightarrow> reg_event \<Rightarrow> bool" where
  "renews s n (Register s' n' _ _ _ _) = (s' = s \<and> n' = n)"
| "renews s n (Renew s' n' _) = (s' = s \<and> n' = n)"
| "renews s n _ = False"

locale lease_table =
  fixes step :: "'s \<Rightarrow> reg_event \<Rightarrow> 's"
    and lookup :: "'s \<Rightarrow> string \<Rightarrow> string \<Rightarrow> node_record option"
  assumes lookup_step: "lookup (step st e) s n = node_step s n (lookup st s n) e"
begin

lemma lookup_run: "lookup (foldl step st es) s n = foldl (node_step s n) (lookup st s n) es"
  by (induction es arbitrary: st) (simp_all add: lookup_step)

lemma run_unaffected:
  "\<forall>e\<in>set es. (\<forall>r. node_step s n r e = r) \<Longrightarrow> lookup (foldl step st es) s n = lookup st s n"
  unfolding lookup_run by (induction es) auto

end

lemmas backend_defs = reg_insert_def reg_heartbeat_def reg_remove_def sweep_def retain_live_def nodes_of_def

lemma node_of_step: "node_of (reg_step st e) s n = node_step s n (node_of st s n) e"
proof (cases e)
  case (Renew s' n' now)
  then show ?thesis
    by (simp add: node_of_def svc_heartbeat_def backend_defs split: option.splits)
next
  case (Sweep now)
  then show ?thesis
    by (simp add: node_of_def backend_defs split: option.splits)
qed (simp_all add: node_of_def svc_register_def svc_unregister_def backend_defs split: option.splits)

lemma node_of_empty [simp]: "node_of Map.empty s n = None"
  by (simp add: node_of_def nodes_of_def)

text \<open>A heartbeat is accepted exactly for a node that is known.\<close>

lemma heartbeat_known: "fst (svc_heartbeat st s n now) \<longleftrightarrow> node_of st s n \<noteq> None"
  by (auto simp: svc_heartbeat_def reg_heartbeat_def node_of_def nodes_of_def split: option.splits)

lemma heartbeat_unknown: "node_of st s n = None \<Longrightarrow> svc_heartbeat st s n now = (False, st)"
  by (auto simp: svc_heartbeat_def reg_heartbeat_def node_of_def nodes_of_def split: option.splits)

interpretation registry: lease_table reg_step node_of
  by unfold_locales (rule node_of_step)

lemma set_discover:
  assumes "visits it (nodes_of st service)"
  shows "set (svc_discover it st service) =
    {\<lparr>ni_node_id = id, ni_addr = nr_addr n, ni_meta = nr_meta n\<rparr> | id n. node_of st service id = Some n}"
proof (cases "st service")
  case None
  then show ?thesis by (simp add: svc_discover_def reg_discover_def node_of_def nodes_of_def)
next
  case (Some m)
  then have "visits it m" using assms by (simp add: nodes_of_def)
  then have "set (entries it m) = {(id, n). m id = Some n}"
    by (auto simp: set_entries visits_def)
  with Some show ?thesis
    by (auto simp: svc_discover_def reg_discover_def node_of_def nodes_of_def image_iff)
qed

section \<open>Leases\<close>

text \<open>Before the clock's top the lease ends after it starts, later for a later start.\<close>

definition clock_ok :: "u128 \<Rightarrow> bool" where
  "clock_ok now \<longleftrightarrow> now < 2 ^ 100"

lemma unat_lease_end:
  assumes "clock_ok now"
  shows "unat (lease_end now ttl) = unat now + nat (max (sint ttl) 1) * 1000000000"
proof -
  let ?t = "nat (max (sint ttl) 1)"
  have "sint ttl < 2 ^ 31" using sint_lt [of ttl] by simp
  then have t: "?t < 2 ^ 31" by simp
  have now: "unat now < 2 ^ 100" using assms by (simp add: clock_ok_def word_less_nat_alt)
  have w: "(word_of_int (max (sint ttl) 1) :: u128) = word_of_nat ?t"
    by (simp add: max_def)
  have "(word_of_int (max (sint ttl) 1) :: u128) * 1000000000 = word_of_nat (?t * 1000000000)"
    unfolding w by simp
  then have "lease_end now ttl = word_of_nat (unat now + ?t * 1000000000)"
    by (simp add: lease_end_def)
  moreover have "unat now + ?t * 1000000000 < 2 ^ LENGTH(128)" using t now by simp
  ultimately show ?thesis by (simp only: unat_word_of_nat)
qed

lemma lease_end_mono:
  "clock_ok t \<Longrightarrow> clock_ok t' \<Longrightarrow> t \<le> t' \<Longrightarrow> sint ttl \<le> sint ttl' \<Longrightarrow> lease_end t ttl \<le> lease_end t' ttl'"
  unfolding word_le_nat_alt by (simp add: unat_lease_end add_mono nat_mono max.coboundedI1)

lemma lease_end_less:
  "clock_ok t \<Longrightarrow> x < lease_end t ttl \<longleftrightarrow> unat x < unat t + nat (max (sint ttl) 1) * 1000000000"
  by (simp add: word_less_nat_alt unat_lease_end)

lemma sint_DEFAULT_TTL [simp]: "sint DEFAULT_TTL = 10"
  by (simp add: DEFAULT_TTL_def)

end
