(* ===== verification/Registry_Props.thy ===== *)
theory Registry_Props
  imports Registry
begin

text \<open>
  What the registry promises: discovery returns exactly the nodes whose lease is alive, a node
  that renews within ten seconds is never dropped, and where the lease that a node asked for is
  not the one it gets.
\<close>

section \<open>Discovery\<close>

lemma distinct_discover:
  "visits it (nodes_of st service) \<Longrightarrow> distinct (map ni_node_id (svc_discover it st service))"
proof (cases "st service")
  case (Some m)
  assume "visits it (nodes_of st service)"
  then have v: "visits it m" using Some by (simp add: nodes_of_def)
  have "map ni_node_id (svc_discover it st service) = map fst (entries it m)"
    using Some by (simp add: svc_discover_def reg_discover_def comp_def case_prod_unfold)
  then show ?thesis using v by (simp add: keys_entries visits_def)
qed (simp add: svc_discover_def reg_discover_def)

text \<open>
  C11: The registry implements a table of leases: after any sequence of registrations,
  heartbeats, removals and sweeps, a discovery of a service returns each node once, and
  exactly the nodes whose own automaton (registered, renewed, removed, expired; no event of
  another node matters) is alive, with the address and the data of the last registration.
\<close>

theorem discover_exact:
  assumes "visits it (nodes_of (reg_run es) service)"
  shows "distinct (map ni_node_id (svc_discover it (reg_run es) service)) \<and>
    set (svc_discover it (reg_run es) service) =
      {\<lparr>ni_node_id = id, ni_addr = nr_addr n, ni_meta = nr_meta n\<rparr> | id n.
         foldl (node_step service id) None es = Some n}"
proof -
  have "node_of (reg_run es) service id = foldl (node_step service id) None es" for id
    unfolding reg_run_def by (simp add: registry.lookup_run)
  then show ?thesis using distinct_discover [OF assms] set_discover [OF assms] by simp
qed

theorem discover_exact_witness:
  "svc_discover [''b''] (reg_run [Register ''s'' ''a'' ''x'' Map.empty 0 0, Register ''s'' ''b'' ''y'' Map.empty 60 0,
      Sweep 30000000000]) ''s'' = [\<lparr>ni_node_id = ''b'', ni_addr = ''y'', ni_meta = Map.empty\<rparr>]"
proof -
  let ?es = "[Register ''s'' ''a'' ''x'' Map.empty 0 0, Register ''s'' ''b'' ''y'' Map.empty 60 0, Sweep 30000000000]"
  have le: "lease_end 0 DEFAULT_TTL = 10000000000" "lease_end 0 60 = 60000000000"
    by (simp_all add: lease_end_def)
  have fold: "foldl (node_step ''s'' id) None ?es =
      (if id = ''b'' then Some \<lparr>nr_addr = ''y'', nr_meta = Map.empty, nr_expires_at = 60000000000\<rparr> else None)" for id
    by (simp add: node_new_def register_ttl_def le)
  have "nodes_of (reg_run ?es) ''s'' id = foldl (node_step ''s'' id) None ?es" for id
    unfolding reg_run_def node_of_def [symmetric] registry.lookup_run node_of_empty ..
  then have v: "visits [''b''] (nodes_of (reg_run ?es) ''s'')"
    unfolding visits_def dom_def fold by simp
  have "set (svc_discover [''b''] (reg_run ?es) ''s'') = {\<lparr>ni_node_id = ''b'', ni_addr = ''y'', ni_meta = Map.empty\<rparr>}"
    unfolding conjunct2 [OF discover_exact [OF v]] fold by (auto split: if_splits)
  moreover have "length (svc_discover [''b''] (reg_run ?es) ''s'') \<le> 1"
    by (auto simp: svc_discover_def reg_discover_def split: option.splits)
  ultimately show ?thesis
    by (cases "svc_discover [''b''] (reg_run ?es) ''s''") auto
qed

section \<open>Renewal\<close>

definition TEN_SECONDS :: nat where "TEN_SECONDS = 10000000000"

text \<open>
  A history in which a node is not removed, asks for at least ten seconds when it registers,
  and in which each sweep comes less than ten seconds after some renewal of the node.
\<close>

definition long_enough :: "string \<Rightarrow> string \<Rightarrow> reg_event \<Rightarrow> bool" where
  "long_enough s n e = (case e of
     Register s' n' _ _ ttl _ \<Rightarrow> s' = s \<and> n' = n \<longrightarrow> 10 \<le> sint (register_ttl ttl)
   | Unregister s' n' \<Rightarrow> \<not> (s' = s \<and> n' = n) | _ \<Rightarrow> True)"

definition renewed_before :: "string \<Rightarrow> string \<Rightarrow> reg_event list \<Rightarrow> u128 \<Rightarrow> bool" where
  "renewed_before s n fs t \<longleftrightarrow>
     (\<exists>f\<in>set fs. \<exists>t'. renews s n f \<and> event_time f = Some t' \<and> unat t < unat t' + TEN_SECONDS)"

definition clocks :: "reg_event list \<Rightarrow> nat list" where
  "clocks fs = map unat (List.map_filter event_time fs)"

definition covered :: "string \<Rightarrow> string \<Rightarrow> node_record option \<Rightarrow> reg_event list \<Rightarrow> bool" where
  "covered s n r fs \<longleftrightarrow> (\<exists>x. r = Some x \<and>
     (\<forall>f\<in>set fs. \<forall>t. renews s n f \<longrightarrow> event_time f = Some t \<longrightarrow> unat t + TEN_SECONDS \<le> unat (nr_expires_at x)))"

lemma clocks_simps [simp]:
  "clocks [] = []" "clocks (fs @ gs) = clocks fs @ clocks gs"
  "clocks (e # es) = (case event_time e of None \<Rightarrow> clocks es | Some t \<Rightarrow> unat t # clocks es)"
  by (simp_all add: clocks_def map_filter_def split: option.splits)

lemma clocks_mem: "f \<in> set fs \<Longrightarrow> event_time f = Some t \<Longrightarrow> unat t \<in> set (clocks fs)"
  by (force simp: clocks_def map_filter_def)

lemma lease_ten: "clock_ok t \<Longrightarrow> 10 \<le> sint ttl \<Longrightarrow> unat t + TEN_SECONDS \<le> unat (lease_end t ttl)"
  by (simp add: unat_lease_end TEN_SECONDS_def)

lemma covered_renewal:
  assumes "clock_ok t" "10 \<le> sint ttl" "sorted (clocks fs @ [unat t])" "event_time e = Some t"
    and "nr_expires_at x = lease_end t ttl"
  shows "covered s n (Some x) (fs @ [e])"
proof -
  have "unat t' \<le> unat t" if "f \<in> set fs" "event_time f = Some t'" for f t'
    using assms(3) clocks_mem [OF that] by (simp add: sorted_append)
  then show ?thesis
    using lease_ten [OF assms(1,2)] assms(4,5) unfolding covered_def by fastforce
qed

lemma covered_step:
  assumes "covered s n r fs" "long_enough s n e" "sorted (clocks (fs @ [e]))"
    and clock: "\<And>t. event_time e = Some t \<Longrightarrow> clock_ok t"
    and sweep: "\<And>t. e = Sweep t \<Longrightarrow> renewed_before s n fs t"
  shows "covered s n (node_step s n r e) (fs @ [e])"
proof -
  obtain x where r: "r = Some x"
    and x: "\<And>f t. f \<in> set fs \<Longrightarrow> renews s n f \<Longrightarrow> event_time f = Some t \<Longrightarrow>
        unat t + TEN_SECONDS \<le> unat (nr_expires_at x)"
    using assms(1) by (auto simp: covered_def)
  show ?thesis
  proof (cases "renews s n e")
    case True
    then show ?thesis
      using assms(2,3) r clock
      by (cases e) (auto simp: long_enough_def node_new_def refresh_def
          intro!: covered_renewal)
  next
    case False
    have "node_step s n r e = Some x"
      using False assms(2) r x sweep by (cases e) (auto simp: long_enough_def renewed_before_def word_less_nat_alt, fastforce)
    then show ?thesis using False x by (auto simp: covered_def)
  qed
qed

lemma covered_run:
  assumes "covered s n r fs" "\<forall>e\<in>set es. long_enough s n e" "sorted (clocks (fs @ es))"
    and "\<forall>e\<in>set es. \<forall>t. event_time e = Some t \<longrightarrow> clock_ok t"
    and "\<forall>as bs t. es = as @ Sweep t # bs \<longrightarrow> renewed_before s n (fs @ as) t"
  shows "covered s n (foldl (node_step s n) r es) (fs @ es)"
  using assms
proof (induction es arbitrary: r fs)
  case (Cons e es)
  have "covered s n (node_step s n r e) (fs @ [e])"
  proof (rule covered_step [OF Cons.prems(1)])
    show "sorted (clocks (fs @ [e]))" using Cons.prems(3) by (auto simp: sorted_append split: option.splits)
    show "renewed_before s n fs t" if "e = Sweep t" for t
      using Cons.prems(5) that by (metis append_Nil append_Nil2)
  qed (use Cons.prems(2,4) in auto)
  moreover have "\<forall>as bs t. es = as @ Sweep t # bs \<longrightarrow> renewed_before s n ((fs @ [e]) @ as) t"
    using Cons.prems(5) by (metis append.assoc append_Cons append_Nil)
  ultimately show ?case using Cons.IH [of "node_step s n r e" "fs @ [e]"] Cons.prems by simp
qed simp

text \<open>
  A node that keeps renewing is never dropped: from its registration on, if no one removes
  it, the clock does not run backwards, and every sweep comes less than ten seconds after a
  registration or heartbeat of the node, then it can be discovered, whatever other nodes do.
\<close>

lemma renewed_node_stays:
  assumes "10 \<le> sint (register_ttl ttl)" "clock_ok t0" "\<forall>e\<in>set es. long_enough s n e"
    and "sorted (clocks (Register s n addr meta ttl t0 # es))"
    and "\<forall>e\<in>set es. \<forall>t. event_time e = Some t \<longrightarrow> clock_ok t"
    and "\<forall>as bs t. es = as @ Sweep t # bs \<longrightarrow> renewed_before s n (Register s n addr meta ttl t0 # as) t"
  shows "node_of (foldl reg_step st (Register s n addr meta ttl t0 # es)) s n \<noteq> None"
proof -
  let ?e = "Register s n addr meta ttl t0"
  have "covered s n (node_step s n (node_of st s n) ?e) [?e]"
    using lease_ten [OF assms(2,1)] by (simp add: covered_def node_new_def)
  from covered_run [OF this assms(3)] assms(4-6)
  have "covered s n (foldl (node_step s n) (node_of st s n) (?e # es)) (?e # es)" by simp
  then show ?thesis unfolding registry.lookup_run by (auto simp: covered_def)
qed

lemma renewed_node_stays_witness:
  "node_of (foldl reg_step Map.empty [Register ''s'' ''a'' ''x'' Map.empty 10 0, Renew ''s'' ''a'' 9000000000,
     Sweep 15000000000]) ''s'' ''a'' \<noteq> None"
proof (rule renewed_node_stays)
  show "10 \<le> sint (register_ttl 10)" by (simp add: register_ttl_def)
  show "\<forall>as bs t. [Renew ''s'' ''a'' 9000000000, Sweep 15000000000] = as @ Sweep t # bs \<longrightarrow>
      renewed_before ''s'' ''a'' (Register ''s'' ''a'' ''x'' Map.empty 10 0 # as) t"
    by (auto simp: Cons_eq_append_conv renewed_before_def TEN_SECONDS_def)
qed (auto simp: clock_ok_def long_enough_def)

text \<open>
  The lease a node asks for lasts only until its first heartbeat, which replaces it by the
  registry's ten seconds.  A node that asks for 33 seconds or more heartbeats at a third of
  that, every 11 seconds or more: so between two heartbeats, and before the lease it asked for
  has ended, a sweep drops it and the next heartbeat is refused.
\<close>

lemma long_lease_cut_short:
  assumes "33 \<le> sint ttl" "clock_ok t" "t \<le> t'" "unat t' < unat t + 2 * TEN_SECONDS"
  shows "\<exists>u st'. st' = foldl reg_step st [Register s n addr meta ttl t, Renew s n t', Sweep u] \<and>
     unat t' < unat u \<and> unat u < unat t' + nat (heartbeat_period ttl) * 1000000000 \<and> u < lease_end t ttl \<and>
     node_of st' s n = None \<and> (\<forall>v. \<not> fst (svc_heartbeat st' s n v))"
proof -
  define u where "u = lease_end t' DEFAULT_TTL"
  have "unat t' < 2 ^ 101" using assms(2,4) by (simp add: clock_ok_def TEN_SECONDS_def word_less_nat_alt)
  then have u: "unat u = unat t' + TEN_SECONDS"
    by (simp add: u_def lease_end_def TEN_SECONDS_def unat_word_ariths)
  have gone: "node_of (foldl reg_step st [Register s n addr meta ttl t, Renew s n t', Sweep u]) s n = None"
    unfolding registry.lookup_run by (simp add: node_new_def refresh_def u_def)
  have "11 \<le> heartbeat_period ttl" using assms(1) by (simp add: heartbeat_period_def)
  then have p: "11 * 1000000000 \<le> nat (heartbeat_period ttl) * 1000000000" by simp
  have "33 * 1000000000 \<le> nat (max (sint ttl) 1) * 1000000000" using assms(1) by simp
  then have "u < lease_end t ttl"
    unfolding lease_end_less [OF assms(2)] u using assms(4) by (simp add: TEN_SECONDS_def)
  moreover have "\<not> fst (svc_heartbeat (foldl reg_step st [Register s n addr meta ttl t, Renew s n t', Sweep u]) s n v)" for v
    using gone by (simp add: heartbeat_known)
  moreover have "unat t' < unat u" "unat u < unat t' + nat (heartbeat_period ttl) * 1000000000"
    using u p by (simp_all add: TEN_SECONDS_def)
  ultimately show ?thesis using gone by blast
qed

lemma long_lease_cut_short_witness:
  "\<exists>u st'. st' = foldl reg_step Map.empty [Register ''s'' ''a'' ''x'' Map.empty 60 0, Renew ''s'' ''a'' 0, Sweep u] \<and>
     u < lease_end 0 60 \<and> node_of st' ''s'' ''a'' = None"
  using long_lease_cut_short [of 60 0 0 Map.empty "''s''" "''a''" "''x''" Map.empty]
  by (auto simp: clock_ok_def TEN_SECONDS_def)

section \<open>Re-registration\<close>

text \<open>
  When a heartbeat is refused the client registers again, but with empty data: the node is
  found again under its address, without what it had registered (for a gateway, the
  identity by which the services find it).
\<close>

lemma reregistration_loses_meta:
  assumes "node_of st s n = None"
  shows "\<exists>x. node_of (heartbeat_round st s n addr ttl True True True now now') s n = Some x \<and>
     nr_addr x = addr \<and> nr_meta x = Map.empty"
proof -
  have "svc_heartbeat st s n now = (False, st)"
    using assms by (rule heartbeat_unknown)
  then show ?thesis
    by (simp add: heartbeat_round_def heartbeat_reply_def svc_register_def reg_insert_def node_of_def
        nodes_of_def node_new_def)
qed

lemma reregistration_loses_meta_witness:
  "\<exists>x. node_of (heartbeat_round Map.empty ''gateway'' ''gw-1'' ''a'' 10 True True True 0 0) ''gateway'' ''gw-1'' = Some x \<and>
     nr_meta x = Map.empty"
  using reregistration_loses_meta [of Map.empty "''gateway''" "''gw-1''" "''a''" 10 0 0] by auto

end
