(* ===== verification/Registrar.thy ===== *)
theory Registrar
  imports Registry_Props
begin

text \<open>
  \<open>register_and_heartbeat\<close> of \<open>grimoire-svcfw/src/reg.rs\<close> as a whole: the first registration, and
  the loop that goes on in a task of its own while other clients and the sweeper use the registry
  too.  \<open>registrar_step\<close> is one event of that.
\<close>

section \<open>The function and its task\<close>

text \<open>
  \<open>reached\<close>: the call arrives at the registry; \<open>answered\<close>: its answer comes back.  The task is
  started only when the registration was answered.
\<close>

definition register_first :: "registry_state \<Rightarrow> string \<Rightarrow> string \<Rightarrow> string \<Rightarrow> meta \<Rightarrow> i32 \<Rightarrow>
    bool \<Rightarrow> bool \<Rightarrow> bool \<Rightarrow> u128 \<Rightarrow> (string + unit) \<times> registry_state" where
  "register_first st service node_id addr meta ttl_secs connected reached answered now =
     (if \<not> connected then (Inl ''connect registry'', st)
      else (if reached \<and> answered then Inr () else Inl ''register'',
            if reached then svc_register st service node_id addr meta ttl_secs now else st))"

datatype registrar_event =
    Beat bool bool bool u128 u128    \<comment> \<open>a round of the loop: reached, answered, and the registration after a refusal\<close>
  | Outside reg_event                \<comment> \<open>another client, or the sweeper\<close>

fun registrar_step :: "string \<Rightarrow> string \<Rightarrow> string \<Rightarrow> i32 \<Rightarrow> registry_state \<Rightarrow> registrar_event \<Rightarrow> registry_state" where
  "registrar_step service node_id addr ttl_secs st (Beat reached answered again now now') =
     heartbeat_round st service node_id addr ttl_secs reached answered again now now'"
| "registrar_step service node_id addr ttl_secs st (Outside e) = reg_step st e"

section \<open>A node that heartbeats is kept\<close>

text \<open>An event of somebody else does not name the node.\<close>

definition foreign :: "string \<Rightarrow> string \<Rightarrow> reg_event \<Rightarrow> bool" where
  "foreign s n e \<longleftrightarrow> \<not> renews s n e \<and> e \<noteq> Unregister s n"

text \<open>The clock of the rounds does not run backwards, and no sweep comes ten seconds after the last round that reached.\<close>

fun in_time :: "string \<Rightarrow> string \<Rightarrow> u128 \<Rightarrow> registrar_event list \<Rightarrow> bool" where
  "in_time s n recent [] = True"
| "in_time s n recent (Beat reached answered again now now' # es) =
     (if reached then clock_ok now \<and> in_time s n now es else in_time s n recent es)"
| "in_time s n recent (Outside e # es) =
     (foreign s n e \<and> (\<forall>t. e = Sweep t \<longrightarrow> unat t < unat recent + TEN_SECONDS) \<and> in_time s n recent es)"

text \<open>The registry has the node as it was registered, with a lease of ten seconds from \<open>recent\<close> at least.\<close>

definition kept :: "string \<Rightarrow> string \<Rightarrow> string \<Rightarrow> meta \<Rightarrow> u128 \<Rightarrow> registry_state \<Rightarrow> bool" where
  "kept s n addr meta recent st \<longleftrightarrow>
     (\<exists>x. node_of st s n = Some x \<and> nr_addr x = addr \<and> nr_meta x = meta \<and>
          unat recent + TEN_SECONDS \<le> unat (nr_expires_at x))"

lemma heartbeat_of_known:
  assumes "node_of st s n \<noteq> None"
  shows "heartbeat_round st s n addr ttl reached answered again now now' = (if reached then reg_step st (Renew s n now) else st)"
  using assms heartbeat_known [of st s n now]
  by (cases "svc_heartbeat st s n now") (auto simp: heartbeat_round_def heartbeat_reply_def)

lemma kept_beat:
  assumes "kept s n addr meta recent st" "clock_ok now"
  shows "kept s n addr meta now (reg_step st (Renew s n now))"
  using assms lease_ten [OF assms(2), of DEFAULT_TTL]
  by (auto simp: kept_def registry.lookup_step refresh_def DEFAULT_TTL_def simp del: reg_step.simps)

lemma kept_foreign:
  assumes "kept s n addr meta recent st" "foreign s n e" "\<And>t. e = Sweep t \<Longrightarrow> unat t < unat recent + TEN_SECONDS"
  shows "kept s n addr meta recent (reg_step st e)"
  using assms by (cases e) (auto simp: kept_def registry.lookup_step foreign_def word_less_nat_alt simp del: reg_step.simps)

lemma kept_run:
  "kept s n addr meta recent st \<Longrightarrow> in_time s n recent es \<Longrightarrow>
   \<exists>recent'. kept s n addr meta recent' (foldl (registrar_step s n addr ttl) st es)"
proof (induction es arbitrary: recent st)
  case (Cons e es)
  show ?case
  proof (cases e)
    case (Beat reached answered again now now')
    then show ?thesis
      using Cons.IH Cons.prems kept_beat [OF Cons.prems(1), of now] heartbeat_of_known [of st s n]
      by (fastforce simp: kept_def split: if_splits)
  next
    case (Outside o')
    then have "kept s n addr meta recent (reg_step st o')" using Cons.prems by (intro kept_foreign) auto
    with Cons.IH Cons.prems(2) Outside show ?thesis by simp
  qed
qed auto

text \<open>
  C20: A running service stays registered: from an answered registration with a lease of at least
  ten seconds on, whatever other clients do and however many of its heartbeats or their answers
  are lost, as long as every sweep comes less than ten seconds after a heartbeat that reached the
  registry (its period is 3 seconds, so two of three may be lost), the node is found under the
  address and with the data it has registered; it is never re-registered with empty data.
\<close>

theorem running_service_stays_registered:
  assumes "register_first st0 s n addr meta ttl True reached answered t0 = (Inr (), st)"
    and "10 \<le> sint (register_ttl ttl)" "clock_ok t0" "in_time s n t0 es"
  shows "\<exists>x. node_of (foldl (registrar_step s n addr ttl) st es) s n = Some x \<and> nr_addr x = addr \<and> nr_meta x = meta"
proof -
  have "st = reg_step st0 (Register s n addr meta ttl t0)"
    using assms(1) by (auto simp: register_first_def split: if_splits)
  then have "kept s n addr meta t0 st"
    using lease_ten [OF assms(3,2)] by (simp add: kept_def registry.lookup_step node_new_def del: reg_step.simps)
  from kept_run [OF this assms(4)] show ?thesis by (auto simp: kept_def)
qed

theorem running_service_stays_registered_witness:
  "\<exists>st x. register_first Map.empty ''gateway'' ''gw-1'' ''a'' [''id'' \<mapsto> ''1''] 10 True True True 0 = (Inr (), st) \<and>
     node_of (foldl (registrar_step ''gateway'' ''gw-1'' ''a'' 10) st
       [Beat False True True 3000000000 0, Beat True False True 6000000000 0, Outside (Sweep 14000000000)])
       ''gateway'' ''gw-1'' = Some x \<and> nr_meta x = [''id'' \<mapsto> ''1'']"
proof -
  obtain st where r: "register_first Map.empty ''gateway'' ''gw-1'' ''a'' [''id'' \<mapsto> ''1''] 10 True True True 0 = (Inr (), st)"
    by (simp add: register_first_def)
  show ?thesis
    using running_service_stays_registered [OF r, of "[Beat False True True 3000000000 0, Beat True False True 6000000000 0,
        Outside (Sweep 14000000000)]"] r
    by (auto simp: register_ttl_def clock_ok_def foreign_def TEN_SECONDS_def)
qed

end
