(* ===== verification/Discovery.thy ===== *)
theory Discovery
  imports Registry "HOL-Library.While_Combinator"
begin

text \<open>
  The gateway's \<open>discovery.rs\<close>: which node of a service gets the requests of a connection.

  \<^item> \<open>fnv1a\<close>, \<open>virtual_points\<close>, \<open>ring_build\<close> and \<open>ring_pick\<close> are the consistent-hash ring.  The
    order in which \<open>sort_unstable_by_key\<close> leaves equal points is not known, so the sorting
    function is an argument with the law \<open>sorts_points\<close>.
  \<^item> \<open>binary_search\<close> is the search of the standard library (\<open>slice::binary_search_by_key\<close>); the
    locale \<open>sorted_search\<close> is what its documentation promises, and the ring relies on that only.
  \<^item> \<open>discovery\<close> is the state of \<open>Discovery\<close> (a cache of node lists with their rings, the
    round-robin cursor, the channel pools); \<open>resolve\<close>, \<open>fetch\<close>, \<open>resolve_by_node_id\<close> and
    \<open>channel_for\<close> are its methods.  The registry's answer, the clock and the outcome of a
    connection attempt are arguments.
\<close>

section \<open>The hash ring\<close>

definition service_for_domain :: "u32 \<Rightarrow> string option" where
  "service_for_domain domain =
     (if domain = DOMAIN_ROOM then Some svc_ROOM
      else if domain = DOMAIN_BATTLE then Some svc_BATTLE
      else if domain = DOMAIN_CARD then Some svc_CARD
      else None)"

definition fnv1a :: "bytes \<Rightarrow> u32" where
  "fnv1a bs = foldl (\<lambda>h b. (h XOR ucast b) * 0x01000193) 0x811c9dc5 bs"

definition VIRTUAL_NODES :: nat where "VIRTUAL_NODES = 100"

definition virtual_point :: "node_info \<Rightarrow> nat \<Rightarrow> u32" where
  "virtual_point n v = fnv1a (string_bytes (ni_node_id n @ ''#'' @ fmt_u32 (word_of_nat v)))"

definition virtual_points :: "node_info list \<Rightarrow> (u32 \<times> nat) list" where
  "virtual_points nodes =
     concat (map (\<lambda>(idx, n). map (\<lambda>v. (virtual_point n v, idx)) [0 ..< VIRTUAL_NODES]) (enumerate 0 nodes))"

type_synonym sorter = "(u32 \<times> nat) list \<Rightarrow> (u32 \<times> nat) list"

definition sorts_points :: "sorter \<Rightarrow> bool" where
  "sorts_points srt \<longleftrightarrow> (\<forall>xs. mset (srt xs) = mset xs \<and> sorted (map fst (srt xs)))"

definition ring_build :: "sorter \<Rightarrow> node_info list \<Rightarrow> (u32 \<times> nat) list" where
  "ring_build srt nodes = srt (virtual_points nodes)"

subsection \<open>Searching\<close>

text \<open>\<open>Ok i\<close> is \<open>Inr i\<close>, \<open>Err i\<close> is \<open>Inl i\<close>.\<close>

definition bsearch_while :: "(nat \<Rightarrow> bool) \<Rightarrow> nat \<Rightarrow> (nat \<times> nat) option" where
  "bsearch_while gt len =
     while_option (\<lambda>(base, size). 1 < size)
       (\<lambda>(base, size). let half = size div 2; mid = base + half
                       in (if gt mid then base else mid, size - half))
       (0, len)"

definition binary_search :: "u32 \<Rightarrow> (u32 \<times> nat) list \<Rightarrow> nat + nat" where
  "binary_search h ring =
     (if ring = [] then Inl 0
      else let base = fst (the (bsearch_while (\<lambda>i. h < fst (ring ! i)) (length ring)));
               p = fst (ring ! base)
           in if p = h then Inr base else Inl (base + (if p < h then 1 else 0)))"

definition ring_pick_with :: "(u32 \<Rightarrow> (u32 \<times> nat) list \<Rightarrow> nat + nat) \<Rightarrow> (u32 \<times> nat) list \<Rightarrow> u32 \<Rightarrow> nat" where
  "ring_pick_with search ring key =
     (if ring = [] then 0
      else case search (fnv1a (le_bytes key)) ring of
             Inr i \<Rightarrow> snd (ring ! i)
           | Inl i \<Rightarrow> snd (ring ! (i mod length ring)))"

definition ring_pick :: "(u32 \<times> nat) list \<Rightarrow> u32 \<Rightarrow> nat" where
  "ring_pick = ring_pick_with binary_search"

section \<open>The discovery state\<close>

record cache_entry =
  ce_nodes :: "node_info list"
  ce_ring :: "(u32 \<times> nat) list"
  ce_fetched_at :: u64

record 'ch discovery =
  dv_cache :: "u32 \<rightharpoonup> cache_entry"
  dv_rr :: u64
  dv_channels :: "string \<rightharpoonup> 'ch list"

definition CACHE_TTL_NS :: u64 where "CACHE_TTL_NS = 3000000000"

definition discovery_new :: "'ch discovery" where
  "discovery_new = \<lparr>dv_cache = Map.empty, dv_rr = 0, dv_channels = Map.empty\<rparr>"

text \<open>The registry's answer to a discovery of a service; \<open>None\<close> is an error.\<close>

type_synonym registry_reply = "string \<Rightarrow> node_info list option"

definition need_fetch :: "'ch discovery \<Rightarrow> u32 \<Rightarrow> u64 \<Rightarrow> bool" where
  "need_fetch dv domain now =
     (case dv_cache dv domain of
        Some e \<Rightarrow> ce_nodes e = [] \<or> CACHE_TTL_NS < saturating_sub now (ce_fetched_at e)
      | None \<Rightarrow> True)"

definition fetch :: "sorter \<Rightarrow> registry_reply \<Rightarrow> 'ch discovery \<Rightarrow> u32 \<Rightarrow> string \<Rightarrow> u64 \<Rightarrow>
    unit option \<times> 'ch discovery" where
  "fetch srt reg dv domain svc_name now' =
     (case reg svc_name of
        Some nodes \<Rightarrow>
          (Some (), dv\<lparr>dv_cache := (dv_cache dv)(domain \<mapsto>
             \<lparr>ce_nodes = nodes, ce_ring = ring_build srt nodes, ce_fetched_at = now'\<rparr>)\<rparr>)
      | None \<Rightarrow> (None, dv))"

text \<open>The first half of both look-ups: the cached entry, fetched again when it has to be.\<close>

definition cached :: "sorter \<Rightarrow> registry_reply \<Rightarrow> 'ch discovery \<Rightarrow> u32 \<Rightarrow> string \<Rightarrow> u64 \<Rightarrow> u64 \<Rightarrow>
    cache_entry option \<times> 'ch discovery" where
  "cached srt reg dv domain svc_name now now' =
     (if need_fetch dv domain now
      then (case fetch srt reg dv domain svc_name now' of
              (None, dv') \<Rightarrow> (None, dv')
            | (Some _, dv') \<Rightarrow> (dv_cache dv' domain, dv'))
      else (dv_cache dv domain, dv))"

text \<open>\<open>nodes.get(idx).cloned()\<close>.\<close>

definition get_nth :: "'a list \<Rightarrow> nat \<Rightarrow> 'a option" where
  "get_nth xs i = (if i < length xs then Some (xs ! i) else None)"

text \<open>\<open>self.rr.fetch_add(1) as usize % len\<close>: the remainder by zero panics.\<close>

definition rr_next :: "'ch discovery \<Rightarrow> nat \<Rightarrow> nat outcome \<times> 'ch discovery" where
  "rr_next dv len =
     (if len = 0 then Inl RemainderByZero else Inr (unat (dv_rr dv) mod len), dv\<lparr>dv_rr := dv_rr dv + 1\<rparr>)"

definition resolve :: "sorter \<Rightarrow> registry_reply \<Rightarrow> 'ch discovery \<Rightarrow> u32 \<Rightarrow> u32 option \<Rightarrow> u64 \<Rightarrow> u64 \<Rightarrow>
    node_info option outcome \<times> 'ch discovery" where
  "resolve srt reg dv domain key now now' =
     (case service_for_domain domain of
        None \<Rightarrow> (Inr None, dv)
      | Some svc_name \<Rightarrow>
          (case cached srt reg dv domain svc_name now now' of
             (None, dv') \<Rightarrow> (Inr None, dv')
           | (Some e, dv') \<Rightarrow>
               if ce_nodes e = [] then (Inr None, dv')
               else (case key of
                       Some k \<Rightarrow> (Inr (get_nth (ce_nodes e) (ring_pick (ce_ring e) k)), dv')
                     | None \<Rightarrow>
                         (case rr_next dv' (length (ce_nodes e)) of
                            (Inl p, dv'') \<Rightarrow> (Inl p, dv'')
                          | (Inr i, dv'') \<Rightarrow> (Inr (get_nth (ce_nodes e) i), dv'')))))"

definition resolve_by_node_id :: "sorter \<Rightarrow> registry_reply \<Rightarrow> 'ch discovery \<Rightarrow> u32 \<Rightarrow> string \<Rightarrow> u64 \<Rightarrow> u64 \<Rightarrow>
    node_info option \<times> 'ch discovery" where
  "resolve_by_node_id srt reg dv domain node_id now now' =
     (case service_for_domain domain of
        None \<Rightarrow> (None, dv)
      | Some svc_name \<Rightarrow>
          (case cached srt reg dv domain svc_name now now' of
             (None, dv') \<Rightarrow> (None, dv')
           | (Some e, dv') \<Rightarrow> (find (\<lambda>n. ni_node_id n = node_id) (ce_nodes e), dv')))"

definition POOL_SIZE :: nat where "POOL_SIZE = 4"

text \<open>
  \<open>connect i\<close> is the outcome of the \<open>i\<close>-th attempt; the first failure gives up.
\<close>

definition channel_for :: "'ch discovery \<Rightarrow> string \<Rightarrow> (nat \<Rightarrow> 'ch option) \<Rightarrow> 'ch option outcome \<times> 'ch discovery" where
  "channel_for dv addr connect =
     (case dv_channels dv addr of
        Some pool \<Rightarrow>
          (case rr_next dv (length pool) of
             (Inl p, dv') \<Rightarrow> (Inl p, dv')
           | (Inr i, dv') \<Rightarrow> (Inr (get_nth pool i), dv'))
      | None \<Rightarrow>
          (case those (map connect [0 ..< POOL_SIZE]) of
             None \<Rightarrow> (Inr None, dv)
           | Some pool \<Rightarrow>
               (case rr_next dv (length pool) of
                  (Inl p, dv') \<Rightarrow> (Inl p, dv')
                | (Inr i, dv') \<Rightarrow>
                    if i < length pool
                    then (Inr (Some (pool ! i)), dv'\<lparr>dv_channels := (dv_channels dv')(addr \<mapsto> pool)\<rparr>)
                    else (Inl IndexOutOfBounds, dv'))))"

text \<open>The calls on a discovery, with what the world answers.\<close>

datatype 'ch dv_op =
    OpResolve registry_reply u32 "u32 option" u64 u64
  | OpById registry_reply u32 string u64 u64
  | OpChannel string "nat \<Rightarrow> 'ch option"

fun dv_step :: "sorter \<Rightarrow> 'ch discovery \<Rightarrow> 'ch dv_op \<Rightarrow> 'ch discovery" where
  "dv_step srt dv (OpResolve reg d k t t') = snd (resolve srt reg dv d k t t')"
| "dv_step srt dv (OpById reg d n t t') = snd (resolve_by_node_id srt reg dv d n t t')"
| "dv_step srt dv (OpChannel addr conn) = snd (channel_for dv addr conn)"

fun op_panics :: "sorter \<Rightarrow> 'ch discovery \<Rightarrow> 'ch dv_op \<Rightarrow> bool" where
  "op_panics srt dv (OpResolve reg d k t t') = panics (fst (resolve srt reg dv d k t t'))"
| "op_panics srt dv (OpById reg d n t t') = False"
| "op_panics srt dv (OpChannel addr conn) = panics (fst (channel_for dv addr conn))"

section \<open>What a binary search finds\<close>

locale sorted_search =
  fixes search :: "u32 \<Rightarrow> (u32 \<times> nat) list \<Rightarrow> nat + nat"
  assumes found: "sorted (map fst xs) \<Longrightarrow> search h xs = Inr i \<Longrightarrow> i < length xs \<and> fst (xs ! i) = h"
    and absent: "sorted (map fst xs) \<Longrightarrow> search h xs = Inl i \<Longrightarrow>
      i \<le> length xs \<and> (\<forall>j<i. fst (xs ! j) < h) \<and> (\<forall>j. i \<le> j \<longrightarrow> j < length xs \<longrightarrow> h < fst (xs ! j))"

text \<open>The first point at or after a hash, or the lowest one.\<close>

definition succ_point :: "u32 set \<Rightarrow> u32 \<Rightarrow> u32" where
  "succ_point P h = (if \<exists>p\<in>P. h \<le> p then Min {p\<in>P. h \<le> p} else Min P)"

lemma succ_in:
  assumes "finite P" "p \<in> P" "h \<le> p"
  shows "Min {p\<in>P. h \<le> p} \<in> {p\<in>P. h \<le> p}"
  using assms by (intro Min_in) auto

lemma succ_point_mem: "finite P \<Longrightarrow> P \<noteq> {} \<Longrightarrow> succ_point P h \<in> P"
  using succ_in [of P _ h] by (auto simp: succ_point_def)

lemma succ_point_ge:
  assumes "finite P" "p \<in> P" "h \<le> p"
  shows "h \<le> succ_point P h \<and> succ_point P h \<le> p"
proof -
  have "Min {p\<in>P. h \<le> p} \<le> p" using assms by (intro Min_le) auto
  with succ_in [OF assms] have "h \<le> Min {p\<in>P. h \<le> p}" "Min {p\<in>P. h \<le> p} \<le> p" by auto
  then show ?thesis using assms by (auto simp: succ_point_def)
qed

text \<open>A point that is the successor in a larger set and belongs to a smaller one is its successor too.\<close>

lemma succ_point_subset:
  assumes "finite Q" "P \<subseteq> Q" "succ_point Q h \<in> P"
  shows "succ_point P h = succ_point Q h"
proof -
  have fP: "finite P" using assms(1,2) by (rule finite_subset [rotated])
  show ?thesis
  proof (cases "\<exists>q\<in>Q. h \<le> q")
    case True
    then have q: "h \<le> succ_point Q h" using succ_point_ge [OF assms(1)] by blast
    then have "h \<le> succ_point P h" "succ_point P h \<le> succ_point Q h"
      using succ_point_ge [OF fP assms(3)] by auto
    moreover have "succ_point P h \<in> Q" using succ_point_mem [OF fP] assms(2,3) by blast
    ultimately show ?thesis using succ_point_ge [OF assms(1), of "succ_point P h" h] by auto
  next
    case False
    then have "\<not> (\<exists>p\<in>P. h \<le> p)" using assms(2) by blast
    then have "succ_point P h = Min P" "succ_point Q h = Min Q" using False by (auto simp: succ_point_def)
    moreover have "Min Q \<le> Min P" using assms fP by (intro Min_antimono) auto
    ultimately show ?thesis using assms(3) fP by (metis Min_le antisym)
  qed
qed

lemma succ_pointI:
  assumes "finite P" "p \<in> P" "h \<le> p" "\<forall>q\<in>P. h \<le> q \<longrightarrow> p \<le> q"
  shows "succ_point P h = p"
  using succ_point_ge [OF assms(1,2,3)] succ_point_mem [OF assms(1), of h] assms by (auto intro: antisym)

lemma succ_point_wrap:
  assumes "finite P" "p \<in> P" "\<forall>q\<in>P. q < h" "\<forall>q\<in>P. p \<le> q"
  shows "succ_point P h = p"
proof -
  have "\<not> (\<exists>q\<in>P. h \<le> q)" using assms(3) by auto
  then have "succ_point P h = Min P" by (auto simp: succ_point_def)
  also have "\<dots> = p" using assms by (intro Min_eqI) auto
  finally show ?thesis .
qed

context sorted_search
begin

lemma pick_successor:
  assumes "sorted (map fst ring)" "ring \<noteq> []"
  shows "(succ_point (fst ` set ring) (fnv1a (le_bytes key)), ring_pick_with search ring key) \<in> set ring"
proof -
  let ?h = "fnv1a (le_bytes key)"
  let ?P = "fst ` set ring"
  have mem: "fst (ring ! i) \<in> ?P" if "i < length ring" for i using that by auto
  have ord: "i \<le> j \<Longrightarrow> j < length ring \<Longrightarrow> fst (ring ! i) \<le> fst (ring ! j)" for i j
    using sorted_nth_mono [OF assms(1), of i j] by simp
  have all: "\<forall>q\<in>?P. Q q" if "\<And>j. j < length ring \<Longrightarrow> Q (fst (ring ! j))" for Q
    using that by (auto simp: in_set_conv_nth) (metis fst_conv)
  show ?thesis
  proof (cases "search ?h ring")
    case (Inr i)
    with found [OF assms(1)] have i: "i < length ring" "fst (ring ! i) = ?h" by auto
    have "succ_point ?P ?h = ?h"
      using i mem [OF i(1)] by (intro succ_pointI) auto
    with i Inr assms(2) show ?thesis by (simp add: ring_pick_with_def) (metis nth_mem prod.collapse)
  next
    case (Inl i)
    with absent [OF assms(1)] have i: "i \<le> length ring" "\<And>j. j < i \<Longrightarrow> fst (ring ! j) < ?h"
      "\<And>j. i \<le> j \<Longrightarrow> j < length ring \<Longrightarrow> ?h < fst (ring ! j)" by auto
    define k where "k = i mod length ring"
    have k: "k < length ring" using assms(2) by (simp add: k_def)
    have "succ_point ?P ?h = fst (ring ! k)"
    proof (cases "i < length ring")
      case True
      then have "k = i" by (simp add: k_def)
      show ?thesis
      proof (rule succ_pointI)
        show "\<forall>q\<in>?P. ?h \<le> q \<longrightarrow> fst (ring ! k) \<le> q"
        proof (rule all, rule impI)
          fix j assume j: "j < length ring" "?h \<le> fst (ring ! j)"
          then have "i \<le> j" using i(2) by (meson not_less)
          then show "fst (ring ! k) \<le> fst (ring ! j)" using ord j \<open>k = i\<close> by simp
        qed
        show "?h \<le> fst (ring ! k)" using i(3) [of i] True \<open>k = i\<close> by simp
      qed (use mem [OF k] in auto)
    next
      case False
      then have "i = length ring" using i(1) by simp
      show ?thesis
      proof (rule succ_point_wrap)
        show "\<forall>q\<in>?P. q < ?h" by (rule all) (simp add: i(2) \<open>i = length ring\<close>)
        show "\<forall>q\<in>?P. fst (ring ! k) \<le> q" by (rule all) (simp add: k_def \<open>i = length ring\<close> ord)
      qed (use mem [OF k] in auto)
    qed
    with k Inl assms(2) show ?thesis by (simp add: ring_pick_with_def k_def)
  qed
qed

end

text \<open>The loop as a recursion; that it ends is shown by the length of the window.\<close>

fun bsearch_loop :: "(nat \<Rightarrow> bool) \<Rightarrow> nat \<Rightarrow> nat \<Rightarrow> nat" where
  "bsearch_loop gt base len =
     (if len \<le> 1 then base
      else let half = len div 2; mid = base + half
           in bsearch_loop gt (if gt mid then base else mid) (len - half))"

declare bsearch_loop.simps [simp del]

lemma while_is_loop:
  assumes "0 < len"
  shows "while_option (\<lambda>(base, size). 1 < size)
       (\<lambda>(base, size). let half = size div 2; mid = base + half
                       in (if gt mid then base else mid, size - half)) (base, len)
     = Some (bsearch_loop gt base len, 1)"
  using assms
proof (induction gt base len rule: bsearch_loop.induct)
  case (1 gt base len)
  show ?case
  proof (cases "len \<le> 1")
    case True
    with 1 have "len = 1" by simp
    then show ?thesis by (subst while_option_unfold) (simp add: bsearch_loop.simps)
  next
    case False
    then have "0 < len - len div 2" by simp
    with 1(1) [OF False refl refl] False show ?thesis
      by (subst while_option_unfold, subst bsearch_loop.simps) (simp add: Let_def)
  qed
qed

text \<open>The loop keeps the place where the points stop being at most \<open>h\<close> in its window.\<close>

lemma bsearch_loop_window:
  assumes "0 < len" "base + len \<le> n" "\<And>i j. i \<le> j \<Longrightarrow> j < n \<Longrightarrow> gt i \<Longrightarrow> gt j"
    and "\<forall>i<base. \<not> gt i" "\<forall>i. base + len \<le> i \<longrightarrow> i < n \<longrightarrow> gt i"
  shows "bsearch_loop gt base len < n \<and> (bsearch_loop gt base len = base \<or> \<not> gt (bsearch_loop gt base len)) \<and>
    (\<forall>i<bsearch_loop gt base len. \<not> gt i) \<and>
    (\<forall>i. bsearch_loop gt base len < i \<longrightarrow> i < n \<longrightarrow> gt i)"
  using assms
proof (induction gt base len rule: bsearch_loop.induct)
  case (1 gt base len)
  note mono = "1.prems"(3)
  show ?case
  proof (cases "len \<le> 1")
    case True
    then have "bsearch_loop gt base len = base" by (simp add: bsearch_loop.simps)
    then show ?thesis using "1.prems" True by (auto simp: Suc_le_eq)
  next
    case False
    define half where "half = len div 2"
    have half: "0 < half" "half < len" "half \<le> len - half" using False by (auto simp: half_def)
    define base' where "base' = (if gt (base + half) then base else base + half)"
    have eq: "bsearch_loop gt base len = bsearch_loop gt base' (len - half)"
      using False by (subst bsearch_loop.simps) (simp add: half_def base'_def Let_def)
    have "bsearch_loop gt base' (len - half) < n \<and>
        (bsearch_loop gt base' (len - half) = base' \<or> \<not> gt (bsearch_loop gt base' (len - half))) \<and>
        (\<forall>i<bsearch_loop gt base' (len - half). \<not> gt i) \<and>
        (\<forall>i. bsearch_loop gt base' (len - half) < i \<longrightarrow> i < n \<longrightarrow> gt i)"
    proof (rule "1.IH" [OF False refl refl, folded half_def, folded base'_def])
      show "0 < len - half" "base' + (len - half) \<le> n"
        using half "1.prems"(2) by (auto simp: base'_def)
      show "\<forall>i<base'. \<not> gt i"
      proof (intro allI impI)
        fix i assume i: "i < base'"
        show "\<not> gt i"
        proof (cases "gt (base + half)")
          case True
          then show ?thesis using i "1.prems"(4) by (simp add: base'_def)
        next
          case False
          then have "i \<le> base + half" using i by (simp add: base'_def)
          moreover have "base + half < n" using half "1.prems"(2) by simp
          ultimately show ?thesis using mono False by blast
        qed
      qed
      show "\<forall>i. base' + (len - half) \<le> i \<longrightarrow> i < n \<longrightarrow> gt i"
        using "1.prems"(5) half mono [of "base + half"] by (auto simp: base'_def)
    qed (rule mono)
    moreover have "base' = base \<or> \<not> gt base'" by (auto simp: base'_def)
    ultimately show ?thesis unfolding eq by metis
  qed
qed

lemma binary_search_spec:
  assumes "sorted (map fst xs)" "xs \<noteq> []"
  obtains base where "base < length xs" "base = 0 \<or> fst (xs ! base) \<le> h" "\<forall>i<base. fst (xs ! i) \<le> h" "\<forall>i. base < i \<longrightarrow> i < length xs \<longrightarrow> h < fst (xs ! i)"
    "binary_search h xs = (if fst (xs ! base) = h then Inr base
       else Inl (base + (if fst (xs ! base) < h then 1 else 0)))"
proof -
  have mono: "i \<le> j \<Longrightarrow> j < length xs \<Longrightarrow> h < fst (xs ! i) \<Longrightarrow> h < fst (xs ! j)" for i j
    using sorted_nth_mono [OF assms(1), of i j] by auto
  define base where "base = bsearch_loop (\<lambda>i. h < fst (xs ! i)) 0 (length xs)"
  have "0 < length xs" using assms(2) by simp
  from while_is_loop [OF this, of "\<lambda>i. h < fst (xs ! i)" 0]
  have "the (bsearch_while (\<lambda>i. h < fst (xs ! i)) (length xs)) = (base, 1)"
    by (simp add: bsearch_while_def base_def)
  then have eq: "binary_search h xs = (if fst (xs ! base) = h then Inr base
       else Inl (base + (if fst (xs ! base) < h then 1 else 0)))"
    using assms(2) by (simp add: binary_search_def Let_def)
  have "base < length xs \<and> (base = 0 \<or> \<not> h < fst (xs ! base)) \<and> (\<forall>i<base. \<not> h < fst (xs ! i)) \<and>
      (\<forall>i. base < i \<longrightarrow> i < length xs \<longrightarrow> h < fst (xs ! i))"
    unfolding base_def using \<open>0 < length xs\<close> mono by (intro bsearch_loop_window) auto
  then show thesis by (intro that [of base] eq) (auto simp: not_less)
qed

interpretation std_search: sorted_search binary_search
proof
  fix xs :: "(u32 \<times> nat) list" and h i
  assume s: "sorted (map fst xs)" and "binary_search h xs = Inr i"
  then have "xs \<noteq> []" by (auto simp: binary_search_def)
  with s \<open>binary_search h xs = Inr i\<close> show "i < length xs \<and> fst (xs ! i) = h"
    by (elim binary_search_spec [where h = h]) (auto split: if_splits)
next
  fix xs :: "(u32 \<times> nat) list" and h i
  assume s: "sorted (map fst xs)" and b: "binary_search h xs = Inl i"
  show "i \<le> length xs \<and> (\<forall>j<i. fst (xs ! j) < h) \<and> (\<forall>j. i \<le> j \<longrightarrow> j < length xs \<longrightarrow> h < fst (xs ! j))"
  proof (cases "xs = []")
    case True
    then show ?thesis using b by (simp add: binary_search_def)
  next
    case False
    from s this obtain base where base: "base < length xs" "base = 0 \<or> fst (xs ! base) \<le> h" "\<forall>i<base. fst (xs ! i) \<le> h"
      "\<forall>i. base < i \<longrightarrow> i < length xs \<longrightarrow> h < fst (xs ! i)"
      "binary_search h xs = (if fst (xs ! base) = h then Inr base
         else Inl (base + (if fst (xs ! base) < h then 1 else 0)))"
      by (rule binary_search_spec)
    have ord: "j \<le> k \<Longrightarrow> k < length xs \<Longrightarrow> fst (xs ! j) \<le> fst (xs ! k)" for j k
      using sorted_nth_mono [OF s, of j k] by simp
    consider "fst (xs ! base) < h" "i = Suc base" | "h < fst (xs ! base)" "i = base"
      using b base(5) by (auto split: if_splits)
    then show ?thesis
    proof cases
      case 1
      have "fst (xs ! j) < h" if "j < i" for j
        using ord [of j base] base(1) 1 that by (auto intro: le_less_trans)
      then show ?thesis using 1 base by auto
    next
      case 2
      then have "base = 0" using base(2) by auto
      moreover have "h < fst (xs ! j)" if "j < length xs" for j
        using 2(1) ord [of base j] that \<open>base = 0\<close> by simp
      ultimately show ?thesis using 2(2) by simp
    qed
  qed
qed

end
