(* ===== verification/Discovery_Props.thy ===== *)
theory Discovery_Props
  imports Discovery
begin

text \<open>
  What routing promises: the ring gives a key the node of the next point whatever the sort did
  with equal points, it is the reference scan, the choice does not depend on the other nodes,
  the search ends, the cache stays well-formed and no look-up panics, and a connection keeps its
  node while the cached list is fresh.
\<close>

section \<open>The points of a node list\<close>

lemma mem_virtual_points:
  "(p, i) \<in> set (virtual_points nodes) \<longleftrightarrow>
   i < length nodes \<and> (\<exists>v<VIRTUAL_NODES. p = virtual_point (nodes ! i) v)"
  by (force simp: virtual_points_def in_set_enumerate_eq)

definition points :: "node_info list \<Rightarrow> u32 set" where
  "points nodes = fst ` set (virtual_points nodes)"

lemma points_eq: "points nodes = {virtual_point n v | n v. n \<in> set nodes \<and> v < VIRTUAL_NODES}"
proof (rule set_eqI)
  fix p
  have "p \<in> points nodes \<longleftrightarrow> (\<exists>i. (p, i) \<in> set (virtual_points nodes))" by (force simp: points_def)
  also have "\<dots> \<longleftrightarrow> (\<exists>n\<in>set nodes. \<exists>v<VIRTUAL_NODES. p = virtual_point n v)"
    unfolding mem_virtual_points by (metis in_set_conv_nth)
  finally show "p \<in> points nodes \<longleftrightarrow> p \<in> {virtual_point n v | n v. n \<in> set nodes \<and> v < VIRTUAL_NODES}" by blast
qed

lemma points_finite [simp]: "finite (points nodes)"
  by (simp add: points_def)

lemma points_empty [simp]: "points nodes = {} \<longleftrightarrow> nodes = []"
proof -
  have "virtual_point (hd nodes) 0 \<in> points nodes" if "nodes \<noteq> []"
    unfolding points_eq using that hd_in_set [OF that] by (force simp: VIRTUAL_NODES_def)
  then show ?thesis by (auto simp: points_eq)
qed

lemma ring_build_facts:
  assumes "sorts_points srt"
  shows "sorted (map fst (ring_build srt nodes))" "set (ring_build srt nodes) = set (virtual_points nodes)"
    "ring_build srt nodes = [] \<longleftrightarrow> nodes = []" "fst ` set (ring_build srt nodes) = points nodes"
proof -
  show "sorted (map fst (ring_build srt nodes))" using assms by (simp add: sorts_points_def ring_build_def)
  have "mset (ring_build srt nodes) = mset (virtual_points nodes)"
    using assms by (simp add: sorts_points_def ring_build_def)
  then show s: "set (ring_build srt nodes) = set (virtual_points nodes)" by (metis set_mset_mset)
  show p: "fst ` set (ring_build srt nodes) = points nodes" by (simp add: s points_def)
  show "ring_build srt nodes = [] \<longleftrightarrow> nodes = []" by (metis image_is_empty p points_empty set_empty)
qed

lemma ring_pick_mem:
  assumes "sorts_points srt" "nodes \<noteq> []"
  shows "(succ_point (points nodes) (fnv1a (le_bytes key)), ring_pick (ring_build srt nodes) key)
    \<in> set (virtual_points nodes)"
  using std_search.pick_successor [of "ring_build srt nodes" key] assms ring_build_facts [OF assms(1), of nodes]
  by (simp add: ring_pick_def)

text \<open>The node a key gets.\<close>

definition node_for :: "sorter \<Rightarrow> node_info list \<Rightarrow> u32 \<Rightarrow> node_info" where
  "node_for srt nodes key = nodes ! ring_pick (ring_build srt nodes) key"

lemma node_for_point:
  assumes "sorts_points srt" "nodes \<noteq> []"
  shows "node_for srt nodes key \<in> set nodes \<and> ring_pick (ring_build srt nodes) key < length nodes \<and>
    (\<exists>v<VIRTUAL_NODES. virtual_point (node_for srt nodes key) v = succ_point (points nodes) (fnv1a (le_bytes key)))"
  using ring_pick_mem [OF assms, of key] by (auto simp: mem_virtual_points node_for_def)

definition no_collision :: "node_info list \<Rightarrow> bool" where
  "no_collision nodes \<longleftrightarrow> (\<forall>a\<in>set nodes. \<forall>b\<in>set nodes. \<forall>u<VIRTUAL_NODES. \<forall>v<VIRTUAL_NODES.
     virtual_point a u = virtual_point b v \<longrightarrow> a = b)"

lemma sorts_points_sort_key: "sorts_points (sort_key fst)"
  by (simp add: sorts_points_def)

section \<open>The search\<close>

text \<open>
  The binary search over a ring ends: the window shrinks to one point, and that point is
  inside the ring.
\<close>

lemma ring_search_terminates:
  assumes "sorts_points srt" "nodes \<noteq> []"
  shows "\<exists>base. bsearch_while (\<lambda>i. h < fst (ring_build srt nodes ! i)) (length (ring_build srt nodes)) = Some (base, 1) \<and>
    base < length (ring_build srt nodes)"
proof -
  let ?ring = "ring_build srt nodes"
  have ne: "?ring \<noteq> []" using ring_build_facts [OF assms(1), of nodes] assms(2) by blast
  have mono: "i \<le> j \<Longrightarrow> j < length ?ring \<Longrightarrow> h < fst (?ring ! i) \<Longrightarrow> h < fst (?ring ! j)" for i j
    using sorted_nth_mono [OF ring_build_facts(1) [OF assms(1), of nodes], of i j] by auto
  have len: "0 < length ?ring" using ne by simp
  have "bsearch_loop (\<lambda>i. h < fst (?ring ! i)) 0 (length ?ring) < length ?ring"
    by (rule conjunct1, rule bsearch_loop_window) (use len mono in auto)
  moreover from while_is_loop [OF len]
  have "bsearch_while (\<lambda>i. h < fst (?ring ! i)) (length ?ring) =
      Some (bsearch_loop (\<lambda>i. h < fst (?ring ! i)) 0 (length ?ring), 1)"
    unfolding bsearch_while_def .
  ultimately show ?thesis by blast
qed

lemma ring_search_terminates_witness:
  "\<exists>base. bsearch_while (\<lambda>i. 7 < fst (ring_build (sort_key fst) [\<lparr>ni_node_id = ''a'', ni_addr = ''x'', ni_meta = Map.empty\<rparr>] ! i))
     (length (ring_build (sort_key fst) [\<lparr>ni_node_id = ''a'', ni_addr = ''x'', ni_meta = Map.empty\<rparr>])) = Some (base, 1)"
  using ring_search_terminates [OF sorts_points_sort_key, of "[\<lparr>ni_node_id = ''a'', ni_addr = ''x'', ni_meta = Map.empty\<rparr>]" 7]
  by blast

text \<open>The reference: a scan of the points in order, for the first one that is not below the hash.\<close>

fun scan :: "u32 \<Rightarrow> (u32 \<times> nat) list \<Rightarrow> nat option" where
  "scan h [] = None"
| "scan h ((p, i) # ring) = (if h \<le> p then Some i else scan h ring)"

definition scan_pick :: "node_info list \<Rightarrow> u32 \<Rightarrow> nat" where
  "scan_pick nodes key =
     (let ring = sort_key fst (virtual_points nodes)
      in case scan (fnv1a (le_bytes key)) ring of Some i \<Rightarrow> i | None \<Rightarrow> (if ring = [] then 0 else snd (hd ring)))"

lemma scan_Some: "sorted (map fst ring) \<Longrightarrow> scan h ring = Some i \<Longrightarrow> (succ_point (fst ` set ring) h, i) \<in> set ring"
proof -
  have "\<exists>p. (p, i) \<in> set ring \<and> h \<le> p \<and> (\<forall>q\<in>fst ` set ring. h \<le> q \<longrightarrow> p \<le> q)"
    if "sorted (map fst ring)" "scan h ring = Some i"
    using that by (induction h ring rule: scan.induct) (auto split: if_splits intro: order_trans)
  moreover assume "sorted (map fst ring)" "scan h ring = Some i"
  ultimately obtain p where p: "(p, i) \<in> set ring" "h \<le> p" "\<forall>q\<in>fst ` set ring. h \<le> q \<longrightarrow> p \<le> q" by blast
  then have "succ_point (fst ` set ring) h = p" by (intro succ_pointI) force+
  then show ?thesis using p(1) by simp
qed

lemma scan_None:
  assumes "sorted (map fst ring)" "scan h ring = None" "ring \<noteq> []"
  shows "(succ_point (fst ` set ring) h, snd (hd ring)) \<in> set ring"
proof -
  have "\<forall>q\<in>fst ` set ring. q < h"
    using assms(2) by (induction h ring rule: scan.induct) (auto split: if_splits)
  moreover obtain p i ring' where "ring = (p, i) # ring'" using assms(3) by (metis list.exhaust surj_pair)
  ultimately have "succ_point (fst ` set ring) h = p"
    using assms(1) by (intro succ_point_wrap) auto
  then show ?thesis by (simp add: \<open>ring = (p, i) # ring'\<close>)
qed

text \<open>
  The ring and its binary search compute the reference: the node of the first point at or
  after the key's hash, going round to the lowest point, found by a scan of the sorted points;
  whatever order the sort gives to equal points, when no two virtual nodes share a point.
\<close>

lemma ring_pick_is_scan:
  assumes "sorts_points srt" "distinct (map fst (virtual_points nodes))"
  shows "ring_pick (ring_build srt nodes) key = scan_pick nodes key"
proof (cases "nodes = []")
  case True
  then have "ring_build srt nodes = []" using ring_build_facts [OF assms(1), of nodes] by simp
  then show ?thesis using True by (simp add: ring_pick_def ring_pick_with_def scan_pick_def virtual_points_def)
next
  case False
  let ?h = "fnv1a (le_bytes key)"
  let ?ring = "sort_key fst (virtual_points nodes)"
  have ne: "?ring \<noteq> []" using False by (metis points_def points_empty image_empty set_empty set_sort)
  have P: "fst ` set ?ring = points nodes" by (simp add: points_def)
  have "(succ_point (points nodes) ?h, scan_pick nodes key) \<in> set (virtual_points nodes)"
    using scan_Some [of ?ring ?h] scan_None [of ?ring ?h] ne P
    by (auto simp: scan_pick_def Let_def split: option.splits)
  with ring_pick_mem [OF assms(1) False, of key] assms(2) show ?thesis
    by (metis map_of_eq_Some_iff option.inject)
qed

section \<open>Stable routing\<close>

text \<open>
  C10: Consistent hashing: when the node that a key gets among \<open>ys\<close> is also in a smaller set
  of nodes \<open>xs\<close>, the key gets it there too.  So neither the order in which the registry lists
  the nodes, nor the arrival of other nodes, nor the departure of nodes that do not serve the
  key, moves it, as long as no two nodes share a point.
\<close>

theorem routing_is_stable:
  assumes "sorts_points srt" "sorts_points srt'" "no_collision ys" "set xs \<subseteq> set ys"
    and "node_for srt ys key \<in> set xs"
  shows "node_for srt' xs key = node_for srt ys key"
proof -
  let ?h = "fnv1a (le_bytes key)"
  have ne: "xs \<noteq> []" "ys \<noteq> []" using assms(4,5) by auto
  obtain v where v: "v < VIRTUAL_NODES" "virtual_point (node_for srt ys key) v = succ_point (points ys) ?h"
    using node_for_point [OF assms(1) ne(2)] by blast
  then have "succ_point (points ys) ?h \<in> points xs" using assms(5) unfolding points_eq [of xs] by force
  moreover have "points xs \<subseteq> points ys" using assms(4) by (auto simp: points_eq)
  ultimately have "succ_point (points xs) ?h = succ_point (points ys) ?h" by (simp add: succ_point_subset)
  moreover obtain u where "u < VIRTUAL_NODES" "virtual_point (node_for srt' xs key) u = succ_point (points xs) ?h"
    and "node_for srt' xs key \<in> set xs"
    using node_for_point [OF assms(2) ne(1)] by blast
  ultimately show ?thesis using v assms(3-5) unfolding no_collision_def by (metis subsetD)
qed

subsection \<open>Two nodes without a collision\<close>

definition node_a :: node_info where "node_a = \<lparr>ni_node_id = ''a'', ni_addr = ''x:1'', ni_meta = Map.empty\<rparr>"
definition node_b :: node_info where "node_b = \<lparr>ni_node_id = ''b'', ni_addr = ''y:1'', ni_meta = Map.empty\<rparr>"

definition points_a :: "nat list" where "points_a =
  [
   4037809751, 4021032132, 4071364989, 4054587370, 3970699275, 3953921656, 4004254513, 3987476894,
   3903588799, 3886811180, 1071971356, 1088748975, 1105526594, 1122304213, 1004860880, 1021638499,
   1038416118, 1055193737, 1206192308, 1222969927, 1374409783, 1357632164, 1407965021, 1391187402,
   1307299307, 1290521688, 1340854545, 1324076926, 1240188831, 1223411212, 1273596974, 1290374593,
   1240041736, 1256819355, 1340707450, 1357485069, 1307152212, 1323929831, 1139376022, 1156153641,
   3453848801, 3437071182, 3420293563, 3403515944, 3520959277, 3504181658, 3487404039, 3470626420,
   3319627849, 3302850230, 1205500760, 1222278379, 1239055998, 1255833617, 1272611236, 1289388855,
   1306166474, 1322944093, 1071279808, 1088057427, 3118590611, 3101812992, 3152145849, 3135368230,
   3185701087, 3168923468, 3219256325, 3202478706, 3252811563, 3236033944, 3554661610, 3571439229,
   3521106372, 3537883991, 3487551134, 3504328753, 3453995896, 3470773515, 3420440658, 3437218277,
   3587378205, 3570600586, 3553822967, 3537045348, 3520267729, 3503490110, 3486712491, 3469934872,
   3453157253, 3436379634, 3486565396, 3503343015, 3520120634, 3536898253, 3419454920, 3436232539,
   3453010158, 3469787777, 3352344444, 3369122063]"

definition points_b :: "nat list" where "points_b =
  [
   559601318, 576378937, 526046080, 542823699, 626711794, 643489413, 593156556, 609934175,
   693822270, 710599889, 503453227, 486675608, 537008465, 520230846, 570563703, 553786084,
   604118941, 587341322, 369232275, 352454656, 201014800, 217792419, 234570038, 251347657,
   268125276, 284902895, 301680514, 318458133, 335235752, 352013371, 301827609, 285049990,
   268272371, 251494752, 368938085, 352160466, 335382847, 318605228, 436048561, 419270942,
   2416543078, 2433320697, 2382987840, 2399765459, 2483653554, 2500431173, 2450098316, 2466875935,
   2550764030, 2567541649, 369923823, 353146204, 403479061, 386701442, 302813347, 286035728,
   336368585, 319590966, 504144775, 487367156, 2751801268, 2768578887, 2785356506, 2802134125,
   2684690792, 2701468411, 2718246030, 2735023649, 2617580316, 2634357935, 2852614077, 2835836458,
   2819058839, 2802281220, 2785503601, 2768725982, 2751948363, 2735170744, 2718393125, 2701615506,
   672362250, 689139869, 638807012, 655584631, 605251774, 622029393, 571696536, 588474155,
   538141298, 554918917, 2383826483, 2367048864, 2417381721, 2400604102, 2450936959, 2434159340,
   2484492197, 2467714578, 2518047435, 2501269816]"

lemma word_of_digit: "of_char (char_of n) = (word_of_nat (n mod 256) :: u8)" for n :: nat
  by (metis of_char_of of_char_mod_256 of_nat_of_char)

lemma upt_100: "[0 ..< VIRTUAL_NODES] =
  [0, 1, 2, 3, 4, 5, 6, 7, 8, 9, 10, 11, 12, 13, 14, 15, 16, 17, 18, 19, 20, 21, 22, 23, 24, 25,
   26, 27, 28, 29, 30, 31, 32, 33, 34, 35, 36, 37, 38, 39, 40, 41, 42, 43, 44, 45, 46, 47, 48,
   49, 50, 51, 52, 53, 54, 55, 56, 57, 58, 59, 60, 61, 62, 63, 64, 65, 66, 67, 68, 69, 70, 71,
   72, 73, 74, 75, 76, 77, 78, 79, 80, 81, 82, 83, 84, 85, 86, 87, 88, 89, 90, 91, 92, 93, 94,
   95, 96, 97, 98, 99]"
  by (simp add: VIRTUAL_NODES_def upt_conv_Cons)

lemmas point_eval = virtual_point_def fmt_u32_def show_base.simps digit_char_def string_bytes_def fnv1a_def word_of_digit

lemma points_a: "map (\<lambda>v. unat (virtual_point node_a v)) [0 ..< VIRTUAL_NODES] = points_a"
  by (simp add: upt_100 points_a_def node_a_def point_eval)

lemma points_b: "map (\<lambda>v. unat (virtual_point node_b v)) [0 ..< VIRTUAL_NODES] = points_b"
  by (simp add: upt_100 points_b_def node_b_def point_eval)

lemma points_disjoint: "\<forall>p\<in>set points_a. p \<notin> set points_b"
  by (simp add: points_a_def points_b_def)

lemma distinct_points: "distinct points_a" "distinct points_b"
  by (simp_all add: points_a_def points_b_def)

lemma a_not_b: "u < VIRTUAL_NODES \<Longrightarrow> v < VIRTUAL_NODES \<Longrightarrow> virtual_point node_a u \<noteq> virtual_point node_b v"
proof -
  assume "u < VIRTUAL_NODES" "v < VIRTUAL_NODES"
  then have "unat (virtual_point node_a u) \<in> set points_a" "unat (virtual_point node_b v) \<in> set points_b"
    unfolding points_a [symmetric] points_b [symmetric] by simp_all
  then show ?thesis using points_disjoint by auto
qed

lemma no_collision_ab: "no_collision [node_a, node_b]"
  unfolding no_collision_def using a_not_b a_not_b [symmetric] by auto

theorem routing_is_stable_witness:
  "\<forall>key. node_for (sort_key fst) [node_b, node_a] key = node_for (sort_key fst) [node_a, node_b] key"
  using routing_is_stable [OF sorts_points_sort_key sorts_points_sort_key no_collision_ab, of "[node_b, node_a]"]
    node_for_point [OF sorts_points_sort_key, of "[node_a, node_b]"]
  by auto

lemma ring_pick_is_scan_witness:
  "\<forall>key. ring_pick (ring_build (sort_key fst) [node_a]) key = scan_pick [node_a] key"
proof
  fix key
  have "distinct (map (virtual_point node_a) [0 ..< VIRTUAL_NODES])"
    using distinct_points(1) unfolding points_a [symmetric] by (simp add: distinct_map inj_on_def)
  then have "distinct (map fst (virtual_points [node_a]))"
    by (simp add: virtual_points_def comp_def)
  then show "ring_pick (ring_build (sort_key fst) [node_a]) key = scan_pick [node_a] key"
    by (rule ring_pick_is_scan [OF sorts_points_sort_key])
qed

section \<open>The cache\<close>

definition cache_ok :: "'ch discovery \<Rightarrow> bool" where
  "cache_ok dv \<longleftrightarrow>
     (\<forall>d e. dv_cache dv d = Some e \<longrightarrow> service_for_domain d \<noteq> None \<and>
        mset (ce_ring e) = mset (virtual_points (ce_nodes e)) \<and> sorted (map fst (ce_ring e))) \<and>
     (\<forall>a pool. dv_channels dv a = Some pool \<longrightarrow> length pool = POOL_SIZE)"

lemma rr_next_ok: "0 < len \<Longrightarrow> rr_next dv len = (Inr (unat (dv_rr dv) mod len), dv\<lparr>dv_rr := dv_rr dv + 1\<rparr>)"
  by (simp add: rr_next_def)

lemma cache_ok_rr [simp]: "cache_ok (dv\<lparr>dv_rr := r\<rparr>) = cache_ok dv"
  by (simp add: cache_ok_def)

lemma cached_ok:
  assumes "cache_ok dv" "sorts_points srt" "cached srt reg dv d name now now' = (r, dv')"
    and "service_for_domain d = Some name"
  shows "cache_ok dv' \<and> dv_rr dv' = dv_rr dv \<and> dv_channels dv' = dv_channels dv \<and>
    (\<forall>e. r = Some e \<longrightarrow> dv_cache dv' d = Some e)"
  using assms
  by (auto simp: cached_def fetch_def cache_ok_def sorts_points_def ring_build_def split: if_splits option.splits)

lemma ring_pick_in_range:
  assumes "mset ring = mset (virtual_points nodes)" "sorted (map fst ring)" "nodes \<noteq> []"
  shows "ring_pick ring key < length nodes"
proof -
  have s: "set ring = set (virtual_points nodes)" using assms(1) by (metis set_mset_mset)
  then have "ring \<noteq> []" using points_empty [of nodes] assms(3) by (auto simp: points_def)
  from std_search.pick_successor [OF assms(2) this, of key] show ?thesis
    unfolding s by (simp add: ring_pick_def mem_virtual_points)
qed

lemma resolve_ok:
  assumes "cache_ok dv" "sorts_points srt"
  shows "cache_ok (snd (resolve srt reg dv d key now now')) \<and> \<not> panics (fst (resolve srt reg dv d key now now'))"
proof (cases "service_for_domain d")
  case (Some name)
  obtain r dv' where c: "cached srt reg dv d name now now' = (r, dv')" by force
  note ok = cached_ok [OF assms c Some]
  show ?thesis
    using ok Some c by (cases r) (auto simp: resolve_def rr_next_ok split: option.splits)
qed (simp add: resolve_def assms)

lemma resolve_by_node_id_ok:
  assumes "cache_ok dv" "sorts_points srt"
  shows "cache_ok (snd (resolve_by_node_id srt reg dv d n now now'))"
proof (cases "service_for_domain d")
  case (Some name)
  obtain r dv' where c: "cached srt reg dv d name now now' = (r, dv')" by force
  with cached_ok [OF assms c Some] Some show ?thesis
    by (simp add: resolve_by_node_id_def split: option.splits)
qed (simp add: resolve_by_node_id_def assms)

lemma those_length: "those xs = Some ys \<Longrightarrow> length ys = length xs"
  by (induction xs arbitrary: ys) (auto split: option.splits)

lemma channel_for_ok:
  assumes "cache_ok dv"
  shows "cache_ok (snd (channel_for dv addr conn)) \<and> \<not> panics (fst (channel_for dv addr conn))"
proof (cases "dv_channels dv addr")
  case None
  show ?thesis
  proof (cases "those (map conn [0 ..< POOL_SIZE])")
    case (Some pool)
    then have "length pool = POOL_SIZE" by (auto dest: those_length)
    with None Some assms show ?thesis
      by (auto simp: channel_for_def rr_next_ok POOL_SIZE_def cache_ok_def)
  qed (simp add: channel_for_def None assms)
next
  case (Some pool)
  then have "length pool = POOL_SIZE" using assms by (simp add: cache_ok_def)
  with Some assms show ?thesis by (simp add: channel_for_def rr_next_ok POOL_SIZE_def)
qed

lemma dv_step_ok: "cache_ok dv \<Longrightarrow> sorts_points srt \<Longrightarrow> cache_ok (dv_step srt dv op) \<and> \<not> op_panics srt dv op"
  by (cases op) (simp_all add: resolve_ok resolve_by_node_id_ok channel_for_ok)

lemma dv_run_ok: "cache_ok dv \<Longrightarrow> sorts_points srt \<Longrightarrow> cache_ok (foldl (dv_step srt) dv ops)"
  by (induction ops arbitrary: dv) (simp_all add: dv_step_ok)

lemma cache_ok_new: "cache_ok discovery_new"
  by (simp add: cache_ok_def discovery_new_def)

text \<open>
  C35: The cache is well-formed in every reachable state: every entry belongs to a game domain,
  its ring holds the virtual points of its own node list in order, and every channel pool has
  its four channels.  So no look-up panics on an index or a remainder by zero, and a key is
  always given a node of the list.
\<close>

theorem discovery_well_formed:
  assumes "sorts_points srt"
  shows "cache_ok (foldl (dv_step srt) discovery_new ops) \<and>
    \<not> op_panics srt (foldl (dv_step srt) discovery_new ops) op \<and>
    (\<forall>d e key. dv_cache (foldl (dv_step srt) discovery_new ops) d = Some e \<longrightarrow> ce_nodes e \<noteq> [] \<longrightarrow>
       ring_pick (ce_ring e) key < length (ce_nodes e))"
  using dv_run_ok [OF cache_ok_new assms, of ops] dv_step_ok [OF _ assms] ring_pick_in_range
  unfolding cache_ok_def by blast

theorem discovery_well_formed_witness:
  "\<not> op_panics (sort_key fst) (foldl (dv_step (sort_key fst)) (discovery_new :: string discovery)
       [OpResolve (\<lambda>_. Some [node_a, node_b]) DOMAIN_CARD (Some 7) 5 6]) (OpResolve (\<lambda>_. None) DOMAIN_CARD None 7 8)"
  using discovery_well_formed [OF sorts_points_sort_key] by blast

subsection \<open>Affinity\<close>

fun op_clock :: "'ch dv_op \<Rightarrow> u64 option" where
  "op_clock (OpResolve _ _ _ t _) = Some t"
| "op_clock (OpById _ _ _ t _) = Some t"
| "op_clock (OpChannel _ _) = None"

definition fresh :: "cache_entry \<Rightarrow> u64 \<Rightarrow> bool" where
  "fresh e t \<longleftrightarrow> unat t \<le> unat (ce_fetched_at e) + 3000000000"

lemma need_fetch_fresh:
  "dv_cache dv d = Some e \<Longrightarrow> ce_nodes e \<noteq> [] \<Longrightarrow> fresh e t \<Longrightarrow> \<not> need_fetch dv d t"
  by (auto simp: need_fetch_def fresh_def CACHE_TTL_NS_def word_less_nat_alt unat_saturating_sub)

lemma cached_fresh:
  "dv_cache dv d = Some e \<Longrightarrow> ce_nodes e \<noteq> [] \<Longrightarrow> fresh e t \<Longrightarrow> cached srt reg dv d name t t' = (Some e, dv)"
  by (simp add: cached_def need_fetch_fresh)

lemma cached_other: "d' \<noteq> d \<Longrightarrow> dv_cache (snd (cached srt reg dv d' name t t')) d = dv_cache dv d"
  by (auto simp: cached_def fetch_def split: option.splits)

lemma cached_keeps:
  assumes "dv_cache dv d = Some e" "ce_nodes e \<noteq> []" "fresh e t"
  shows "dv_cache (snd (cached srt reg dv d' name t t')) d = Some e"
proof (cases "d' = d")
  case True
  then show ?thesis by (simp add: cached_fresh [OF assms] assms(1))
next
  case False
  then show ?thesis by (simp add: cached_other assms(1))
qed

lemma rr_next_cache [simp]: "dv_cache (snd (rr_next dv n)) = dv_cache dv"
  by (simp add: rr_next_def)

lemma dv_step_keeps:
  assumes "dv_cache dv d = Some e" "ce_nodes e \<noteq> []" "\<And>t. op_clock op = Some t \<Longrightarrow> fresh e t"
  shows "dv_cache (dv_step srt dv op) d = Some e"
proof (cases op)
  case (OpResolve reg d' k t t')
  show ?thesis
  proof (cases "service_for_domain d'")
    case (Some name)
    obtain r dv' where c: "cached srt reg dv d' name t t' = (r, dv')" by force
    have "dv_cache dv' d = Some e"
      using cached_keeps [OF assms(1,2), of t srt reg d' name t'] assms(3) OpResolve c by simp
    then show ?thesis
      using OpResolve Some c by (simp add: resolve_def rr_next_def split: option.splits)
  qed (simp add: OpResolve resolve_def assms(1))
next
  case (OpById reg d' n t t')
  show ?thesis
  proof (cases "service_for_domain d'")
    case (Some name)
    obtain r dv' where c: "cached srt reg dv d' name t t' = (r, dv')" by force
    have "dv_cache dv' d = Some e"
      using cached_keeps [OF assms(1,2), of t srt reg d' name t'] assms(3) OpById c by simp
    then show ?thesis
      using OpById Some c by (simp add: resolve_by_node_id_def split: option.splits)
  qed (simp add: OpById resolve_by_node_id_def assms(1))
next
  case (OpChannel addr conn)
  then show ?thesis
    using assms(1) by (simp add: channel_for_def rr_next_def split: option.splits)
qed

lemma dv_run_keeps:
  "dv_cache dv d = Some e \<Longrightarrow> ce_nodes e \<noteq> [] \<Longrightarrow> \<forall>op\<in>set ops. \<forall>t. op_clock op = Some t \<longrightarrow> fresh e t \<Longrightarrow>
   dv_cache (foldl (dv_step srt) dv ops) d = Some e"
proof (induction ops arbitrary: dv)
  case (Cons op ops)
  then show ?case using dv_step_keeps [of dv d e op srt] by simp
qed simp

lemma resolve_fresh:
  assumes "service_for_domain d = Some name" "dv_cache dv d = Some e" "ce_nodes e \<noteq> []" "fresh e t"
  shows "resolve srt reg dv d (Some k) t t' = (Inr (get_nth (ce_nodes e) (ring_pick (ce_ring e) k)), dv)"
  using cached_fresh [OF assms(2-4)] assms(1,3) by (simp add: resolve_def)

text \<open>
  Session affinity: once a connection has been given a node, every request of it within
  three seconds of the fetch of the node list goes to the same node, whatever other look-ups
  happen in between and whatever the registry would answer by then.
\<close>

lemma session_affinity:
  assumes "resolve srt reg dv d (Some k) now now' = (Inr (Some n), dv1)" "dv_cache dv1 d = Some e"
    and "\<forall>op\<in>set ops. \<forall>t. op_clock op = Some t \<longrightarrow> fresh e t" "fresh e later"
  shows "fst (resolve srt reg' (foldl (dv_step srt) dv1 ops) d (Some k) later later') = Inr (Some n)"
proof -
  obtain name where name: "service_for_domain d = Some name"
    using assms(1) by (auto simp: resolve_def split: option.splits)
  obtain e' where e': "cached srt reg dv d name now now' = (Some e', dv1)" "ce_nodes e' \<noteq> []"
    "get_nth (ce_nodes e') (ring_pick (ce_ring e') k) = Some n"
    using assms(1) name by (auto simp: resolve_def split: option.splits prod.splits if_splits)
  then have "dv_cache dv1 d = Some e'"
    by (auto simp: cached_def fetch_def split: if_splits option.splits)
  then have "e' = e" using assms(2) by simp
  with e' have e: "ce_nodes e \<noteq> []" "get_nth (ce_nodes e) (ring_pick (ce_ring e) k) = Some n" by auto
  show ?thesis
    unfolding resolve_fresh [OF name dv_run_keeps [OF assms(2) e(1) assms(3)] e(1) assms(4)] by (simp add: e(2))
qed

lemma session_affinity_witness:
  "\<exists>(dv1 :: string discovery) n. resolve (sort_key fst) (\<lambda>_. Some [node_a]) discovery_new DOMAIN_CARD (Some 7) 5 6 = (Inr (Some n), dv1) \<and>
     fst (resolve (sort_key fst) (\<lambda>_. None) (foldl (dv_step (sort_key fst)) dv1 [OpResolve (\<lambda>_. None) DOMAIN_CARD None 9 9])
       DOMAIN_CARD (Some 7) 2000000000 2000000000) = Inr (Some n)"
proof -
  define e where "e = \<lparr>ce_nodes = [node_a], ce_ring = ring_build (sort_key fst) [node_a], ce_fetched_at = 6\<rparr>"
  define dv1 :: "string discovery" where "dv1 = discovery_new\<lparr>dv_cache := [DOMAIN_CARD \<mapsto> e]\<rparr>"
  have "ring_pick (ce_ring e) 7 = 0"
    using node_for_point [OF sorts_points_sort_key, of "[node_a]" 7] by (simp add: e_def)
  then have r: "resolve (sort_key fst) (\<lambda>_. Some [node_a]) discovery_new DOMAIN_CARD (Some 7) 5 6 = (Inr (Some node_a), dv1)"
    by (simp add: resolve_def service_for_domain_def domain_defs cached_def need_fetch_def discovery_new_def
        fetch_def dv1_def e_def get_nth_def)
  have "dv_cache dv1 DOMAIN_CARD = Some e" by (simp add: dv1_def)
  from session_affinity [OF r this, of "[OpResolve (\<lambda>_. None) DOMAIN_CARD None 9 9]" 2000000000]
  show ?thesis using r by (auto simp: fresh_def e_def)
qed

end
