(* ===== verification/SessionDir.thy ===== *)
theory SessionDir
  imports SvcFw
begin

text \<open>
  \<open>grimoire-svcfw/src/session_dir.rs\<close>: the session directory and the match-making lobby, kept
  in Redis under \<open>grimoire:sess:<domain>:<session>\<close> and \<open>grimoire:sess:lobby:<domain>\<close>.

  Redis is a parameter: \<open>exec\<close> executes one command on a server state, \<open>view\<close> reads the keys of
  it, and \<open>redis_ok\<close> states what the documentation says of the six commands used.  Every command
  may fail with an error, after which nothing is known of the state.

  The lemmas show that no two entries share a key and that the operations implement two maps:
  the node of a session, and the waiting session of a domain.
\<close>

section \<open>Redis\<close>

datatype redis_cmd =
    SETEX string nat string
  | GET string
  | DEL string
  | SETNX string string        \<comment> \<open>\<open>SET key value NX\<close>\<close>
  | GETDEL string
  | DELIFEQ string string      \<comment> \<open>the compare-and-delete script\<close>

datatype redis_reply = RError | RNil | ROk | RInt int | RBulk string

type_synonym 'r redis = "'r \<Rightarrow> redis_cmd \<Rightarrow> redis_reply \<times> 'r"

text \<open>The documented effect of a command on the keys, and its reply.\<close>

fun redis_spec :: "(string \<rightharpoonup> string) \<Rightarrow> redis_cmd \<Rightarrow> redis_reply \<times> (string \<rightharpoonup> string)" where
  "redis_spec m (SETEX k ttl v) = (ROk, m(k \<mapsto> v))"
| "redis_spec m (GET k) = ((case m k of None \<Rightarrow> RNil | Some v \<Rightarrow> RBulk v), m)"
| "redis_spec m (DEL k) = (RInt (if m k = None then 0 else 1), m(k := None))"
| "redis_spec m (SETNX k v) = (if m k = None then (ROk, m(k \<mapsto> v)) else (RNil, m))"
| "redis_spec m (GETDEL k) = ((case m k of None \<Rightarrow> RNil | Some v \<Rightarrow> RBulk v), m(k := None))"
| "redis_spec m (DELIFEQ k v) = (if m k = Some v then (RInt 1, m(k := None)) else (RInt 0, m))"

definition redis_ok :: "'r redis \<Rightarrow> ('r \<Rightarrow> string \<rightharpoonup> string) \<Rightarrow> bool" where
  "redis_ok exec view \<longleftrightarrow> (\<forall>r c. fst (exec r c) = RError \<or>
     (fst (exec r c), view (snd (exec r c))) = redis_spec (view r) c)"

section \<open>Numbers as text\<close>

text \<open>
  How the \<open>redis\<close> library reads a \<open>u32\<close> back (\<open>str::parse\<close>): an optional plus sign, then
  decimal digits, below \<open>2^32\<close>.
\<close>

definition is_digit :: "char \<Rightarrow> bool" where
  "is_digit c \<longleftrightarrow> of_char c \<in> {48..57::nat}"

definition parse_nat :: "nat \<Rightarrow> string \<Rightarrow> nat option" where
  "parse_nat bound s =
     (let ds = (case s of c # cs \<Rightarrow> if c = CHR ''+'' \<and> cs \<noteq> [] then cs else s | [] \<Rightarrow> s)
      in if ds \<noteq> [] \<and> list_all is_digit ds \<and> read_base 10 ds < bound then Some (read_base 10 ds) else None)"

definition parse_u32 :: "string \<Rightarrow> u32 option" where
  "parse_u32 s = map_option word_of_nat (parse_nat (2 ^ 32) s)"

lemma fmt_u32_not_Nil [simp]: "fmt_u32 w \<noteq> []"
  by (simp add: fmt_u32_def show_base.simps)

lemma show_base_not_Nil: "show_base b n \<noteq> []"
  by (subst show_base.simps) simp

lemma parse_nat_show: "n < bound \<Longrightarrow> parse_nat bound (show_base 10 n) = Some n"
proof -
  assume n: "n < bound"
  have d: "list_all is_digit (show_base 10 n)"
    using show_base_10_digits [of _ n] by (auto simp: list_all_iff is_digit_def)
  then have "hd (show_base 10 n) \<noteq> CHR ''+''"
    using show_base_not_Nil [of 10 n] by (cases "show_base 10 n") (auto simp: is_digit_def)
  then have "(case show_base 10 n of c # cs \<Rightarrow> if c = CHR ''+'' \<and> cs \<noteq> [] then cs else show_base 10 n | [] \<Rightarrow> show_base 10 n)
      = show_base 10 n"
    by (cases "show_base 10 n") auto
  then show ?thesis
    using n d show_base_not_Nil [of 10 n] by (simp add: parse_nat_def read_show_base)
qed

lemma parse_fmt_u32 [simp]: "parse_u32 (fmt_u32 w) = Some w"
proof -
  have "unat w < 2 ^ 32" using unsigned_less [of w] by simp
  then show ?thesis by (simp add: parse_u32_def fmt_u32_def parse_nat_show)
qed

section \<open>The directory\<close>

definition SESS_PREFIX :: string where "SESS_PREFIX = ''grimoire:sess:''"
definition SESS_TTL_SECS :: nat where "SESS_TTL_SECS = 3600"

definition sess_key :: "u32 \<Rightarrow> u32 \<Rightarrow> string" where
  "sess_key domain session_id = SESS_PREFIX @ fmt_u32 domain @ '':'' @ fmt_u32 session_id"

definition lobby_key :: "u32 \<Rightarrow> string" where
  "lobby_key domain = SESS_PREFIX @ ''lobby:'' @ fmt_u32 domain"

definition sd_bind :: "'r redis \<Rightarrow> 'r \<Rightarrow> u32 \<Rightarrow> u32 \<Rightarrow> string \<Rightarrow> bool \<times> 'r" where
  "sd_bind exec r domain session_id node_id =
     (case exec r (SETEX (sess_key domain session_id) SESS_TTL_SECS node_id) of
        (reply, r') \<Rightarrow> (reply \<noteq> RError, r'))"

definition sd_lookup :: "'r redis \<Rightarrow> 'r \<Rightarrow> u32 \<Rightarrow> u32 \<Rightarrow> string option \<times> 'r" where
  "sd_lookup exec r domain session_id =
     (case exec r (GET (sess_key domain session_id)) of
        (RBulk v, r') \<Rightarrow> (Some v, r')
      | (_, r') \<Rightarrow> (None, r'))"

definition sd_remove :: "'r redis \<Rightarrow> 'r \<Rightarrow> u32 \<Rightarrow> u32 \<Rightarrow> 'r" where
  "sd_remove exec r domain session_id = snd (exec r (DEL (sess_key domain session_id)))"

definition lobby_set :: "'r redis \<Rightarrow> 'r \<Rightarrow> u32 \<Rightarrow> u32 \<Rightarrow> bool \<times> 'r" where
  "lobby_set exec r domain session_id =
     (case exec r (SETNX (lobby_key domain) (fmt_u32 session_id)) of
        (reply, r') \<Rightarrow> (reply = ROk, r'))"

definition lobby_take :: "'r redis \<Rightarrow> 'r \<Rightarrow> u32 \<Rightarrow> u32 option \<times> 'r" where
  "lobby_take exec r domain =
     (case exec r (GETDEL (lobby_key domain)) of
        (RBulk v, r') \<Rightarrow> (parse_u32 v, r')
      | (_, r') \<Rightarrow> (None, r'))"

definition lobby_clear :: "'r redis \<Rightarrow> 'r \<Rightarrow> u32 \<Rightarrow> u32 \<Rightarrow> 'r" where
  "lobby_clear exec r domain session_id = snd (exec r (DELIFEQ (lobby_key domain) (fmt_u32 session_id)))"

section \<open>Two maps\<close>

lemma sess_key_inject [simp]: "sess_key d s = sess_key d' s' \<longleftrightarrow> d = d' \<and> s = s'"
  using append_sep_inject [of "CHR '':''" "fmt_u32 d" "fmt_u32 d'" "fmt_u32 s" "fmt_u32 s'"]
  by (auto simp: sess_key_def)

lemma lobby_key_inject [simp]: "lobby_key d = lobby_key d' \<longleftrightarrow> d = d'"
  by (simp add: lobby_key_def)

lemma sess_key_not_lobby [simp]: "sess_key d s \<noteq> lobby_key d'" "lobby_key d' \<noteq> sess_key d s"
proof -
  obtain c cs where c: "fmt_u32 d = c # cs" using fmt_u32_not_Nil by (metis list.exhaust)
  then have "of_char c \<in> {48..57::nat}" using fmt_u32_digits [of c d] by simp
  then have "c \<noteq> CHR ''l''" by auto
  then show "sess_key d s \<noteq> lobby_key d'" using c by (simp add: sess_key_def lobby_key_def)
  then show "lobby_key d' \<noteq> sess_key d s" by simp
qed

text \<open>The specification: the node of a session, and the waiting session of a domain.\<close>

record session_maps =
  sm_node :: "u32 \<times> u32 \<rightharpoonup> string"
  sm_lobby :: "u32 \<rightharpoonup> u32"

datatype sd_op =
    OpBind u32 u32 string | OpLookup u32 u32 | OpRemove u32 u32
  | OpLobbySet u32 u32 | OpLobbyTake u32 | OpLobbyClear u32 u32

datatype sd_answer = ABool bool | ANode "string option" | ASession "u32 option" | ANone

fun sd_exec :: "'r redis \<Rightarrow> 'r \<Rightarrow> sd_op \<Rightarrow> sd_answer \<times> 'r" where
  "sd_exec exec r (OpBind d s n) = apfst ABool (sd_bind exec r d s n)"
| "sd_exec exec r (OpLookup d s) = apfst ANode (sd_lookup exec r d s)"
| "sd_exec exec r (OpRemove d s) = (ANone, sd_remove exec r d s)"
| "sd_exec exec r (OpLobbySet d s) = apfst ABool (lobby_set exec r d s)"
| "sd_exec exec r (OpLobbyTake d) = apfst ASession (lobby_take exec r d)"
| "sd_exec exec r (OpLobbyClear d s) = (ANone, lobby_clear exec r d s)"

fun sd_spec :: "session_maps \<Rightarrow> sd_op \<Rightarrow> sd_answer \<times> session_maps" where
  "sd_spec m (OpBind d s n) = (ABool True, m\<lparr>sm_node := (sm_node m)((d, s) \<mapsto> n)\<rparr>)"
| "sd_spec m (OpLookup d s) = (ANode (sm_node m (d, s)), m)"
| "sd_spec m (OpRemove d s) = (ANone, m\<lparr>sm_node := (sm_node m)((d, s) := None)\<rparr>)"
| "sd_spec m (OpLobbySet d s) =
     (if sm_lobby m d = None then (ABool True, m\<lparr>sm_lobby := (sm_lobby m)(d \<mapsto> s)\<rparr>) else (ABool False, m))"
| "sd_spec m (OpLobbyTake d) = (ASession (sm_lobby m d), m\<lparr>sm_lobby := (sm_lobby m)(d := None)\<rparr>)"
| "sd_spec m (OpLobbyClear d s) =
     (ANone, if sm_lobby m d = Some s then m\<lparr>sm_lobby := (sm_lobby m)(d := None)\<rparr> else m)"

definition represents :: "(string \<rightharpoonup> string) \<Rightarrow> session_maps \<Rightarrow> bool" where
  "represents m a \<longleftrightarrow> (\<forall>d s. m (sess_key d s) = sm_node a (d, s)) \<and>
     (\<forall>d. m (lobby_key d) = map_option fmt_u32 (sm_lobby a d))"

text \<open>The command an operation sends.\<close>

fun sd_cmd :: "sd_op \<Rightarrow> redis_cmd" where
  "sd_cmd (OpBind d s n) = SETEX (sess_key d s) SESS_TTL_SECS n"
| "sd_cmd (OpLookup d s) = GET (sess_key d s)"
| "sd_cmd (OpRemove d s) = DEL (sess_key d s)"
| "sd_cmd (OpLobbySet d s) = SETNX (lobby_key d) (fmt_u32 s)"
| "sd_cmd (OpLobbyTake d) = GETDEL (lobby_key d)"
| "sd_cmd (OpLobbyClear d s) = DELIFEQ (lobby_key d) (fmt_u32 s)"

lemmas sd_defs = sd_bind_def sd_lookup_def sd_remove_def lobby_set_def lobby_take_def lobby_clear_def

lemma sd_exec_state: "snd (sd_exec exec r op) = snd (exec r (sd_cmd op))"
  by (cases op) (auto simp: sd_defs split: prod.splits redis_reply.splits)

lemma sd_exec_error:
  "fst (exec r (sd_cmd op)) = RError \<Longrightarrow>
   fst (sd_exec exec r op) \<in> {ABool False, ANode None, ASession None, ANone}"
  by (cases op) (auto simp: sd_defs split: prod.splits)

lemma sd_step_simulates:
  assumes "redis_ok exec view" "represents (view r) a" "fst (exec r (sd_cmd op)) \<noteq> RError"
  shows "fst (sd_exec exec r op) = fst (sd_spec a op) \<and>
    represents (view (snd (sd_exec exec r op))) (snd (sd_spec a op))"
proof -
  obtain reply r' where e: "exec r (sd_cmd op) = (reply, r')" by force
  then have s: "(reply, view r') = redis_spec (view r) (sd_cmd op)"
    using assms(1,3) unfolding redis_ok_def by (metis fst_conv snd_conv)
  show ?thesis
    using assms(2) e s unfolding sd_exec_state
    by (cases op) (auto simp: sd_defs represents_def split: option.splits if_splits)
qed

text \<open>A run of operations, none of which fails.\<close>

fun sd_run :: "'r redis \<Rightarrow> 'r \<Rightarrow> sd_op list \<Rightarrow> sd_answer list \<times> 'r" where
  "sd_run exec r [] = ([], r)"
| "sd_run exec r (op # ops) =
     (case sd_exec exec r op of (a, r') \<Rightarrow> apfst ((#) a) (sd_run exec r' ops))"

fun sd_spec_run :: "session_maps \<Rightarrow> sd_op list \<Rightarrow> sd_answer list \<times> session_maps" where
  "sd_spec_run m [] = ([], m)"
| "sd_spec_run m (op # ops) =
     (case sd_spec m op of (a, m') \<Rightarrow> apfst ((#) a) (sd_spec_run m' ops))"

fun no_error :: "'r redis \<Rightarrow> 'r \<Rightarrow> sd_op list \<Rightarrow> bool" where
  "no_error exec r [] = True"
| "no_error exec r (op # ops) =
     (fst (exec r (sd_cmd op)) \<noteq> RError \<and> no_error exec (snd (exec r (sd_cmd op))) ops)"



subsection \<open>The calls of the services\<close>

text \<open>
  What the directory calls of a handler (\<open>SvcFw\<close>) do to the directory is what \<open>dir_after\<close> says:
  so the exactness of a service's calls carries over to Redis.
\<close>

fun effect_op :: "'p effect \<Rightarrow> sd_op option" where
  "effect_op (DirBind d s n) = Some (OpBind d s n)"
| "effect_op (DirRemove d s) = Some (OpRemove d s)"
| "effect_op (LobbySet d s) = Some (OpLobbySet d s)"
| "effect_op (LobbyClear d s) = Some (OpLobbyClear d s)"
| "effect_op _ = None"

lemma effects_reach_directory:
  "sm_node (snd (sd_spec_run m (List.map_filter effect_op es))) = dir_after (sm_node m) es"
proof (induction es arbitrary: m)
  case (Cons e es)
  then show ?case by (cases e) (auto simp: map_filter_simps case_prod_unfold fun_upd_def)
qed (simp add: map_filter_simps)

end
