(* ===== verification/Pusher.thy ===== *)
theory Pusher
  imports Registry_Props SessionDir
begin

text \<open>
  \<open>grimoire-svcfw/src/pusher.rs\<close>: how a service sends a push to the gateway of a connection.

  \<^item> \<open>find_gateway\<close>, \<open>pu_channel_for\<close>, \<open>stream_for\<close>, \<open>push_via\<close>, \<open>push\<close>, \<open>push_udp\<close> and
    \<open>kick\<close> are the methods of \<open>Pusher\<close>.  A channel is the address it is connected to; what the
    registry answers and whether a connection or a stream can be opened are arguments.
  \<^item> A push stream is an object (\<open>push_stream\<close>, under a number that stands for its \<open>Arc\<close>) with
    the requests that wait in its bounded queue and whether the receiver still exists.
  \<^item> \<open>stream_dies\<close> is the end of a stream: the receiver goes, and the task that drains the
    replies removes the entry, but from its own copy of the map: \<open>self.streams.clone()\<close> clones a
    \<open>DashMap\<close>, which copies the entries and shares nothing with the original.
\<close>

record push_request =
  pq_conn_id :: u32
  pq_msg_id :: u32
  pq_payload :: bytes
  pq_udp :: bool

record push_stream =
  ps_queue :: "push_request list"
  ps_open :: bool

text \<open>\<open>pu_copies\<close> is the map each running reply task holds.\<close>

record pusher =
  pu_channels :: "u8 \<rightharpoonup> string"
  pu_streams :: "u8 \<rightharpoonup> nat"
  pu_objs :: "nat \<Rightarrow> push_stream"
  pu_next :: nat
  pu_copies :: "nat \<Rightarrow> (u8 \<rightharpoonup> nat)"

definition pusher_new :: pusher where
  "pusher_new = \<lparr>pu_channels = Map.empty, pu_streams = Map.empty,
     pu_objs = (\<lambda>_. \<lparr>ps_queue = [], ps_open = False\<rparr>), pu_next = 0, pu_copies = (\<lambda>_. Map.empty)\<rparr>"

definition QUEUE_CAPACITY :: nat where "QUEUE_CAPACITY = 1024"

definition parse_u8 :: "string \<Rightarrow> u8 option" where
  "parse_u8 s = map_option word_of_nat (parse_nat (2 ^ 8) s)"

definition find_gateway :: "node_info list \<Rightarrow> u8 \<Rightarrow> node_info option" where
  "find_gateway nodes gw = find (\<lambda>n. Option.bind (ni_meta n ''id'') parse_u8 = Some gw) nodes"

definition pu_channel_for :: "pusher \<Rightarrow> u32 \<Rightarrow> node_info list option \<Rightarrow> (string \<Rightarrow> bool) \<Rightarrow> string option \<times> pusher" where
  "pu_channel_for p conn_id reply connects =
     (let gw = gateway_id_of conn_id
      in case pu_channels p gw of
           Some ch \<Rightarrow> (Some ch, p)
         | None \<Rightarrow>
             (case reply of
                None \<Rightarrow> (None, p)
              | Some nodes \<Rightarrow>
                  (case find_gateway nodes gw of
                     None \<Rightarrow> (None, p)
                   | Some node \<Rightarrow>
                       if connects (ni_addr node)
                       then (Some (ni_addr node), p\<lparr>pu_channels := (pu_channels p)(gw \<mapsto> ni_addr node)\<rparr>)
                       else (None, p))))"

definition stream_for :: "pusher \<Rightarrow> u32 \<Rightarrow> node_info list option \<Rightarrow> (string \<Rightarrow> bool) \<Rightarrow> (string \<Rightarrow> bool) \<Rightarrow>
    nat option \<times> pusher" where
  "stream_for p conn_id reply connects opens =
     (let gw = gateway_id_of conn_id
      in case pu_streams p gw of
           Some s \<Rightarrow> (Some s, p)
         | None \<Rightarrow>
             (case pu_channel_for p conn_id reply connects of
                (None, p') \<Rightarrow> (None, p')
              | (Some ch, p') \<Rightarrow>
                  if opens ch
                  then (let s = pu_next p'
                        in (Some s, p'\<lparr>pu_next := Suc s,
                              pu_objs := (pu_objs p')(s := \<lparr>ps_queue = [], ps_open = True\<rparr>),
                              pu_copies := (pu_copies p')(s := pu_streams p'),
                              pu_streams := (pu_streams p')(gw \<mapsto> s)\<rparr>))
                  else (None, p')))"

definition try_send :: "push_stream \<Rightarrow> push_request \<Rightarrow> bool \<times> push_stream" where
  "try_send s req =
     (if ps_open s \<and> length (ps_queue s) < QUEUE_CAPACITY
      then (True, s\<lparr>ps_queue := ps_queue s @ [req]\<rparr>) else (False, s))"

definition push_via :: "pusher \<Rightarrow> u32 \<Rightarrow> u32 \<Rightarrow> bytes \<Rightarrow> bool \<Rightarrow> node_info list option \<Rightarrow> (string \<Rightarrow> bool) \<Rightarrow>
    (string \<Rightarrow> bool) \<Rightarrow> bool \<times> pusher" where
  "push_via p conn_id msg_id payload udp reply connects opens =
     (case stream_for p conn_id reply connects opens of
        (None, p') \<Rightarrow> (False, p')
      | (Some s, p') \<Rightarrow>
          (case try_send (pu_objs p' s) \<lparr>pq_conn_id = conn_id, pq_msg_id = msg_id, pq_payload = payload, pq_udp = udp\<rparr> of
             (ok, o') \<Rightarrow> (ok, p'\<lparr>pu_objs := (pu_objs p')(s := o')\<rparr>)))"

definition push :: "pusher \<Rightarrow> u32 \<Rightarrow> u32 \<Rightarrow> bytes \<Rightarrow> node_info list option \<Rightarrow> (string \<Rightarrow> bool) \<Rightarrow>
    (string \<Rightarrow> bool) \<Rightarrow> bool \<times> pusher" where
  "push p conn_id msg_id payload reply connects opens = push_via p conn_id msg_id payload False reply connects opens"

definition push_udp :: "pusher \<Rightarrow> u32 \<Rightarrow> u32 \<Rightarrow> bytes \<Rightarrow> node_info list option \<Rightarrow> (string \<Rightarrow> bool) \<Rightarrow>
    (string \<Rightarrow> bool) \<Rightarrow> bool \<times> pusher" where
  "push_udp p conn_id msg_id payload reply connects opens = push_via p conn_id msg_id payload True reply connects opens"

text \<open>\<open>kicked\<close> is the gateway's answer, \<open>None\<close> an error of the call.\<close>

definition kick :: "pusher \<Rightarrow> u32 \<Rightarrow> node_info list option \<Rightarrow> (string \<Rightarrow> bool) \<Rightarrow> bool option \<Rightarrow> bool \<times> pusher" where
  "kick p conn_id reply connects kicked =
     (case pu_channel_for p conn_id reply connects of
        (None, p') \<Rightarrow> (False, p')
      | (Some _, p') \<Rightarrow> ((case kicked of Some ok \<Rightarrow> ok | None \<Rightarrow> False), p'))"

text \<open>The transport takes the first request of a stream.\<close>

definition stream_takes :: "pusher \<Rightarrow> nat \<Rightarrow> pusher" where
  "stream_takes p s =
     (let o' = pu_objs p s in p\<lparr>pu_objs := (pu_objs p)(s := o'\<lparr>ps_queue := tl (ps_queue o')\<rparr>)\<rparr>)"

text \<open>The end of stream \<open>s\<close> of gateway \<open>gw\<close>: \<open>remove_if\<close> on the task's copy, when it is the same stream.\<close>

definition stream_dies :: "pusher \<Rightarrow> u8 \<Rightarrow> nat \<Rightarrow> pusher" where
  "stream_dies p gw s =
     (let copy = pu_copies p s
      in p\<lparr>pu_objs := (pu_objs p)(s := (pu_objs p s)\<lparr>ps_open := False\<rparr>),
           pu_copies := (pu_copies p)(s := (if copy gw = Some s then copy(gw := None) else copy))\<rparr>)"

section \<open>Finding a gateway\<close>

lemma parse_u8_show [simp]: "parse_u8 (show_base 10 (unat gw)) = Some gw"
proof -
  have "unat gw < 2 ^ 8" using unsigned_less [of gw] by simp
  then show ?thesis by (simp add: parse_u8_def parse_nat_show)
qed

definition gateway_meta :: "u8 \<Rightarrow> meta" where
  "gateway_meta gw = [''id'' \<mapsto> show_base 10 (unat gw)]"

definition has_id :: "meta \<Rightarrow> u8 \<Rightarrow> bool" where
  "has_id meta gw \<longleftrightarrow> Option.bind (meta ''id'') parse_u8 = Some gw"

lemma find_gateway_None: "find_gateway nodes gw = None \<longleftrightarrow> (\<forall>n\<in>set nodes. \<not> has_id (ni_meta n) gw)"
  by (auto simp: find_gateway_def has_id_def find_None_iff)

lemma find_gateway_Some: "find_gateway nodes gw = Some n \<Longrightarrow> n \<in> set nodes \<and> has_id (ni_meta n) gw"
  using find_SomeD [of "\<lambda>n. Option.bind (ni_meta n ''id'') parse_u8 = Some gw" nodes n]
  by (simp add: find_gateway_def has_id_def)

section \<open>Runs\<close>

type_synonym world = "node_info list option \<times> (string \<Rightarrow> bool) \<times> (string \<Rightarrow> bool)"

datatype pu_event =
    PPush u32 u32 bytes bool world
  | PKick u32 world "bool option"
  | PTake nat
  | PDie u8 nat

fun pu_step :: "pusher \<Rightarrow> pu_event \<Rightarrow> pusher" where
  "pu_step p (PPush c m d u (r, cn, op)) = snd (push_via p c m d u r cn op)"
| "pu_step p (PKick c (r, cn, op) k) = snd (kick p c r cn k)"
| "pu_step p (PTake s) = stream_takes p s"
| "pu_step p (PDie gw s) = stream_dies p gw s"

definition pusher_ok :: "pusher \<Rightarrow> bool" where
  "pusher_ok p \<longleftrightarrow> (\<forall>gw s. pu_streams p gw = Some s \<longrightarrow> s < pu_next p)"

definition dead :: "pusher \<Rightarrow> u8 \<Rightarrow> bool" where
  "dead p gw \<longleftrightarrow> (\<exists>s. pu_streams p gw = Some s \<and> s < pu_next p \<and> \<not> ps_open (pu_objs p s))"

lemma channel_for_streams [simp]:
  "pu_streams (snd (pu_channel_for p c r cn)) = pu_streams p"
  "pu_objs (snd (pu_channel_for p c r cn)) = pu_objs p"
  "pu_next (snd (pu_channel_for p c r cn)) = pu_next p"
  by (auto simp: pu_channel_for_def Let_def split: option.splits)

lemma stream_for_cases:
  assumes "stream_for p c r cn op = (res, p')"
  obtains (known) s where "pu_streams p (gateway_id_of c) = Some s" "res = Some s" "p' = p"
  | (none) "res = None" "pu_streams p' = pu_streams p" "pu_objs p' = pu_objs p" "pu_next p' = pu_next p"
  | (opened) "pu_streams p (gateway_id_of c) = None" "res = Some (pu_next p)" "pu_next p' = Suc (pu_next p)"
      "pu_streams p' = (pu_streams p)(gateway_id_of c \<mapsto> pu_next p)"
      "pu_objs p' = (pu_objs p)(pu_next p := \<lparr>ps_queue = [], ps_open = True\<rparr>)"
proof (cases "pu_streams p (gateway_id_of c)")
  case (Some s)
  with assms show ?thesis by (intro known [of s]) (auto simp: stream_for_def)
next
  case None
  obtain ch p1 where c: "pu_channel_for p c r cn = (ch, p1)" by force
  then have "pu_streams p1 = pu_streams p" "pu_objs p1 = pu_objs p" "pu_next p1 = pu_next p"
    using channel_for_streams [of p c r cn] by simp_all
  note p1 = this
  show ?thesis
  proof (cases ch)
    case None
    with assms \<open>pu_streams p (gateway_id_of c) = None\<close> c p1 show ?thesis
      by (intro none) (auto simp: stream_for_def)
  next
    case (Some a)
    show ?thesis
    proof (cases "op a")
      case True
      with assms \<open>pu_streams p (gateway_id_of c) = None\<close> c p1 Some show ?thesis
        by (intro opened) (auto simp: stream_for_def Let_def)
    next
      case False
      with assms \<open>pu_streams p (gateway_id_of c) = None\<close> c p1 Some show ?thesis
        by (intro none) (auto simp: stream_for_def)
    qed
  qed
qed

lemma push_via_dead:
  assumes "dead p gw"
  shows "dead (snd (push_via p c m d u r cn op)) gw \<and>
    (gateway_id_of c = gw \<longrightarrow> \<not> fst (push_via p c m d u r cn op))"
proof -
  obtain res p' where s: "stream_for p c r cn op = (res, p')" by force
  from s show ?thesis
  proof (cases rule: stream_for_cases)
    case (known s')
    then show ?thesis using assms s by (auto simp: push_via_def dead_def try_send_def)
  next
    case none
    then show ?thesis using assms s by (auto simp: push_via_def dead_def)
  next
    case opened
    obtain s0 where s0: "pu_streams p gw = Some s0" "s0 < pu_next p" "\<not> ps_open (pu_objs p s0)"
      using assms by (auto simp: dead_def)
    then have "gw \<noteq> gateway_id_of c" using opened(1) by auto
    then show ?thesis
      using s0 opened s by (auto simp: push_via_def dead_def try_send_def split: prod.splits)
  qed
qed

lemma pu_step_dead: "dead p gw \<Longrightarrow> dead (pu_step p e) gw"
proof (cases e)
  case (PPush c m d u w)
  then show "dead p gw \<Longrightarrow> ?thesis" using push_via_dead by (cases w) simp
next
  case (PKick c w k)
  obtain ch p1 where "pu_channel_for p c (fst w) (fst (snd w)) = (ch, p1)" by force
  moreover from this have "pu_streams p1 = pu_streams p" "pu_objs p1 = pu_objs p" "pu_next p1 = pu_next p"
    using channel_for_streams [of p c "fst w" "fst (snd w)"] by simp_all
  moreover assume "dead p gw"
  ultimately show ?thesis using PKick by (cases w) (simp add: kick_def dead_def split: option.splits)
next
  case (PTake s)
  then show "dead p gw \<Longrightarrow> ?thesis" by (auto simp: stream_takes_def dead_def Let_def)
next
  case (PDie g s)
  then show "dead p gw \<Longrightarrow> ?thesis" by (auto simp: stream_dies_def dead_def Let_def)
qed

lemma pu_run_dead: "dead p gw \<Longrightarrow> dead (foldl pu_step p es) gw"
  by (induction es arbitrary: p) (simp_all add: pu_step_dead)

text \<open>
  A push stream is never rebuilt: once the stream of a gateway has ended, every later push
  to a connection of that gateway fails, whatever the registry says and whatever else the
  service does, because the task that should remove the entry removes it from a copy of the map.
\<close>

lemma dead_stream_stays:
  assumes "pu_streams p gw = Some s" "s < pu_next p" "gateway_id_of c = gw"
  shows "\<not> fst (push_via (foldl pu_step (stream_dies p gw s) es) c m d u r cn op)"
proof -
  have "dead (stream_dies p gw s) gw"
    using assms(1,2) by (auto simp: dead_def stream_dies_def Let_def)
  from push_via_dead [OF pu_run_dead [OF this]] assms(3) show ?thesis by blast
qed

definition gw_1 :: node_info where
  "gw_1 = \<lparr>ni_node_id = ''gw-1'', ni_addr = ''h:9100'', ni_meta = gateway_meta 1\<rparr>"

lemma find_gw_1: "find_gateway [gw_1] 1 = Some gw_1"
  using parse_u8_show [of 1] by (simp add: find_gateway_def gw_1_def gateway_meta_def)

lemma dead_stream_stays_witness:
  "\<exists>p s. push_via pusher_new 0x01000005 7 [] False (Some [gw_1]) (\<lambda>_. True) (\<lambda>_. True) = (True, p) \<and>
     pu_streams p 1 = Some s \<and>
     \<not> fst (push_via (stream_dies p 1 s) 0x01000005 7 [] False (Some [gw_1]) (\<lambda>_. True) (\<lambda>_. True))"
proof -
  have gw: "gateway_id_of 0x01000005 = 1" by (simp add: gateway_id_of_def GATEWAY_ID_SHIFT_def)
  define p where "p = snd (push_via pusher_new 0x01000005 7 [] False (Some [gw_1]) (\<lambda>_. True) (\<lambda>_. True))"
  have push: "push_via pusher_new 0x01000005 7 [] False (Some [gw_1]) (\<lambda>_. True) (\<lambda>_. True) = (True, p)"
    and s: "pu_streams p 1 = Some 0" "0 < pu_next p"
    by (simp_all add: p_def push_via_def stream_for_def pu_channel_for_def gw pusher_new_def find_gw_1
        try_send_def QUEUE_CAPACITY_def Let_def)
  from dead_stream_stays [OF s gw, where es = "[]"] push s(1) show ?thesis by auto
qed

section \<open>Losing a gateway\<close>

lemma node_of_register:
  "node_of (svc_register st s n addr meta ttl now) s' n' =
   (if s' = s \<and> n' = n then Some (node_new addr meta (register_ttl ttl) now) else node_of st s' n')"
  using node_of_step [of st "Register s n addr meta ttl now" s' n'] by auto

lemma round_registers:
  assumes "node_of st s n = None"
  shows "heartbeat_round st s n addr ttl True True True now now' = svc_register st s n addr Map.empty ttl now'"
  using heartbeat_unknown [OF assms, of now] by (simp add: heartbeat_round_def heartbeat_reply_def)

text \<open>
  A gateway is found by the identity it registered, and lost by its own heartbeats: after it
  registers, a look-up of its number finds a node with that number, at its address when no other
  node has it; when its lease has run out, the next heartbeat makes it register again with empty
  data, and from then on the look-up fails, so that no service can push to its connections.
\<close>

lemma gateway_lost_after_reregistration:
  assumes "node_of st svc_GATEWAY n = None"
    and "\<forall>m x. node_of st svc_GATEWAY m = Some x \<longrightarrow> \<not> has_id (nr_meta x) gw"
    and "st1 = svc_register st svc_GATEWAY n addr (gateway_meta gw) ttl now"
    and "st2 = heartbeat_round st svc_GATEWAY n addr ttl True True True now now'"
    and "visits it1 (nodes_of st1 svc_GATEWAY)" "visits it2 (nodes_of st2 svc_GATEWAY)"
  shows "find_gateway (svc_discover it1 st1 svc_GATEWAY) gw =
      Some \<lparr>ni_node_id = n, ni_addr = addr, ni_meta = gateway_meta gw\<rparr> \<and>
    find_gateway (svc_discover it2 st2 svc_GATEWAY) gw = None"
proof
  have mem: "\<lparr>ni_node_id = n, ni_addr = addr, ni_meta = gateway_meta gw\<rparr> \<in> set (svc_discover it1 st1 svc_GATEWAY)"
    unfolding set_discover [OF assms(5)] by (simp add: assms(3) node_of_register node_new_def)
  have id: "has_id (gateway_meta gw) gw" by (simp add: has_id_def gateway_meta_def)
  from mem id obtain x where x: "find_gateway (svc_discover it1 st1 svc_GATEWAY) gw = Some x"
    using find_gateway_None by fastforce
  from find_gateway_Some [OF x] have "x = \<lparr>ni_node_id = n, ni_addr = addr, ni_meta = gateway_meta gw\<rparr>"
    unfolding set_discover [OF assms(5)] using assms(2)
    by (auto simp: assms(3) node_of_register node_new_def split: if_splits)
  with x show "find_gateway (svc_discover it1 st1 svc_GATEWAY) gw =
      Some \<lparr>ni_node_id = n, ni_addr = addr, ni_meta = gateway_meta gw\<rparr>" by simp
  show "find_gateway (svc_discover it2 st2 svc_GATEWAY) gw = None"
    unfolding find_gateway_None set_discover [OF assms(6)] using assms(2)
    by (auto simp: assms(4) round_registers [OF assms(1)] node_of_register node_new_def has_id_def split: if_splits)
qed

lemma gateway_lost_after_reregistration_witness:
  "\<exists>st1 st2. st1 = svc_register Map.empty svc_GATEWAY ''gw-1'' ''h:9100'' (gateway_meta 1) 10 0 \<and>
     st2 = heartbeat_round Map.empty svc_GATEWAY ''gw-1'' ''h:9100'' 10 True True True 0 0 \<and>
     find_gateway (svc_discover [''gw-1''] st1 svc_GATEWAY) 1 \<noteq> None \<and>
     find_gateway (svc_discover [''gw-1''] st2 svc_GATEWAY) 1 = None"
proof -
  let ?st1 = "svc_register Map.empty svc_GATEWAY ''gw-1'' ''h:9100'' (gateway_meta 1) 10 0"
  let ?st2 = "heartbeat_round Map.empty svc_GATEWAY ''gw-1'' ''h:9100'' 10 True True True 0 0"
  have "visits [''gw-1''] (nodes_of ?st1 svc_GATEWAY)"
    by (simp add: svc_register_def reg_insert_def nodes_of_def visits_def)
  moreover have "visits [''gw-1''] (nodes_of ?st2 svc_GATEWAY)"
    by (simp add: round_registers svc_register_def reg_insert_def nodes_of_def visits_def)
  ultimately show ?thesis
    using gateway_lost_after_reregistration [of Map.empty "''gw-1''" 1 ?st1 "''h:9100''" 10 0 ?st2 0] by simp
qed

end
