(* ===== verification/Streams.thy ===== *)
theory Streams
  imports Discovery
begin

text \<open>
  The gateway's \<open>stream.rs\<close>: one bridge stream per game domain and node, shared by all client
  requests, and the table that brings a reply back to the request that waits for it.

  A stream and a waiting request (the \<open>oneshot\<close> channel) are objects with a number of their own.
  \<open>reply_arrives\<close> is one reply in the reader task, \<open>stream_ended\<close> its end; \<open>insert_pending\<close> and
  \<open>cancel_pending\<close> are what a request does with the table.  A sender that is overwritten or
  removed is dropped, which ends the wait of its request with an error.
\<close>

type_synonym conn_seq = "u32 \<times> u32"

record streams =
  st_conns :: "u32 \<times> string \<rightharpoonup> nat"
  st_alive :: "nat \<Rightarrow> bool"
  st_next :: nat
  st_pending :: "conn_seq \<rightharpoonup> nat"

definition streams_new :: streams where
  "streams_new = \<lparr>st_conns = Map.empty, st_alive = (\<lambda>_. False), st_next = 0, st_pending = Map.empty\<rparr>"

text \<open>\<open>refused\<close> is the error of the \<open>bridge_stream\<close> call, if it fails.\<close>

definition get_or_open :: "streams \<Rightarrow> string discovery \<Rightarrow> u32 \<Rightarrow> node_info \<Rightarrow> (nat \<Rightarrow> string option) \<Rightarrow> string option \<Rightarrow>
    (string + nat) outcome \<times> streams \<times> string discovery" where
  "get_or_open st dv domain node conn refused =
     (case st_conns st (domain, ni_addr node) of
        Some c \<Rightarrow> (Inr (Inr c), st, dv)
      | None \<Rightarrow>
          (case channel_for dv (ni_addr node) conn of
             (Inl p, dv') \<Rightarrow> (Inl p, st, dv')
           | (Inr None, dv') \<Rightarrow> (Inr (Inl (''connect '' @ ni_addr node)), st, dv')
           | (Inr (Some _), dv') \<Rightarrow>
               (case refused of
                  Some e \<Rightarrow> (Inr (Inl e), st, dv')
                | None \<Rightarrow>
                    (Inr (Inr (st_next st)),
                     st\<lparr>st_next := Suc (st_next st), st_alive := (st_alive st)(st_next st := True),
                        st_conns := (st_conns st)((domain, ni_addr node) \<mapsto> st_next st)\<rparr>, dv'))))"

text \<open>
  The same in the two parts that other tasks can come between: the reader task runs from the end
  of \<open>open_connect\<close>, the entry is made by \<open>open_insert\<close>.
\<close>

definition open_connect :: "streams \<Rightarrow> string discovery \<Rightarrow> node_info \<Rightarrow> (nat \<Rightarrow> string option) \<Rightarrow> string option \<Rightarrow>
    (string + nat) outcome \<times> streams \<times> string discovery" where
  "open_connect st dv node conn refused =
     (case channel_for dv (ni_addr node) conn of
        (Inl p, dv') \<Rightarrow> (Inl p, st, dv')
      | (Inr None, dv') \<Rightarrow> (Inr (Inl (''connect '' @ ni_addr node)), st, dv')
      | (Inr (Some _), dv') \<Rightarrow>
          (case refused of
             Some e \<Rightarrow> (Inr (Inl e), st, dv')
           | None \<Rightarrow> (Inr (Inr (st_next st)),
               st\<lparr>st_next := Suc (st_next st), st_alive := (st_alive st)(st_next st := True)\<rparr>, dv')))"

definition open_insert :: "streams \<Rightarrow> u32 \<Rightarrow> node_info \<Rightarrow> nat \<Rightarrow> streams" where
  "open_insert st domain node c = st\<lparr>st_conns := (st_conns st)((domain, ni_addr node) \<mapsto> c)\<rparr>"

lemma get_or_open_parts:
  assumes "st_conns st (domain, ni_addr node) = None"
  shows "get_or_open st dv domain node conn refused =
    (case open_connect st dv node conn refused of
       (Inr (Inr c), st', dv') \<Rightarrow> (Inr (Inr c), open_insert st' domain node c, dv')
     | r \<Rightarrow> r)"
  using assms by (auto simp: get_or_open_def open_connect_def open_insert_def split: prod.splits sum.splits option.splits)

definition stream_send :: "streams \<Rightarrow> nat \<Rightarrow> string + unit" where
  "stream_send st c = (if st_alive st c then Inr () else Inl ''bridge stream closed'')"

definition insert_pending :: "streams \<Rightarrow> conn_seq \<Rightarrow> nat \<Rightarrow> nat option \<times> streams" where
  "insert_pending st k w = (st_pending st k, st\<lparr>st_pending := (st_pending st)(k \<mapsto> w)\<rparr>)"

definition cancel_pending :: "streams \<Rightarrow> conn_seq \<Rightarrow> nat option \<times> streams" where
  "cancel_pending st k = (st_pending st k, st\<lparr>st_pending := (st_pending st)(k := None)\<rparr>)"

definition reply_arrives :: "streams \<Rightarrow> forward_reply \<Rightarrow> (nat \<times> forward_reply) option \<times> streams" where
  "reply_arrives st rep =
     (let k = (fr_conn_id rep, fr_seq rep)
      in case st_pending st k of
           None \<Rightarrow> (None, st)
         | Some w \<Rightarrow> (Some (w, rep), st\<lparr>st_pending := (st_pending st)(k := None)\<rparr>))"

text \<open>The reader's end: the entry goes only when it is still this stream.\<close>

definition stream_ended :: "streams \<Rightarrow> u32 \<Rightarrow> string \<Rightarrow> nat \<Rightarrow> streams" where
  "stream_ended st domain addr c =
     st\<lparr>st_alive := (st_alive st)(c := False),
        st_conns := (if st_conns st (domain, addr) = Some c then (st_conns st)((domain, addr) := None) else st_conns st)\<rparr>"

section \<open>Correlation\<close>

text \<open>
  What happens to one table of waiting requests: a request with a waiter of its own enters under
  its key, a reply arrives, a request gives up.  \<open>Delivered w rep\<close> hands the reply to the waiter,
  \<open>Dropped w\<close> ends its wait with an error.
\<close>

datatype wait_event = Enter conn_seq nat | Reply forward_reply | GiveUp conn_seq

datatype wait_result = Delivered nat forward_reply | Dropped nat

fun wait_step :: "streams \<Rightarrow> wait_event \<Rightarrow> wait_result list \<times> streams" where
  "wait_step st (Enter k w) = (case insert_pending st k w of
     (None, st') \<Rightarrow> ([], st') | (Some v, st') \<Rightarrow> ([Dropped v], st'))"
| "wait_step st (Reply rep) = (case reply_arrives st rep of
     (None, st') \<Rightarrow> ([], st') | (Some (w, r), st') \<Rightarrow> ([Delivered w r], st'))"
| "wait_step st (GiveUp k) = (case cancel_pending st k of
     (None, st') \<Rightarrow> ([], st') | (Some v, st') \<Rightarrow> ([Dropped v], st'))"

fun wait_run :: "streams \<Rightarrow> wait_event list \<Rightarrow> wait_result list \<times> streams" where
  "wait_run st [] = ([], st)"
| "wait_run st (e # es) =
     (case wait_step st e of (rs, st') \<Rightarrow> (case wait_run st' es of (rs', st'') \<Rightarrow> (rs @ rs', st'')))"

fun enters :: "wait_event list \<Rightarrow> (nat \<times> conn_seq) list" where
  "enters [] = []"
| "enters (Enter k w # es) = (w, k) # enters es"
| "enters (e # es) = enters es"

fun waiter :: "wait_result \<Rightarrow> nat" where
  "waiter (Delivered w _) = w"
| "waiter (Dropped w) = w"

definition waiting :: "streams \<Rightarrow> nat set" where
  "waiting st = ran (st_pending st)"

definition one_key :: "(conn_seq \<rightharpoonup> nat) \<Rightarrow> bool" where
  "one_key m \<longleftrightarrow> (\<forall>k k' w. m k = Some w \<longrightarrow> m k' = Some w \<longrightarrow> k = k')"

lemma one_keyD: "one_key m \<Longrightarrow> m k = Some w \<Longrightarrow> m k' = Some w \<Longrightarrow> k' = k"
  unfolding one_key_def by blast

lemma ran_remove: "one_key m \<Longrightarrow> m k = Some w \<Longrightarrow> ran (m(k := None)) = ran m - {w}"
  by (auto simp: ran_def dest: one_keyD) (metis option.inject)

lemma one_key_remove: "one_key m \<Longrightarrow> one_key (m(k := None))"
  by (simp add: one_key_def)

lemma one_key_enter: "one_key m \<Longrightarrow> w \<notin> ran m \<Longrightarrow> one_key (m(k \<mapsto> w))"
  by (auto simp: one_key_def ran_def)

lemma ran_enter: "ran (m(k \<mapsto> w)) = insert w (ran (m(k := None)))"
  by (auto simp: ran_def)

text \<open>One step finishes only waiting requests, each under its own key, and no longer holds them.\<close>

definition reply_key :: "forward_reply \<Rightarrow> conn_seq" where
  "reply_key rep = (fr_conn_id rep, fr_seq rep)"

lemma wait_step_facts:
  assumes "wait_step st e = (rs, st')" "one_key (st_pending st)"
    and "\<And>k w. e = Enter k w \<Longrightarrow> w \<notin> waiting st"
  shows "one_key (st_pending st') \<and> distinct (map waiter rs) \<and> set (map waiter rs) \<subseteq> waiting st \<and>
    waiting st' = (waiting st - set (map waiter rs)) \<union> fst ` set (enters [e]) \<and>
    (\<forall>w rep. Delivered w rep \<in> set rs \<longrightarrow> st_pending st (reply_key rep) = Some w) \<and>
    (\<forall>w k. st_pending st' k = Some w \<longrightarrow> st_pending st k = Some w \<or> (w, k) \<in> set (enters [e]))"
proof (cases e)
  case (Enter k w)
  then have w: "w \<notin> ran (st_pending st)" using assms(3) by (simp add: waiting_def)
  show ?thesis
  proof (cases "st_pending st k")
    case None
    then have "(st_pending st)(k := None) = st_pending st" by auto
    then have "ran ((st_pending st)(k \<mapsto> w)) = insert w (ran (st_pending st))" by (simp add: ran_enter)
    moreover have "rs = []" "st_pending st' = (st_pending st)(k \<mapsto> w)"
      using assms(1) Enter None by (auto simp: insert_pending_def)
    ultimately show ?thesis
      using Enter None one_key_enter [OF assms(2) w, of k] by (simp add: waiting_def)
  next
    case (Some v)
    have "v \<in> ran (st_pending st)" using Some by (rule ranI)
    moreover have "ran ((st_pending st)(k \<mapsto> w)) = insert w (ran (st_pending st) - {v})"
      unfolding ran_enter ran_remove [OF assms(2) Some] ..
    moreover have "rs = [Dropped v]" "st_pending st' = (st_pending st)(k \<mapsto> w)"
      using assms(1) Enter Some by (auto simp: insert_pending_def)
    ultimately show ?thesis
      using Enter one_key_enter [OF assms(2) w, of k] by (simp add: waiting_def)
  qed
next
  case (Reply rep)
  show ?thesis
  proof (cases "st_pending st (reply_key rep)")
    case (Some v)
    then have "v \<in> ran (st_pending st)" by (rule ranI)
    then show ?thesis
      using assms(1) Reply Some ran_remove [OF assms(2) Some] one_key_remove [OF assms(2)]
      by (auto simp: reply_arrives_def waiting_def Let_def reply_key_def split: if_splits)
  qed (use assms Reply in \<open>auto simp: reply_arrives_def waiting_def Let_def reply_key_def\<close>)
next
  case (GiveUp k)
  show ?thesis
  proof (cases "st_pending st k")
    case None
    then have "(st_pending st)(k := None) = st_pending st" by auto
    then show ?thesis using assms None GiveUp by (auto simp: cancel_pending_def waiting_def)
  next
    case (Some v)
    then have "v \<in> ran (st_pending st)" by (rule ranI)
    moreover have "rs = [Dropped v]" "st_pending st' = (st_pending st)(k := None)"
      using assms(1) GiveUp Some by (auto simp: cancel_pending_def)
    ultimately show ?thesis
      using GiveUp ran_remove [OF assms(2) Some] one_key_remove [OF assms(2), of k] by (simp add: waiting_def)
  qed
qed

lemma enters_Cons: "enters (e # es) = enters [e] @ enters es"
  by (cases e) simp_all

lemma wait_run_facts:
  assumes "one_key (st_pending st)" "distinct (map fst (enters es))" "waiting st \<inter> fst ` set (enters es) = {}"
    and "wait_run st es = (rs, st')"
  shows "distinct (map waiter rs) \<and> set (map waiter rs) \<subseteq> waiting st \<union> fst ` set (enters es) \<and>
    (\<forall>w rep. Delivered w rep \<in> set rs \<longrightarrow>
       st_pending st (reply_key rep) = Some w \<or> (w, reply_key rep) \<in> set (enters es))"
  using assms
proof (induction es arbitrary: st rs)
  case (Cons e es)
  obtain rs1 st1 where s1: "wait_step st e = (rs1, st1)" by force
  obtain rs2 where s2: "wait_run st1 es = (rs2, st')" and rs: "rs = rs1 @ rs2"
    using Cons.prems(4) s1 by (auto split: prod.splits)
  have new: "w \<notin> waiting st" if "e = Enter k w" for k w using Cons.prems(3) that by auto
  have facts: "one_key (st_pending st1) \<and> distinct (map waiter rs1) \<and> set (map waiter rs1) \<subseteq> waiting st \<and>
    waiting st1 = (waiting st - set (map waiter rs1)) \<union> fst ` set (enters [e]) \<and>
    (\<forall>w rep. Delivered w rep \<in> set rs1 \<longrightarrow> st_pending st (reply_key rep) = Some w) \<and>
    (\<forall>w k. st_pending st1 k = Some w \<longrightarrow> st_pending st k = Some w \<or> (w, k) \<in> set (enters [e]))"
    by (rule wait_step_facts [OF s1 Cons.prems(1) new])
  then have f: "one_key (st_pending st1)" "distinct (map waiter rs1)" "set (map waiter rs1) \<subseteq> waiting st"
    "waiting st1 = (waiting st - set (map waiter rs1)) \<union> fst ` set (enters [e])"
    "\<And>w rep. Delivered w rep \<in> set rs1 \<Longrightarrow> st_pending st (reply_key rep) = Some w"
    "\<And>w k. st_pending st1 k = Some w \<Longrightarrow> st_pending st k = Some w \<or> (w, k) \<in> set (enters [e])"
    by blast+
  have disj: "fst ` set (enters [e]) \<inter> fst ` set (enters es) = {}" "distinct (map fst (enters es))"
    using Cons.prems(2) enters_Cons [of e es] by (auto simp: distinct_append)
  have wt: "waiting st1 \<subseteq> waiting st \<union> fst ` set (enters [e])"
    "waiting st1 \<inter> set (map waiter rs1) \<subseteq> fst ` set (enters [e])"
    unfolding f(4) by auto
  have new': "fst ` set (enters [e]) \<inter> waiting st = {}" "fst ` set (enters es) \<inter> waiting st = {}"
    using Cons.prems(3) enters_Cons [of e es] by auto
  have "waiting st1 \<inter> fst ` set (enters es) = {}"
    using wt(1) new' disj(1) by blast
  from Cons.IH [OF f(1) disj(2) this s2]
  have ih: "distinct (map waiter rs2)" "set (map waiter rs2) \<subseteq> waiting st1 \<union> fst ` set (enters es)"
    "\<And>w rep. Delivered w rep \<in> set rs2 \<Longrightarrow> st_pending st1 (reply_key rep) = Some w \<or> (w, reply_key rep) \<in> set (enters es)"
    by blast+
  have "set (map waiter rs1) \<inter> set (map waiter rs2) = {}"
    using ih(2) f(3) wt(2) new' by blast
  moreover have "set (map waiter rs2) \<subseteq> waiting st \<union> fst ` set (enters (e # es))"
    using ih(2) wt(1) enters_Cons [of e es] by auto
  ultimately have "distinct (map waiter rs) \<and> set (map waiter rs) \<subseteq> waiting st \<union> fst ` set (enters (e # es))"
    using f(2,3) ih(1) unfolding rs by auto
  moreover have "st_pending st (reply_key rep) = Some w \<or> (w, reply_key rep) \<in> set (enters (e # es))"
    if "Delivered w rep \<in> set rs" for w rep
    using that f(5) [of w rep] f(6) [of "reply_key rep" w] ih(3) [of w rep] enters_Cons [of e es]
    unfolding rs by auto
  ultimately show ?case by blast
qed simp

text \<open>
  C9: Replies are correlated: whatever the interleaving of requests, replies and time-outs, a
  request that waits on a stream is finished at most once (with a reply or an error), and if it
  is finished with a reply, the reply carries the connection and the sequence number of that
  request.
\<close>

theorem replies_correlated:
  assumes "distinct (map fst (enters es))"
  shows "distinct (map waiter (fst (wait_run streams_new es))) \<and>
    (\<forall>w rep. Delivered w rep \<in> set (fst (wait_run streams_new es)) \<longrightarrow>
       (w, (fr_conn_id rep, fr_seq rep)) \<in> set (enters es))"
proof -
  have "one_key (st_pending streams_new)" "waiting streams_new = {}"
    by (simp_all add: streams_new_def one_key_def waiting_def)
  with wait_run_facts [of streams_new es "fst (wait_run streams_new es)" "snd (wait_run streams_new es)"] assms
  show ?thesis by (auto simp: streams_new_def reply_key_def)
qed

theorem replies_correlated_witness:
  "\<exists>r. wait_run streams_new [Enter (7, 1) 0, Enter (9, 1) 1, Reply \<lparr>fr_conn_id = 9, fr_seq = 1, fr_msg_id = 5, fr_code = 0, fr_payload = []\<rparr>,
     GiveUp (7, 1)] = ([Delivered 1 r, Dropped 0], streams_new) \<and>
   (1, (fr_conn_id r, fr_seq r)) \<in> set (enters [Enter (7, 1) 0, Enter (9, 1) 1, Reply r, GiveUp (7, 1)])"
proof -
  define r where "r = \<lparr>fr_conn_id = 9, fr_seq = 1, fr_msg_id = 5, fr_code = 0, fr_payload = []\<rparr>"
  let ?es = "[Enter (7, 1) 0, Enter (9, 1) 1, Reply r, GiveUp (7, 1)]"
  have run: "wait_run streams_new ?es = ([Delivered 1 r, Dropped 0], streams_new)"
    by (auto simp: streams_new_def insert_pending_def reply_arrives_def cancel_pending_def Let_def r_def)
  have "distinct (map fst (enters ?es))" by simp
  from replies_correlated [OF this] run have "(1, (fr_conn_id r, fr_seq r)) \<in> set (enters ?es)" by simp
  with run show ?thesis unfolding r_def by blast
qed

end
