(* ===== verification/Gateway.thy ===== *)
theory Gateway
  imports Net Streams Pusher
begin

text \<open>
  The gateway's \<open>session.rs\<close> and the request handlers of its \<open>main.rs\<close>: client connections,
  migration, binding, authentication, the forwarding of requests, UDP and KCP datagrams, and the
  pushes and kicks of the services.

  \<^item> A connection is an object \<open>session_obj\<close> under a number that stands for its \<open>Arc\<close>; the table
    \<open>gw_sessions\<close> maps a connection number to it.  What the code does to the objects and the
    tables is explicit; what it sends is a list of effects, in order.
  \<^item> A request is two steps, because other tasks run while it waits for its reply:
    \<open>forward_start\<close> up to the wait and \<open>forward_finish\<close> after it.
  \<^item> The answers of Redis, the registry, the clock and the network are arguments (\<open>gw_env\<close>).
\<close>

type_synonym sock_addr = string

record session_obj =
  so_conn_id :: u32
  so_active :: u32
  so_udp :: "sock_addr option"
  so_authed :: bool
  so_open :: bool              \<comment> \<open>the task that writes to the client still takes frames\<close>

datatype gw_effect =
    ToClient nat frame         \<comment> \<open>a frame on the channel of a session\<close>
  | ToUdp sock_addr bytes
  | ToKcp nat bytes
  | NotifyConnected string u32
  | NotifyDisconnected string u32
  | Forward nat forward_request
  | DirDelete u32 u32
  | EndWait nat                \<comment> \<open>the sender of a waiting request is dropped\<close>

record gateway =
  gw_id :: u8
  gw_auth_secret :: string
  gw_has_dir :: bool
  gw_sessions :: "u32 \<rightharpoonup> nat"
  gw_objs :: "nat \<Rightarrow> session_obj"
  gw_next_arc :: nat
  gw_next_conn_id :: u32
  gw_kcp :: "u32 \<rightharpoonup> nat"
  gw_conn_session :: "u32 \<rightharpoonup> u32 \<times> u32"
  gw_session_cache :: "u32 \<times> u32 \<rightharpoonup> string \<times> u64"
  gw_disc :: "string discovery"
  gw_streams :: streams

definition gateway_new :: "u8 \<Rightarrow> string \<Rightarrow> bool \<Rightarrow> gateway" where
  "gateway_new gid secret has_dir =
     \<lparr>gw_id = gid, gw_auth_secret = secret, gw_has_dir = has_dir, gw_sessions = Map.empty,
      gw_objs = (\<lambda>_. \<lparr>so_conn_id = 0, so_active = 0, so_udp = None, so_authed = False, so_open = False\<rparr>),
      gw_next_arc = 0, gw_next_conn_id = 0, gw_kcp = Map.empty, gw_conn_session = Map.empty,
      gw_session_cache = Map.empty, gw_disc = discovery_new, gw_streams = streams_new\<rparr>"

section \<open>Sessions\<close>

definition session_new :: "u32 \<Rightarrow> session_obj" where
  "session_new conn_id =
     \<lparr>so_conn_id = conn_id, so_active = 0, so_udp = None, so_authed = False, so_open = True\<rparr>"

definition set_obj :: "gateway \<Rightarrow> nat \<Rightarrow> session_obj \<Rightarrow> gateway" where
  "set_obj gw a s = gw\<lparr>gw_objs := (gw_objs gw)(a := s)\<rparr>"

definition set_authed :: "session_obj \<Rightarrow> bool \<Rightarrow> session_obj" where
  "set_authed s v = s\<lparr>so_authed := v\<rparr>"

definition rebind :: "session_obj \<Rightarrow> u32 \<Rightarrow> session_obj" where
  "rebind s new_id = s\<lparr>so_conn_id := new_id, so_active := 0\<rparr>"

definition bind_udp :: "session_obj \<Rightarrow> sock_addr \<Rightarrow> session_obj" where
  "bind_udp s addr = s\<lparr>so_udp := Some addr\<rparr>"

definition session_send :: "gateway \<Rightarrow> nat \<Rightarrow> frame \<Rightarrow> bool \<times> gw_effect list" where
  "session_send gw a f = (if so_open (gw_objs gw a) then (True, [ToClient a f]) else (False, []))"

definition domain_bit :: "u32 \<Rightarrow> u32" where
  "domain_bit domain = push_bit (unat (drop_bit 24 domain AND 0x1F)) 1"

definition mark_domain :: "session_obj \<Rightarrow> u32 \<Rightarrow> bool \<times> session_obj" where
  "mark_domain s domain =
     (so_active s AND domain_bit domain = 0, s\<lparr>so_active := so_active s OR domain_bit domain\<rparr>)"

definition session_domains :: "session_obj \<Rightarrow> u32 list" where
  "session_domains s =
     map (\<lambda>d. push_bit 24 (word_of_nat d)) (filter (\<lambda>d. so_active s AND push_bit d 1 \<noteq> 0) [1, 2, 3])"

definition push_frame :: "u32 \<Rightarrow> bytes \<Rightarrow> frame" where
  "push_frame msg_id payload = \<lparr>f_ptype = Push, f_msg_id = msg_id, f_seq = 0, f_payload = payload\<rparr>"

definition response_frame :: "u32 \<Rightarrow> u32 \<Rightarrow> bytes \<Rightarrow> frame" where
  "response_frame msg_id seq payload = \<lparr>f_ptype = Response, f_msg_id = msg_id, f_seq = seq, f_payload = payload\<rparr>"

definition send_udp :: "session_obj \<Rightarrow> bool \<Rightarrow> u32 \<Rightarrow> u32 \<Rightarrow> bytes \<Rightarrow> bool \<times> gw_effect list" where
  "send_udp s udp_up msg_id seq payload =
     (case so_udp s of
        None \<Rightarrow> (False, [])
      | Some addr \<Rightarrow> if udp_up then (True, [ToUdp addr (push_datagram msg_id seq payload)]) else (False, []))"

text \<open>\<open>kcp_ok\<close> is whether the KCP library accepts the packet.\<close>

definition send_kcp :: "gateway \<Rightarrow> session_obj \<Rightarrow> bool \<Rightarrow> u32 \<Rightarrow> bytes \<Rightarrow> bool \<times> gw_effect list" where
  "send_kcp gw s kcp_ok msg_id payload =
     (case gw_kcp gw (so_conn_id s) of
        None \<Rightarrow> (False, [])
      | Some k \<Rightarrow> if kcp_ok then (True, [ToKcp k (peer_packet (so_conn_id s) msg_id payload)]) else (False, []))"

definition push_msg :: "gateway \<Rightarrow> nat \<Rightarrow> bool \<Rightarrow> bool \<Rightarrow> u32 \<Rightarrow> bytes \<Rightarrow> bool \<Rightarrow> bool \<times> gw_effect list" where
  "push_msg gw a kcp_ok udp_up msg_id payload prefer_udp =
     (if prefer_udp
      then (case send_kcp gw (gw_objs gw a) kcp_ok msg_id payload of
              (True, es) \<Rightarrow> (True, es)
            | (False, _) \<Rightarrow>
                (case send_udp (gw_objs gw a) udp_up msg_id 0 payload of
                   (True, es) \<Rightarrow> (True, es)
                 | (False, _) \<Rightarrow> session_send gw a (push_frame msg_id payload)))
      else session_send gw a (push_frame msg_id payload))"

section \<open>Connections\<close>

text \<open>The first part of \<open>accept_and_serve\<close>: the number, the session, the welcome frame.\<close>

definition accept_session :: "gateway \<Rightarrow> (nat \<times> u32) \<times> gateway \<times> gw_effect list" where
  "accept_session gw =
     (let conn_id = conn_make (gw_id gw) (gw_next_conn_id gw);
          a = gw_next_arc gw;
          gw' = gw\<lparr>gw_next_conn_id := gw_next_conn_id gw + 1, gw_next_arc := Suc a,
                   gw_objs := (gw_objs gw)(a := session_new conn_id),
                   gw_sessions := (gw_sessions gw)(conn_id \<mapsto> a)\<rparr>
      in ((a, conn_id), gw', snd (session_send gw' a (push_frame SYS_CONN_ID (be_bytes conn_id)))))"

definition handle_resume :: "gateway \<Rightarrow> nat \<Rightarrow> u32 \<Rightarrow> frame \<Rightarrow> gateway \<times> gw_effect list" where
  "handle_resume gw a new_conn_id f =
     (if length (f_payload f) \<noteq> 4
      then (gw, snd (session_send gw a (response_frame 0 (f_seq f) (string_bytes ''err:bad resume payload''))))
      else (let p = f_payload f; old = from_be_bytes (p ! 0) (p ! 1) (p ! 2) (p ! 3)
            in if old = new_conn_id \<or> gw_sessions gw old = None
               then (gw, snd (session_send gw a (response_frame 0 (f_seq f) (string_bytes ''err:no session to resume''))))
               else (let closing = (case gw_sessions gw old of
                              None \<Rightarrow> []
                            | Some o' \<Rightarrow> snd (session_send gw o'
                                \<lparr>f_ptype = Close, f_msg_id = 0, f_seq = 0, f_payload = string_bytes ''migrated''\<rparr>));
                          gw1 = gw\<lparr>gw_sessions := (gw_sessions gw)(old := None)\<rparr>;
                          gw2 = gw1\<lparr>gw_sessions := (gw_sessions gw1)(new_conn_id := None)\<rparr>;
                          gw3 = set_obj gw2 a (rebind (gw_objs gw2 a) old);
                          gw4 = gw3\<lparr>gw_sessions := (gw_sessions gw3)(old \<mapsto> a)\<rparr>
                      in (gw4, closing @ snd (session_send gw4 a (response_frame SYS_RESUME (f_seq f) (be_bytes old)))))))"

definition handle_bind_session :: "gateway \<Rightarrow> nat \<Rightarrow> frame \<Rightarrow> gateway \<times> gw_effect list" where
  "handle_bind_session gw a f =
     (let p = f_payload f; ok = (length p = 5);
          gw' = (if ok
                 then gw\<lparr>gw_conn_session := (gw_conn_session gw)(so_conn_id (gw_objs gw a) \<mapsto>
                           (push_bit 24 (ucast (p ! 0)), from_be_bytes (p ! 1) (p ! 2) (p ! 3) (p ! 4)))\<rparr>
                 else gw)
      in (gw', snd (session_send gw' a (response_frame (if ok then SYS_BIND_SESSION else 0) (f_seq f) []))))"

definition handle_auth :: "gateway \<Rightarrow> nat \<Rightarrow> frame \<Rightarrow> gateway \<times> gw_effect list" where
  "handle_auth gw a f =
     (let ok = (gw_auth_secret gw = [] \<or> lossy (f_payload f) = string_bytes (gw_auth_secret gw));
          gw' = set_obj gw a (set_authed (gw_objs gw a) ok)
      in (gw', snd (session_send gw' a (response_frame (if ok then SYS_AUTH else 0) (f_seq f) []))))"

text \<open>One frame in the read loop; \<open>Spawn\<close> starts the task that forwards the request.\<close>

datatype loop_next = Continue | Spawn | Break

definition on_frame :: "gateway \<Rightarrow> nat \<Rightarrow> u32 \<Rightarrow> frame \<Rightarrow> loop_next \<times> gateway \<times> gw_effect list" where
  "on_frame gw a conn_id f =
     (case f_ptype f of
        Request \<Rightarrow>
          if f_msg_id f = SYS_RESUME then (Continue, handle_resume gw a conn_id f)
          else if f_msg_id f = SYS_BIND_SESSION then (Continue, handle_bind_session gw a f)
          else if f_msg_id f = SYS_AUTH then (Continue, handle_auth gw a f)
          else if gw_auth_secret gw \<noteq> [] \<and> \<not> so_authed (gw_objs gw a)
          then (Continue, gw, snd (session_send gw a (response_frame 0 (f_seq f) (string_bytes ''err:unauthorized''))))
          else (Spawn, gw, [])
      | Heartbeat \<Rightarrow>
          (case session_send gw a \<lparr>f_ptype = Heartbeat, f_msg_id = 0, f_seq = 0, f_payload = []\<rparr> of
             (ok, es) \<Rightarrow> (if ok then Continue else Break, gw, es))
      | Close \<Rightarrow> (Break, gw, [])
      | _ \<Rightarrow> (Continue, gw, []))"

text \<open>The end of a connection: the domains to notify, and the task eight seconds later.\<close>

definition SESSION_GRACE :: nat where "SESSION_GRACE = 8"

definition close_notices :: "gateway \<Rightarrow> nat \<Rightarrow> u32 \<Rightarrow> (u32 \<times> u32) list" where
  "close_notices gw a conn_id = map (\<lambda>d. (d, conn_id)) (session_domains (gw_objs gw a))"

definition grace_over :: "gateway \<Rightarrow> nat \<Rightarrow> u32 \<Rightarrow> gateway" where
  "grace_over gw a conn_id =
     (if gw_sessions gw conn_id = Some a
      then gw\<lparr>gw_sessions := (gw_sessions gw)(conn_id := None), gw_kcp := (gw_kcp gw)(conn_id := None)\<rparr>
      else gw)"

section \<open>Routing a request\<close>

text \<open>
  What the world answers to one request: the registry and the sorting of its nodes, the clock
  readings in order, the lobby, the directory, connection attempts, and the opening of a stream.
\<close>

record gw_env =
  en_sort :: sorter
  en_reg :: registry_reply
  en_clock :: "nat \<Rightarrow> u64"
  en_take :: "u32 option"
  en_lookup :: "string option"
  en_connect :: "string \<Rightarrow> nat \<Rightarrow> string option"
  en_refused :: "string option"

definition is_match :: "u32 \<Rightarrow> u32 \<Rightarrow> bool" where
  "is_match domain msg_id \<longleftrightarrow>
     (if domain = DOMAIN_BATTLE then msg_id = BATTLE_JOIN
      else if domain = DOMAIN_CARD then msg_id = CARD_START else False)"

definition try_matchmake :: "gateway \<Rightarrow> u32 \<Rightarrow> u32 \<Rightarrow> u32 \<Rightarrow> u32 option \<Rightarrow> gateway" where
  "try_matchmake gw domain msg_id conn_id taken =
     (if \<not> is_match domain msg_id \<or> \<not> gw_has_dir gw
         \<or> (case gw_conn_session gw conn_id of Some v \<Rightarrow> fst v = domain | None \<Rightarrow> False) then gw
      else case taken of
             Some sid \<Rightarrow> gw\<lparr>gw_conn_session := (gw_conn_session gw)(conn_id \<mapsto> (domain, sid))\<rparr>
           | None \<Rightarrow> gw)"

definition invalidate_session :: "gateway \<Rightarrow> u32 \<Rightarrow> u32 \<Rightarrow> u32 \<Rightarrow> gateway \<times> gw_effect list" where
  "invalidate_session gw domain conn_id sid =
     (gw\<lparr>gw_conn_session := (gw_conn_session gw)(conn_id := None),
         gw_session_cache := (gw_session_cache gw)((domain, sid) := None)\<rparr>,
      if gw_has_dir gw then [DirDelete domain sid] else [])"

definition by_node_id :: "gw_env \<Rightarrow> gateway \<Rightarrow> u32 \<Rightarrow> string \<Rightarrow> nat \<Rightarrow> node_info option \<times> gateway" where
  "by_node_id env gw domain node_id i =
     (case resolve_by_node_id (en_sort env) (en_reg env) (gw_disc gw) domain node_id (en_clock env i) (en_clock env (Suc i)) of
        (n, dv) \<Rightarrow> (n, gw\<lparr>gw_disc := dv\<rparr>))"

definition SESSION_CACHE_NS :: u64 where "SESSION_CACHE_NS = 15000000000"

definition session_target_node :: "gw_env \<Rightarrow> gateway \<Rightarrow> u32 \<Rightarrow> nat \<Rightarrow>
    node_info option \<times> gateway \<times> gw_effect list" where
  "session_target_node env gw domain a =
     (let conn_id = so_conn_id (gw_objs gw a); now = en_clock env 0
      in if \<not> gw_has_dir gw then (None, gw, [])
         else case gw_conn_session gw conn_id of
           None \<Rightarrow> (None, gw, [])
         | Some (b_domain, sid) \<Rightarrow>
             if b_domain \<noteq> domain then (None, gw, [])
             else (case gw_session_cache gw (domain, sid) of
                Some (node_id, until) \<Rightarrow>
                  if now < until
                  then (case by_node_id env gw domain node_id 1 of
                          (Some n, gw1) \<Rightarrow> (Some n, gw1, [])
                        | (None, gw1) \<Rightarrow> (None, invalidate_session gw1 domain conn_id sid))
                  else (case en_lookup env of
                          None \<Rightarrow> (None, gw, [])
                        | Some node_id' \<Rightarrow>
                            (case by_node_id env gw domain node_id' 1 of
                               (Some n, gw1) \<Rightarrow>
                                 (Some n, gw1\<lparr>gw_session_cache := (gw_session_cache gw1)((domain, sid) \<mapsto>
                                    (node_id', now + SESSION_CACHE_NS))\<rparr>, [])
                             | (None, gw1) \<Rightarrow> (None, invalidate_session gw1 domain conn_id sid)))
              | None \<Rightarrow>
                  (case en_lookup env of
                     None \<Rightarrow> (None, gw, [])
                   | Some node_id' \<Rightarrow>
                       (case by_node_id env gw domain node_id' 1 of
                          (Some n, gw1) \<Rightarrow>
                            (Some n, gw1\<lparr>gw_session_cache := (gw_session_cache gw1)((domain, sid) \<mapsto>
                               (node_id', now + SESSION_CACHE_NS))\<rparr>, [])
                        | (None, gw1) \<Rightarrow> (None, invalidate_session gw1 domain conn_id sid)))))"

definition resolve_for :: "gw_env \<Rightarrow> gateway \<Rightarrow> u32 \<Rightarrow> u32 \<Rightarrow> nat \<Rightarrow> node_info option outcome \<times> gateway" where
  "resolve_for env gw domain conn_id i =
     (case resolve (en_sort env) (en_reg env) (gw_disc gw) domain (Some conn_id) (en_clock env i) (en_clock env (Suc i)) of
        (r, dv) \<Rightarrow> (r, gw\<lparr>gw_disc := dv\<rparr>))"

text \<open>The first request of a session to a domain tells the service of the connection.\<close>

definition announce :: "gw_env \<Rightarrow> gateway \<Rightarrow> nat \<Rightarrow> u32 \<Rightarrow> node_info \<Rightarrow> unit outcome \<times> gateway \<times> gw_effect list" where
  "announce env gw a domain node =
     (case mark_domain (gw_objs gw a) domain of
        (first, s) \<Rightarrow>
          let gw1 = set_obj gw a s
          in if \<not> first then (Inr (), gw1, [])
             else (case channel_for (gw_disc gw1) (ni_addr node) (en_connect env (ni_addr node)) of
                     (Inl p, dv) \<Rightarrow> (Inl p, gw1\<lparr>gw_disc := dv\<rparr>, [])
                   | (Inr None, dv) \<Rightarrow> (Inr (), gw1\<lparr>gw_disc := dv\<rparr>, [])
                   | (Inr (Some _), dv) \<Rightarrow>
                       (Inr (), gw1\<lparr>gw_disc := dv\<rparr>, [NotifyConnected (ni_addr node) (so_conn_id s)])))"

definition open_stream :: "gw_env \<Rightarrow> gateway \<Rightarrow> u32 \<Rightarrow> node_info \<Rightarrow> (string + nat) outcome \<times> gateway" where
  "open_stream env gw domain node =
     (case get_or_open (gw_streams gw) (gw_disc gw) domain node (en_connect env (ni_addr node)) (en_refused env) of
        (r, st, dv) \<Rightarrow> (r, gw\<lparr>gw_streams := st, gw_disc := dv\<rparr>))"

definition unknown_domain :: "u32 \<Rightarrow> string" where
  "unknown_domain domain = ''unknown domain 0x'' @ fmt_hex domain"

definition none_available :: "string \<Rightarrow> string" where
  "none_available svc_name = ''no '' @ svc_name @ '' available''"

text \<open>Which node gets the request: the bound session's, otherwise the ring's.\<close>

definition pick_node :: "gw_env \<Rightarrow> gateway \<Rightarrow> nat \<Rightarrow> frame \<Rightarrow> string \<Rightarrow> (string + node_info) outcome \<times> gateway \<times> gw_effect list" where
  "pick_node env gw a f svc_name =
     (let domain = domain_of (f_msg_id f); conn_id = so_conn_id (gw_objs gw a);
          gw1 = try_matchmake gw domain (f_msg_id f) conn_id (en_take env)
      in case session_target_node env gw1 domain a of
           (Some n, gw2, es) \<Rightarrow> (Inr (Inr n), gw2, es)
         | (None, gw2, es) \<Rightarrow>
             (case resolve_for env gw2 domain conn_id 3 of
                (Inl p, gw3) \<Rightarrow> (Inl p, gw3, es)
              | (Inr None, gw3) \<Rightarrow> (Inr (Inl (none_available svc_name)), gw3, es)
              | (Inr (Some n), gw3) \<Rightarrow> (Inr (Inr n), gw3, es)))"

text \<open>The part of \<open>forward_request\<close> before the wait; \<open>w\<close> is the number of its waiting reply.\<close>

definition forward_begin :: "gw_env \<Rightarrow> gateway \<Rightarrow> nat \<Rightarrow> frame \<Rightarrow> nat \<Rightarrow>
    (string + unit) outcome \<times> gateway \<times> gw_effect list" where
  "forward_begin env gw a f w =
     (let domain = domain_of (f_msg_id f)
      in case service_for_domain domain of
           None \<Rightarrow> (Inr (Inl (unknown_domain domain)), gw, [])
         | Some svc_name \<Rightarrow>
             (case pick_node env gw a f svc_name of
                (Inl p, gw1, es1) \<Rightarrow> (Inl p, gw1, es1)
              | (Inr (Inl e), gw1, es1) \<Rightarrow> (Inr (Inl e), gw1, es1)
              | (Inr (Inr node), gw1, es1) \<Rightarrow>
                  (case announce env gw1 a domain node of
                     (Inl p, gw2, es2) \<Rightarrow> (Inl p, gw2, es1 @ es2)
                   | (Inr _, gw2, es2) \<Rightarrow>
                       (case open_stream env gw2 domain node of
                          (Inl p, gw3) \<Rightarrow> (Inl p, gw3, es1 @ es2)
                        | (Inr (Inl e), gw3) \<Rightarrow> (Inr (Inl e), gw3, es1 @ es2)
                        | (Inr (Inr c), gw3) \<Rightarrow>
                            let conn_id = so_conn_id (gw_objs gw3 a);
                                ins = insert_pending (gw_streams gw3) (conn_id, f_seq f) w;
                                gw4 = gw3\<lparr>gw_streams := snd ins\<rparr>;
                                dropped = (case fst ins of None \<Rightarrow> [] | Some v \<Rightarrow> [EndWait v])
                            in case stream_send (gw_streams gw4) c of
                                 Inl e \<Rightarrow> (Inr (Inl e), gw4, es1 @ es2 @ dropped)
                               | Inr _ \<Rightarrow> (Inr (Inr ()), gw4, es1 @ es2 @ dropped @
                                   [Forward c \<lparr>fq_conn_id = conn_id, fq_seq = f_seq f, fq_msg_id = f_msg_id f,
                                               fq_payload = f_payload f\<rparr>])))))"

datatype wait_end = Replied forward_reply | TimedOut | SenderGone

definition forward_end :: "gateway \<Rightarrow> nat \<Rightarrow> frame \<Rightarrow> wait_end \<Rightarrow> (string + unit) \<times> gw_effect list" where
  "forward_end gw a f r =
     (case r of
        TimedOut \<Rightarrow> (Inl ''timeout waiting reply'', [])
      | SenderGone \<Rightarrow> (Inl ''bridge stream closed'', [])
      | Replied rep \<Rightarrow>
          (case session_send gw a (if fr_code rep \<noteq> 0 then response_frame 0 (f_seq f) (fr_payload rep)
                                   else response_frame (fr_msg_id rep) (fr_seq rep) (fr_payload rep)) of
             (True, es) \<Rightarrow> (Inr (), es)
           | (False, es) \<Rightarrow> (Inl ''session closed'', es)))"

text \<open>The error branch at the end of \<open>forward_request\<close>.\<close>

definition forward_fail :: "gateway \<Rightarrow> nat \<Rightarrow> frame \<Rightarrow> string \<Rightarrow> gateway \<times> gw_effect list" where
  "forward_fail gw a f e =
     (let conn_id = so_conn_id (gw_objs gw a); domain = domain_of (f_msg_id f);
          (gw1, es1) = (case gw_conn_session gw conn_id of
                          Some (d, sid) \<Rightarrow> if d = domain then invalidate_session gw domain conn_id sid else (gw, [])
                        | None \<Rightarrow> (gw, []));
          can = cancel_pending (gw_streams gw1) (conn_id, f_seq f);
          gw2 = gw1\<lparr>gw_streams := snd can\<rparr>;
          dropped = (case fst can of None \<Rightarrow> [] | Some v \<Rightarrow> [EndWait v])
      in (gw2, es1 @ dropped @ snd (session_send gw2 a (response_frame 0 (f_seq f) (string_bytes (''err:'' @ e))))))"

definition forward_start :: "gw_env \<Rightarrow> gateway \<Rightarrow> nat \<Rightarrow> frame \<Rightarrow> nat \<Rightarrow> bool outcome \<times> gateway \<times> gw_effect list" where
  "forward_start env gw a f w =
     (case forward_begin env gw a f w of
        (Inl p, gw', es) \<Rightarrow> (Inl p, gw', es)
      | (Inr (Inr _), gw', es) \<Rightarrow> (Inr True, gw', es)
      | (Inr (Inl e), gw', es) \<Rightarrow> (case forward_fail gw' a f e of (gw'', es') \<Rightarrow> (Inr False, gw'', es @ es')))"

definition forward_finish :: "gateway \<Rightarrow> nat \<Rightarrow> frame \<Rightarrow> wait_end \<Rightarrow> gateway \<times> gw_effect list" where
  "forward_finish gw a f r =
     (case forward_end gw a f r of
        (Inr _, es) \<Rightarrow> (gw, es)
      | (Inl e, es) \<Rightarrow> (case forward_fail gw a f e of (gw', es') \<Rightarrow> (gw', es @ es')))"

section \<open>Datagrams\<close>

definition forward_udp :: "gw_env \<Rightarrow> gateway \<Rightarrow> nat \<Rightarrow> u32 \<Rightarrow> bytes \<Rightarrow> unit outcome \<times> gateway \<times> gw_effect list" where
  "forward_udp env gw a msg_id payload =
     (let domain = domain_of msg_id
      in case service_for_domain domain of
           None \<Rightarrow> (Inr (), gw, [])
         | Some svc_name \<Rightarrow>
             (case resolve_for env gw domain (so_conn_id (gw_objs gw a)) 0 of
                (Inl p, gw1) \<Rightarrow> (Inl p, gw1, [])
              | (Inr None, gw1) \<Rightarrow> (Inr (), gw1, [])
              | (Inr (Some node), gw1) \<Rightarrow>
                  (case announce env gw1 a domain node of
                     (Inl p, gw2, es) \<Rightarrow> (Inl p, gw2, es)
                   | (Inr _, gw2, es) \<Rightarrow>
                       (case open_stream env gw2 domain node of
                          (Inl p, gw3) \<Rightarrow> (Inl p, gw3, es)
                        | (Inr (Inl e), gw3) \<Rightarrow> (Inr (), gw3, es)
                        | (Inr (Inr c), gw3) \<Rightarrow>
                            (case stream_send (gw_streams gw3) c of
                               Inl e \<Rightarrow> (Inr (), gw3, es)
                             | Inr _ \<Rightarrow> (Inr (), gw3, es @
                                 [Forward c \<lparr>fq_conn_id = so_conn_id (gw_objs gw3 a), fq_seq = 0, fq_msg_id = msg_id,
                                             fq_payload = payload\<rparr>]))))))"

text \<open>A datagram with the application's packet in it: raw, or out of a KCP conversation.\<close>

definition handle_packet :: "gw_env \<Rightarrow> gateway \<Rightarrow> sock_addr \<Rightarrow> bytes \<Rightarrow> unit outcome \<times> gateway \<times> gw_effect list" where
  "handle_packet env gw src data =
     (case parse_peer_packet data of
        None \<Rightarrow> (Inr (), gw, [])
      | Some (conn_id, msg_id, payload) \<Rightarrow>
          (case gw_sessions gw conn_id of
             None \<Rightarrow> (Inr (), gw, [])
           | Some a \<Rightarrow> forward_udp env (set_obj gw a (bind_udp (gw_objs gw a) src)) a msg_id payload))"

definition handle_udp_datagram :: "gw_env \<Rightarrow> gateway \<Rightarrow> sock_addr \<Rightarrow> bytes \<Rightarrow> unit outcome \<times> gateway \<times> gw_effect list" where
  "handle_udp_datagram = handle_packet"

text \<open>A KCP datagram opens the conversation of its number when there is none; the library does the rest.\<close>

definition handle_kcp_datagram :: "gateway \<Rightarrow> u32 \<Rightarrow> gateway" where
  "handle_kcp_datagram gw conv =
     (case gw_kcp gw conv of
        Some _ \<Rightarrow> gw
      | None \<Rightarrow> gw\<lparr>gw_kcp := (gw_kcp gw)(conv \<mapsto> gw_next_arc gw), gw_next_arc := Suc (gw_next_arc gw)\<rparr>)"

datatype datagram = RawUdp | KcpPacket u32 | Ignored

definition classify_datagram :: "bytes \<Rightarrow> datagram" where
  "classify_datagram data =
     (if 2 \<le> length data \<and> take 2 data = udp_MAGIC then RawUdp
      else if 4 \<le> length data then KcpPacket (from_le_bytes (data ! 0) (data ! 1) (data ! 2) (data ! 3))
      else Ignored)"

definition notify_disconnected :: "gw_env \<Rightarrow> gateway \<Rightarrow> u32 \<Rightarrow> u32 \<Rightarrow> unit outcome \<times> gateway \<times> gw_effect list" where
  "notify_disconnected env gw domain conn_id =
     (case resolve_for env gw domain conn_id 0 of
        (Inl p, gw1) \<Rightarrow> (Inl p, gw1, [])
      | (Inr None, gw1) \<Rightarrow> (Inr (), gw1, [])
      | (Inr (Some node), gw1) \<Rightarrow>
          (case channel_for (gw_disc gw1) (ni_addr node) (en_connect env (ni_addr node)) of
             (Inl p, dv) \<Rightarrow> (Inl p, gw1\<lparr>gw_disc := dv\<rparr>, [])
           | (Inr None, dv) \<Rightarrow> (Inr (), gw1\<lparr>gw_disc := dv\<rparr>, [])
           | (Inr (Some _), dv) \<Rightarrow> (Inr (), gw1\<lparr>gw_disc := dv\<rparr>, [NotifyDisconnected (ni_addr node) conn_id])))"

section \<open>The services' calls\<close>

definition route_push :: "gateway \<Rightarrow> bool \<Rightarrow> bool \<Rightarrow> push_request \<Rightarrow> bool \<times> gw_effect list" where
  "route_push gw kcp_ok udp_up req =
     (case gw_sessions gw (pq_conn_id req) of
        Some a \<Rightarrow> push_msg gw a kcp_ok udp_up (pq_msg_id req) (pq_payload req) (pq_udp req)
      | None \<Rightarrow> (False, []))"

definition kick_text :: "u32 \<Rightarrow> string \<Rightarrow> string" where
  "kick_text reason detail = ''kick:'' @ fmt_u32 reason @ '':'' @ detail"

definition grpc_kick :: "gateway \<Rightarrow> u32 \<Rightarrow> u32 \<Rightarrow> string \<Rightarrow> bool \<times> gateway \<times> gw_effect list" where
  "grpc_kick gw conn_id reason detail =
     (case gw_sessions gw conn_id of
        Some a \<Rightarrow>
          (let gw' = gw\<lparr>gw_sessions := (gw_sessions gw)(conn_id := None)\<rparr>
           in (True, gw', snd (session_send gw' a \<lparr>f_ptype = Close, f_msg_id = 0, f_seq = 0,
                                                  f_payload = string_bytes (kick_text reason detail)\<rparr>)))
      | None \<Rightarrow> (False, gw, []))"

end
