(* ===== verification/Gateway_Safety.thy ===== *)
theory Gateway_Safety
  imports Gateway
begin

text \<open>
  What the gateway's operations leave alone (\<open>same_clients\<close>: the tables of sessions and KCP conversations, the numbers,
  authentication and openness of the session objects) and what they may send (\<open>no_client\<close>: no
  frame to a client), and the steps of the whole gateway with the tasks it has spawned.
\<close>

section \<open>Frames of the operations\<close>

definition same_clients :: "gateway \<Rightarrow> gateway \<Rightarrow> bool" where
  "same_clients gw gw' \<longleftrightarrow> gw_auth_secret gw' = gw_auth_secret gw \<and> gw_sessions gw' = gw_sessions gw \<and>
     gw_next_arc gw' = gw_next_arc gw \<and> gw_kcp gw' = gw_kcp gw \<and> gw_id gw' = gw_id gw \<and>
     (\<forall>b. so_open (gw_objs gw' b) = so_open (gw_objs gw b) \<and> so_authed (gw_objs gw' b) = so_authed (gw_objs gw b) \<and>
          so_conn_id (gw_objs gw' b) = so_conn_id (gw_objs gw b) \<and>
          (\<forall>n. bit (so_active (gw_objs gw b)) n \<longrightarrow> bit (so_active (gw_objs gw' b)) n))"

definition no_client :: "gw_effect list \<Rightarrow> bool" where
  "no_client es \<longleftrightarrow> (\<forall>e\<in>set es. case e of ToClient _ _ \<Rightarrow> False | _ \<Rightarrow> True)"

lemma no_client_simps [simp]:
  "no_client []" "no_client (e # es) \<longleftrightarrow> (case e of ToClient _ _ \<Rightarrow> False | _ \<Rightarrow> True) \<and> no_client es"
  "no_client (es @ fs) \<longleftrightarrow> no_client es \<and> no_client fs"
  by (auto simp: no_client_def)

lemma same_refl [simp]: "same_clients gw gw"
  by (simp add: same_clients_def)

lemma same_trans: "same_clients g1 g2 \<Longrightarrow> same_clients g2 g3 \<Longrightarrow> same_clients g1 g3"
  by (simp add: same_clients_def)

lemma same_fields [simp]:
  "same_clients gw (g'\<lparr>gw_disc := d\<rparr>) = same_clients gw g'"
  "same_clients gw (g'\<lparr>gw_streams := st\<rparr>) = same_clients gw g'"
  "same_clients gw (g'\<lparr>gw_conn_session := cs\<rparr>) = same_clients gw g'"
  "same_clients gw (g'\<lparr>gw_session_cache := sc\<rparr>) = same_clients gw g'"
  by (simp_all add: same_clients_def)

lemma try_matchmake_same [simp]: "same_clients gw (try_matchmake gw d m c t)"
  by (simp add: try_matchmake_def split: option.splits)

lemma invalidate_same [simp]: "same_clients gw (fst (invalidate_session g' d c s)) = same_clients gw g'"
  by (simp add: invalidate_session_def)

lemma invalidate_no_client [simp]: "no_client (snd (invalidate_session g' d c s))"
  by (simp add: invalidate_session_def)

lemma by_node_id_same: "by_node_id env gw d n i = (r, gw') \<Longrightarrow> same_clients gw gw'"
  by (auto simp: by_node_id_def split: prod.splits)

lemma resolve_for_same: "resolve_for env gw d c i = (r, gw') \<Longrightarrow> same_clients gw gw'"
  by (auto simp: resolve_for_def split: prod.splits)

lemma session_target_same:
  "session_target_node env gw d a = (r, gw', es) \<Longrightarrow> same_clients gw gw' \<and> no_client es"
  unfolding session_target_node_def
  by (auto simp: Let_def invalidate_session_def dest: by_node_id_same split: if_splits option.splits prod.splits)

lemma mark_domain_frame:
  "mark_domain s d = (first, s') \<Longrightarrow> so_open s' = so_open s \<and> so_authed s' = so_authed s \<and> so_conn_id s' = so_conn_id s
     \<and> so_udp s' = so_udp s"
  by (auto simp: mark_domain_def)

lemma set_obj_same:
  "so_open s = so_open (gw_objs gw a) \<Longrightarrow> so_authed s = so_authed (gw_objs gw a) \<Longrightarrow>
   so_conn_id s = so_conn_id (gw_objs gw a) \<Longrightarrow>
   (\<And>n. bit (so_active (gw_objs gw a)) n \<Longrightarrow> bit (so_active s) n) \<Longrightarrow> same_clients gw (set_obj gw a s)"
  by (auto simp: same_clients_def set_obj_def)

lemma announce_same: "announce env gw a d n = (r, gw', es) \<Longrightarrow> same_clients gw gw' \<and> no_client es"
  unfolding announce_def
  by (auto simp: Let_def mark_domain_def bit_or_iff intro!: set_obj_same split: prod.splits sum.splits option.splits if_splits)

lemma open_stream_same: "open_stream env gw d n = (r, gw') \<Longrightarrow> same_clients gw gw'"
  by (auto simp: open_stream_def split: prod.splits)

lemma pick_node_same: "pick_node env gw a f s = (r, gw', es) \<Longrightarrow> same_clients gw gw' \<and> no_client es"
proof -
  assume p: "pick_node env gw a f s = (r, gw', es)"
  let ?d = "domain_of (f_msg_id f)"
  let ?g1 = "try_matchmake gw ?d (f_msg_id f) (so_conn_id (gw_objs gw a)) (en_take env)"
  obtain t g2 es2 where t: "session_target_node env ?g1 ?d a = (t, g2, es2)" by (metis prod_cases3)
  obtain q g3 where q: "resolve_for env g2 ?d (so_conn_id (gw_objs gw a)) 3 = (q, g3)" by force
  have "same_clients gw g2" "no_client es2"
    using session_target_same [OF t] same_trans [OF try_matchmake_same] by blast+
  moreover have "same_clients gw g3" using same_trans [OF \<open>same_clients gw g2\<close> resolve_for_same [OF q]] .
  ultimately show ?thesis
    using p t q by (auto simp: pick_node_def Let_def split: option.splits sum.splits)
qed

lemma forward_begin_same:
  assumes "forward_begin env gw a f w = (r, gw', es)"
  shows "same_clients gw gw' \<and> no_client es"
proof (cases "service_for_domain (domain_of (f_msg_id f))")
  case None
  then show ?thesis using assms by (simp add: forward_begin_def)
next
  case (Some s)
  let ?d = "domain_of (f_msg_id f)"
  obtain r1 g1 es1 where p: "pick_node env gw a f s = (r1, g1, es1)" by (metis prod_cases3)
  note s1 = pick_node_same [OF p]
  show ?thesis
  proof (cases "\<exists>node. r1 = Inr (Inr node)")
    case False
    then consider q where "r1 = Inl q" | e where "r1 = Inr (Inl e)"
      by (metis old.sum.exhaust)
    then have "gw' = g1 \<and> es = es1"
      using assms Some p by cases (simp_all add: forward_begin_def)
    with s1 show ?thesis by simp
  next
    case True
    then obtain node where r1: "r1 = Inr (Inr node)" by blast
    obtain r2 g2 es2 where an: "announce env g1 a ?d node = (r2, g2, es2)" by (metis prod_cases3)
    note s2 = announce_same [OF an]
    have c2: "same_clients gw g2" using same_trans s1 s2 by blast
    obtain r3 g3 where os: "open_stream env g2 ?d node = (r3, g3)" by force
    have c3: "same_clients gw g3" using same_trans [OF c2 open_stream_same [OF os]] .
    show ?thesis
      using assms Some p r1 an os s1 s2 c2 c3
      by (auto simp: forward_begin_def Let_def split: sum.splits option.splits)
  qed
qed

text \<open>The steps of a start that succeeds.\<close>

lemma begin_okE:
  assumes "forward_begin env gw a f w = (Inr (Inr ()), gw', es)"
  obtains s node g1 es1 g2 es2 g3 c where
    "service_for_domain (domain_of (f_msg_id f)) = Some s"
    "pick_node env gw a f s = (Inr (Inr node), g1, es1)"
    "announce env g1 a (domain_of (f_msg_id f)) node = (Inr (), g2, es2)"
    "open_stream env g2 (domain_of (f_msg_id f)) node = (Inr (Inr c), g3)"
    "so_conn_id (gw_objs g3 a) = so_conn_id (gw_objs gw a)"
    "st_pending (gw_streams gw') = (st_pending (gw_streams g3))((so_conn_id (gw_objs gw a), f_seq f) \<mapsto> w)"
    "es = es1 @ es2 @
       (case st_pending (gw_streams g3) (so_conn_id (gw_objs gw a), f_seq f) of None \<Rightarrow> [] | Some v \<Rightarrow> [EndWait v]) @
       [Forward c \<lparr>fq_conn_id = so_conn_id (gw_objs gw a), fq_seq = f_seq f, fq_msg_id = f_msg_id f, fq_payload = f_payload f\<rparr>]"
proof -
  let ?d = "domain_of (f_msg_id f)"
  obtain s where s: "service_for_domain ?d = Some s"
    using assms by (auto simp: forward_begin_def Let_def split: option.splits)
  obtain r1 g1 es1 where p: "pick_node env gw a f s = (r1, g1, es1)" by (metis prod_cases3)
  then obtain node where r1: "r1 = Inr (Inr node)"
    using assms s by (auto simp: forward_begin_def Let_def split: sum.splits)
  obtain r2 g2 es2 where an: "announce env g1 a ?d node = (r2, g2, es2)" by (metis prod_cases3)
  then have r2: "r2 = Inr ()" using assms s p r1 by (auto simp: forward_begin_def Let_def split: sum.splits)
  obtain r3 g3 where os: "open_stream env g2 ?d node = (r3, g3)" by force
  then obtain c where r3: "r3 = Inr (Inr c)"
    using assms s p r1 an r2 by (auto simp: forward_begin_def Let_def split: sum.splits)
  have "same_clients gw g3"
    using same_trans [OF same_trans [OF conjunct1 [OF pick_node_same [OF p]] conjunct1 [OF announce_same [OF an]]]
        open_stream_same [OF os]] .
  then have id: "so_conn_id (gw_objs g3 a) = so_conn_id (gw_objs gw a)" by (simp add: same_clients_def)
  show thesis
    by (rule that [OF s p [unfolded r1] an [unfolded r2] os [unfolded r3] id])
      (use assms s p r1 an r2 os r3 id in
        \<open>auto simp: forward_begin_def Let_def insert_pending_def split: sum.splits option.splits\<close>)
qed

definition client_frames :: "nat \<Rightarrow> gw_effect list \<Rightarrow> frame list" where
  "client_frames a es = List.map_filter (\<lambda>e. case e of ToClient b f \<Rightarrow> if b = a then Some f else None | _ \<Rightarrow> None) es"

lemma client_frames_simps [simp]:
  "client_frames a [] = []"
  "client_frames a (es @ fs) = client_frames a es @ client_frames a fs"
  "client_frames a (e # es) = (case e of ToClient b f \<Rightarrow> if b = a then f # client_frames a es else client_frames a es
     | _ \<Rightarrow> client_frames a es)"
  by (simp_all add: client_frames_def map_filter_def split: gw_effect.splits)

lemma client_frames_none [simp]: "no_client es \<Longrightarrow> client_frames a es = []"
  by (induction es) (auto simp: client_frames_def map_filter_def split: gw_effect.splits)

lemma forward_fail_facts:
  assumes "forward_fail gw a f e = (gw', es)"
  shows "same_clients gw gw'" "client_frames a es =
    (if so_open (gw_objs gw a) then [response_frame 0 (f_seq f) (string_bytes (''err:'' @ e))] else [])"
proof -
  let ?c = "so_conn_id (gw_objs gw a)"
  let ?d = "domain_of (f_msg_id f)"
  obtain g1 es1 where g1: "(case gw_conn_session gw ?c of
        Some (d, sid) \<Rightarrow> if d = ?d then invalidate_session gw ?d ?c sid else (gw, []) | None \<Rightarrow> (gw, [])) = (g1, es1)"
    by force
  then have s: "same_clients gw g1" "no_client es1"
    by (auto simp: invalidate_session_def split: option.splits prod.splits if_splits)
  have "so_open (gw_objs g1 a) = so_open (gw_objs gw a)" using s(1) by (simp add: same_clients_def)
  then show "same_clients gw gw'" "client_frames a es =
    (if so_open (gw_objs gw a) then [response_frame 0 (f_seq f) (string_bytes (''err:'' @ e))] else [])"
    using assms g1 s by (auto simp: forward_fail_def Let_def session_send_def split: option.splits)
qed

lemma forward_start_same: "forward_start env gw a f w = (r, gw', es) \<Longrightarrow> same_clients gw gw'"
proof -
  assume fs: "forward_start env gw a f w = (r, gw', es)"
  obtain r1 g1 es1 where b: "forward_begin env gw a f w = (r1, g1, es1)" by (metis prod_cases3)
  note s = forward_begin_same [OF b]
  consider p where "r1 = Inl p" | "r1 = Inr (Inr ())" | e where "r1 = Inr (Inl e)"
    by (metis old.sum.exhaust old.unit.exhaust)
  then show ?thesis
  proof cases
    case 3
    obtain g2 es2 where ff: "forward_fail g1 a f e = (g2, es2)" by force
    then show ?thesis
      using fs b s same_trans [OF _ forward_fail_facts(1) [OF ff]] 3 by (auto simp: forward_start_def)
  qed (use fs b s in \<open>auto simp: forward_start_def\<close>)
qed

lemma forward_finish_same: "forward_finish gw a f r = (gw', es) \<Longrightarrow> same_clients gw gw'"
  using forward_fail_facts(1) [of gw a f]
  by (auto simp: forward_finish_def split: sum.splits prod.splits)

lemma forward_udp_same: "forward_udp env gw a m p = (r, gw', es) \<Longrightarrow> same_clients gw gw' \<and> no_client es"
proof -
  assume fu: "forward_udp env gw a m p = (r, gw', es)"
  let ?d = "domain_of m"
  obtain r1 g1 where rf: "resolve_for env gw ?d (so_conn_id (gw_objs gw a)) 0 = (r1, g1)" by force
  note s1 = resolve_for_same [OF rf]
  show ?thesis
  proof (cases "\<exists>node. r1 = Inr (Some node)")
    case False
    then show ?thesis
      using fu rf s1 by (auto simp: forward_udp_def Let_def split: option.splits sum.splits)
  next
    case True
    then obtain node where r1: "r1 = Inr (Some node)" by blast
    obtain r2 g2 es2 where an: "announce env g1 a ?d node = (r2, g2, es2)" by (metis prod_cases3)
    note s2 = announce_same [OF an]
    obtain r3 g3 where os: "open_stream env g2 ?d node = (r3, g3)" by force
    have "same_clients gw g2" using same_trans s1 s2 by blast
    moreover have "same_clients gw g3" using same_trans [OF calculation open_stream_same [OF os]] .
    ultimately show ?thesis
      using fu rf r1 an os s2 by (auto simp: forward_udp_def Let_def split: option.splits sum.splits)
  qed
qed

section \<open>The gateway and its tasks\<close>

text \<open>
  One gateway with the requests it has spawned (\<open>gs_tasks\<close>) and those that wait for a reply
  (\<open>gs_waits\<close>, each with its waiter).  An event is one atomic piece of one of its tasks, in any
  order; an index outside a list does nothing.
\<close>

record gw_sys =
  gs_gw :: gateway
  gs_tasks :: "(nat \<times> frame) list"
  gs_waits :: "(nat \<times> frame \<times> nat) list"
  gs_next_wait :: nat

datatype gw_event =
    GAccept
  | GFrame nat u32 frame              \<comment> \<open>the read loop of a session takes a frame\<close>
  | GStart nat gw_env                 \<comment> \<open>a spawned request runs up to its wait\<close>
  | GFinish nat wait_end              \<comment> \<open>a waiting request goes on\<close>
  | GPacket gw_env sock_addr bytes    \<comment> \<open>a packet over UDP or out of a KCP conversation\<close>
  | GKcp u32
  | GGone nat                         \<comment> \<open>the task that writes to a client ends\<close>
  | GNotify gw_env u32 u32            \<comment> \<open>the notice of a closed connection\<close>
  | GGrace nat u32
  | GPush bool bool push_request
  | GKick u32 u32 string
  | GReply forward_reply
  | GStreamEnd u32 string nat

definition start_task :: "gw_sys \<Rightarrow> nat \<Rightarrow> gw_env \<Rightarrow> gw_sys \<times> gw_effect list" where
  "start_task s i env =
     (case gs_tasks s ! i of (a, f) \<Rightarrow>
        (case forward_start env (gs_gw s) a f (gs_next_wait s) of
           (r, gw', es) \<Rightarrow>
             (s\<lparr>gs_gw := gw', gs_tasks := remove_nth i (gs_tasks s), gs_next_wait := Suc (gs_next_wait s),
                gs_waits := (if r = Inr True then gs_waits s @ [(a, f, gs_next_wait s)] else gs_waits s)\<rparr>, es)))"

fun gw_step :: "gw_sys \<Rightarrow> gw_event \<Rightarrow> gw_sys \<times> gw_effect list" where
  "gw_step s GAccept = (case accept_session (gs_gw s) of (_, gw', es) \<Rightarrow> (s\<lparr>gs_gw := gw'\<rparr>, es))"
| "gw_step s (GFrame a c f) =
     (case on_frame (gs_gw s) a c f of
        (n, gw', es) \<Rightarrow> (s\<lparr>gs_gw := gw', gs_tasks := (if n = Spawn then gs_tasks s @ [(a, f)] else gs_tasks s)\<rparr>, es))"
| "gw_step s (GStart i env) = (if i < length (gs_tasks s) then start_task s i env else (s, []))"
| "gw_step s (GFinish i r) =
     (if i < length (gs_waits s)
      then (case gs_waits s ! i of (a, f, w) \<Rightarrow>
              (case forward_finish (gs_gw s) a f r of
                 (gw', es) \<Rightarrow> (s\<lparr>gs_gw := gw', gs_waits := remove_nth i (gs_waits s)\<rparr>, es)))
      else (s, []))"
| "gw_step s (GPacket env src data) = (case handle_packet env (gs_gw s) src data of (_, gw', es) \<Rightarrow> (s\<lparr>gs_gw := gw'\<rparr>, es))"
| "gw_step s (GKcp conv) = (s\<lparr>gs_gw := handle_kcp_datagram (gs_gw s) conv\<rparr>, [])"
| "gw_step s (GGone a) = (s\<lparr>gs_gw := set_obj (gs_gw s) a ((gw_objs (gs_gw s) a)\<lparr>so_open := False\<rparr>)\<rparr>, [])"
| "gw_step s (GNotify env d c) = (case notify_disconnected env (gs_gw s) d c of (_, gw', es) \<Rightarrow> (s\<lparr>gs_gw := gw'\<rparr>, es))"
| "gw_step s (GGrace a c) = (s\<lparr>gs_gw := grace_over (gs_gw s) a c\<rparr>, [])"
| "gw_step s (GPush k u req) = (s, snd (route_push (gs_gw s) k u req))"
| "gw_step s (GKick c r d) = (case grpc_kick (gs_gw s) c r d of (_, gw', es) \<Rightarrow> (s\<lparr>gs_gw := gw'\<rparr>, es))"
| "gw_step s (GReply rep) = (s\<lparr>gs_gw := (gs_gw s)\<lparr>gw_streams := snd (reply_arrives (gw_streams (gs_gw s)) rep)\<rparr>\<rparr>, [])"
| "gw_step s (GStreamEnd d addr c) =
     (s\<lparr>gs_gw := (gs_gw s)\<lparr>gw_streams := stream_ended (gw_streams (gs_gw s)) d addr c\<rparr>\<rparr>, [])"

definition gw_run :: "gw_sys \<Rightarrow> gw_event list \<Rightarrow> gw_sys" where
  "gw_run s es = foldl (\<lambda>s e. fst (gw_step s e)) s es"

definition gw_start :: "u8 \<Rightarrow> string \<Rightarrow> bool \<Rightarrow> gw_sys" where
  "gw_start gid secret has_dir =
     \<lparr>gs_gw = gateway_new gid secret has_dir, gs_tasks = [], gs_waits = [], gs_next_wait = 0\<rparr>"

lemma gw_run_snoc: "gw_run s (es @ [e]) = fst (gw_step (gw_run s es) e)"
  by (simp add: gw_run_def)

section \<open>Authentication\<close>

definition keeps_auth :: "gateway \<Rightarrow> gateway \<Rightarrow> bool" where
  "keeps_auth gw gw' \<longleftrightarrow> gw_auth_secret gw' = gw_auth_secret gw \<and>
     (\<forall>b. so_authed (gw_objs gw' b) \<longrightarrow> so_authed (gw_objs gw b))"

lemma same_keeps_auth: "same_clients gw gw' \<Longrightarrow> keeps_auth gw gw'"
  by (simp add: same_clients_def keeps_auth_def)

lemma keeps_auth_refl [simp]: "keeps_auth gw gw"
  by (simp add: keeps_auth_def)

lemma keeps_auth_set_obj: "so_authed s = so_authed (gw_objs gw a) \<Longrightarrow> keeps_auth gw (set_obj gw a s)"
  by (simp add: keeps_auth_def set_obj_def)

lemma accept_keeps_auth: "accept_session gw = (ac, gw', es) \<Longrightarrow> keeps_auth gw gw'"
  by (auto simp: accept_session_def Let_def keeps_auth_def session_new_def split: if_splits)

lemma resume_keeps_auth: "handle_resume gw a c f = (gw', es) \<Longrightarrow> keeps_auth gw gw'"
  by (auto simp: handle_resume_def Let_def keeps_auth_def set_obj_def rebind_def split: if_splits option.splits)

lemma bind_keeps_auth: "handle_bind_session gw a f = (gw', es) \<Longrightarrow> keeps_auth gw gw'"
  by (auto simp: handle_bind_session_def Let_def keeps_auth_def split: if_splits)

lemma packet_keeps_auth: "handle_packet env gw src data = (r, gw', es) \<Longrightarrow> keeps_auth gw gw'"
proof -
  assume p: "handle_packet env gw src data = (r, gw', es)"
  consider "gw' = gw" | c m d a where "parse_peer_packet data = Some (c, m, d)" "gw_sessions gw c = Some a"
    using p by (auto simp: handle_packet_def split: option.splits)
  then show ?thesis
  proof cases
    case 2
    let ?g = "set_obj gw a (bind_udp (gw_objs gw a) src)"
    have "forward_udp env ?g a m d = (r, gw', es)" using p 2 by (simp add: handle_packet_def)
    then have "same_clients ?g gw'" using forward_udp_same by blast
    then have "keeps_auth ?g gw'" by (rule same_keeps_auth)
    moreover have "keeps_auth gw ?g" by (rule keeps_auth_set_obj) (simp add: bind_udp_def)
    ultimately show ?thesis by (simp add: keeps_auth_def)
  qed simp
qed

lemma notify_keeps_auth: "notify_disconnected env gw d c = (r, gw', es) \<Longrightarrow> keeps_auth gw gw'"
proof -
  assume n: "notify_disconnected env gw d c = (r, gw', es)"
  obtain q g1 where rf: "resolve_for env gw d c 0 = (q, g1)" by force
  have "keeps_auth gw g1" using resolve_for_same [OF rf] by (rule same_keeps_auth)
  then show ?thesis
    using n rf by (auto simp: notify_disconnected_def keeps_auth_def split: sum.splits option.splits prod.splits)
qed

definition presents :: "string \<Rightarrow> nat \<Rightarrow> gw_event \<Rightarrow> bool" where
  "presents secret a e = (case e of GFrame b c f \<Rightarrow> b = a \<and> f_ptype f = Request \<and> f_msg_id f = SYS_AUTH \<and>
     lossy (f_payload f) = string_bytes secret | _ \<Rightarrow> False)"

lemma on_frame_auth:
  assumes "on_frame gw a c f = (n, gw', es)" "gw_auth_secret gw \<noteq> []"
  shows "gw_auth_secret gw' = gw_auth_secret gw"
    "so_authed (gw_objs gw' b) \<Longrightarrow> so_authed (gw_objs gw b) \<or> presents (gw_auth_secret gw) b (GFrame a c f)"
    "n = Spawn \<Longrightarrow> so_authed (gw_objs gw a)"
proof (atomize (full), goal_cases)
  case 1
  consider "f_ptype f \<noteq> Request" | "f_ptype f = Request" "f_msg_id f = SYS_RESUME"
    | "f_ptype f = Request" "f_msg_id f = SYS_BIND_SESSION" | "f_ptype f = Request" "f_msg_id f = SYS_AUTH"
    | "f_ptype f = Request" "f_msg_id f \<notin> {SYS_RESUME, SYS_BIND_SESSION, SYS_AUTH}" by blast
  then show ?case
  proof cases
    case 1
    then have "gw' = gw \<and> n \<noteq> Spawn" using assms(1) by (auto simp: on_frame_def split: ptype.splits prod.splits if_splits)
    then show ?thesis by simp
  next
    case 2
    then have "handle_resume gw a c f = (gw', es)" "n = Continue" using assms(1) by (auto simp: on_frame_def)
    then show ?thesis using resume_keeps_auth by (auto simp: keeps_auth_def)
  next
    case 3
    then have "handle_bind_session gw a f = (gw', es)" "n = Continue"
      using assms(1) by (auto simp: on_frame_def sys_defs)
    then show ?thesis using bind_keeps_auth by (auto simp: keeps_auth_def)
  next
    case 4
    then have "handle_auth gw a f = (gw', es)" "n = Continue"
      using assms(1) by (auto simp: on_frame_def sys_defs)
    then show ?thesis
      using 4 assms(2) by (auto simp: handle_auth_def Let_def set_obj_def set_authed_def presents_def split: if_splits)
  next
    case 5
    then show ?thesis using assms by (auto simp: on_frame_def split: if_splits)
  qed
qed

definition auth_inv :: "string \<Rightarrow> gw_event list \<Rightarrow> gw_sys \<Rightarrow> bool" where
  "auth_inv secret es s \<longleftrightarrow> gw_auth_secret (gs_gw s) = secret \<and>
     (\<forall>a. so_authed (gw_objs (gs_gw s) a) \<longrightarrow> (\<exists>e\<in>set es. presents secret a e)) \<and>
     (\<forall>a f. (a, f) \<in> set (gs_tasks s) \<longrightarrow> (\<exists>e\<in>set es. presents secret a e))"

lemma auth_inv_keeps:
  assumes "auth_inv secret es s" "keeps_auth (gs_gw s) gw'" "set ts \<subseteq> set (gs_tasks s)" "gs_gw s' = gw'" "gs_tasks s' = ts"
  shows "auth_inv secret (es @ [e]) s'"
  using assms unfolding auth_inv_def keeps_auth_def by fastforce

lemma auth_inv_idle: "auth_inv secret es s \<Longrightarrow> auth_inv secret (es @ [e]) s"
  by (rule auth_inv_keeps [of _ _ _ "gs_gw s"]) auto

lemma auth_inv_step:
  assumes "auth_inv secret es s" "secret \<noteq> []"
  shows "auth_inv secret (es @ [e]) (fst (gw_step s e))"
proof (cases e)
  case GAccept
  obtain ac gw' fs where "accept_session (gs_gw s) = (ac, gw', fs)" by (metis prod_cases3)
  with accept_keeps_auth [OF this] GAccept show ?thesis by (intro auth_inv_keeps [OF assms(1)]) auto
next
  case (GFrame a c f)
  obtain n gw' fs where o: "on_frame (gs_gw s) a c f = (n, gw', fs)" by (metis prod_cases3)
  have sec: "gw_auth_secret (gs_gw s) = secret" using assms(1) by (simp add: auth_inv_def)
  have "gw_auth_secret (gs_gw s) \<noteq> []" using sec assms(2) by simp
  note f = on_frame_auth [OF o this, unfolded sec]
  show ?thesis
    using assms(1) f GFrame o unfolding auth_inv_def by (auto simp: split: if_splits)
next
  case (GStart i env)
  show ?thesis
  proof (cases "i < length (gs_tasks s)")
    case True
    obtain a f where af: "gs_tasks s ! i = (a, f)" by force
    obtain r gw' fs where fs: "forward_start env (gs_gw s) a f (gs_next_wait s) = (r, gw', fs)" by (metis prod_cases3)
    with same_keeps_auth [OF forward_start_same [OF fs]] GStart True af set_remove_nth_subset [of i "gs_tasks s"]
    show ?thesis by (intro auth_inv_keeps [OF assms(1)]) (auto simp: start_task_def)
  qed (use GStart assms(1) in \<open>auto intro: auth_inv_idle\<close>)
next
  case (GFinish i r)
  show ?thesis
  proof (cases "i < length (gs_waits s)")
    case True
    obtain a f w where af: "gs_waits s ! i = (a, f, w)" by (metis prod_cases3)
    obtain gw' fs where fs: "forward_finish (gs_gw s) a f r = (gw', fs)" by force
    with same_keeps_auth [OF forward_finish_same [OF fs]] GFinish True af
    show ?thesis by (intro auth_inv_keeps [OF assms(1)]) auto
  qed (use GFinish assms(1) in \<open>auto intro: auth_inv_idle\<close>)
next
  case (GPacket env src data)
  obtain r gw' fs where "handle_packet env (gs_gw s) src data = (r, gw', fs)" by (metis prod_cases3)
  with packet_keeps_auth [OF this] GPacket show ?thesis by (intro auth_inv_keeps [OF assms(1)]) auto
next
  case (GNotify env d c)
  obtain r gw' fs where "notify_disconnected env (gs_gw s) d c = (r, gw', fs)" by (metis prod_cases3)
  with notify_keeps_auth [OF this] GNotify show ?thesis by (intro auth_inv_keeps [OF assms(1)]) auto
next
  case (GKick c r d)
  then show ?thesis
    by (intro auth_inv_keeps [OF assms(1)]) (auto simp: grpc_kick_def keeps_auth_def Let_def split: option.splits)
next
  case (GGone a)
  then show ?thesis by (intro auth_inv_keeps [OF assms(1)]) (auto intro: keeps_auth_set_obj)
qed (intro auth_inv_keeps [OF assms(1)];
     auto simp: keeps_auth_def handle_kcp_datagram_def grace_over_def split: option.splits)+

lemma auth_inv_run: "secret \<noteq> [] \<Longrightarrow> auth_inv secret es (gw_run (gw_start gid secret has_dir) es)"
proof (induction es rule: rev_induct)
  case Nil
  then show ?case by (simp add: gw_run_def gw_start_def auth_inv_def gateway_new_def)
next
  case (snoc e es)
  then show ?case by (simp add: gw_run_snoc auth_inv_step)
qed

section \<open>Who forwards\<close>

definition forwards :: "gw_effect list \<Rightarrow> bool" where
  "forwards es \<longleftrightarrow> (\<exists>c q. Forward c q \<in> set es)"

lemma forwards_simps [simp]:
  "\<not> forwards []" "forwards (es @ fs) \<longleftrightarrow> forwards es \<or> forwards fs"
  "forwards (e # es) \<longleftrightarrow> (case e of Forward _ _ \<Rightarrow> True | _ \<Rightarrow> False) \<or> forwards es"
  by (auto simp: forwards_def split: gw_effect.splits)

lemma send_not_forwards [simp]: "\<not> forwards (snd (session_send gw a f))"
  by (simp add: session_send_def)

lemma send_not_forwards': "session_send gw a f = (ok, es) \<Longrightarrow> \<not> forwards es"
  by (auto simp: session_send_def split: if_splits)

lemma on_frame_not_forwards: "\<not> forwards (snd (snd (on_frame gw a c f)))"
  by (auto simp: on_frame_def handle_resume_def handle_bind_session_def handle_auth_def Let_def
      split: ptype.splits prod.splits option.splits dest: send_not_forwards')

lemma fail_not_forwards: "\<not> forwards (snd (forward_fail gw a f e))"
  by (auto simp: forward_fail_def invalidate_session_def Let_def split: option.splits prod.splits if_splits)

lemma finish_not_forwards: "\<not> forwards (snd (forward_finish gw a f r))"
  using fail_not_forwards [of gw a f]
  by (auto simp: forward_finish_def forward_end_def split: wait_end.splits sum.splits prod.splits bool.splits
      dest: send_not_forwards') (metis snd_conv send_not_forwards')+

lemma push_not_forwards: "\<not> forwards (snd (push_msg gw a k u m p d))"
  by (auto simp: push_msg_def send_kcp_def send_udp_def session_send_def split: option.splits if_splits bool.splits prod.splits)

lemma gw_step_forwards:
  assumes "forwards (snd (gw_step s e))"
  shows "(\<exists>i env. e = GStart i env \<and> i < length (gs_tasks s)) \<or> (\<exists>env src data. e = GPacket env src data)"
proof (cases e)
  case GAccept
  then show ?thesis using assms by (auto simp: accept_session_def Let_def)
next
  case (GFrame a c f)
  then show ?thesis using assms on_frame_not_forwards [of "gs_gw s" a c f] by (auto split: prod.splits)
next
  case (GFinish i r)
  obtain a f w where af: "gs_waits s ! i = (a, f, w)" by (metis prod_cases3)
  then show ?thesis
    using assms GFinish finish_not_forwards [of "gs_gw s" a f r] by (auto split: if_splits prod.splits)
next
  case (GNotify env d c)
  then show ?thesis
    using assms by (auto simp: notify_disconnected_def split: prod.splits sum.splits option.splits)
next
  case (GPush k u req)
  then show ?thesis using assms push_not_forwards by (auto simp: route_push_def split: option.splits)
next
  case (GKick c r d)
  then show ?thesis using assms by (auto simp: grpc_kick_def Let_def split: option.splits)
qed (use assms in \<open>auto split: if_splits\<close>)

end
