(* ===== verification/Gateway_Props.thy ===== *)
theory Gateway_Props
  imports Gateway_Safety Discovery_Props
begin

text \<open>
  What the gateway promises to a client and to the services, and where the code gives less:
  requests are forwarded only for authenticated connections, each gets one response, a reply of
  a duplicated sequence number is lost, a datagram needs no authentication, and a connection
  number can be taken over and is not given back.
\<close>

section \<open>A concrete gateway\<close>

definition demo_env :: gw_env where
  "demo_env = \<lparr>en_sort = sort_key fst, en_reg = (\<lambda>_. Some [node_a]), en_clock = (\<lambda>_. 5), en_take = None,
     en_lookup = None, en_connect = (\<lambda>_ _. Some ''ch''), en_refused = None\<rparr>"

definition demo_request :: "u32 \<Rightarrow> frame" where
  "demo_request seq = \<lparr>f_ptype = Request, f_msg_id = BATTLE_INPUT, f_seq = seq, f_payload = [1, 2]\<rparr>"

definition demo_auth :: frame where
  "demo_auth = \<lparr>f_ptype = Request, f_msg_id = SYS_AUTH, f_seq = 1, f_payload = [112, 119]\<rparr>"

text \<open>Two connections, numbers \<open>0x01000000\<close> and \<open>0x01000001\<close>.\<close>

definition demo_gw :: gateway where
  "demo_gw = gs_gw (gw_run (gw_start 1 ''pw'' False) [GAccept, GAccept])"

lemma ring_pick_single [simp]: "ring_pick (ring_build (sort_key fst) [n]) k = 0"
  using node_for_point [OF sorts_points_sort_key, of "[n]" k] by simp

lemma demo_msg: "domain_of BATTLE_INPUT = DOMAIN_BATTLE" "service_for_domain DOMAIN_BATTLE = Some svc_BATTLE"
  "BATTLE_INPUT \<noteq> SYS_RESUME" "BATTLE_INPUT \<noteq> SYS_BIND_SESSION" "BATTLE_INPUT \<noteq> SYS_AUTH"
  by (simp_all add: domain_of_def service_for_domain_def msg_defs)

lemma demo_conn: "conn_make 1 0 = 0x01000000" "conn_make 1 1 = 0x01000001"
  by (simp_all add: conn_make_def GATEWAY_ID_SHIFT_def LOCAL_MASK_def)

lemmas gw_simps = accept_session_def Let_def session_send_def gateway_new_def session_new_def set_obj_def

section \<open>Authentication\<close>

text \<open>
  C7: The authentication gate: with a secret configured, in every run of the gateway and all its
  tasks, a request goes to a service only from a connection that has presented the secret
  before, unless it came in a datagram.
\<close>

theorem auth_gate:
  assumes "secret \<noteq> []" "forwards (snd (gw_step (gw_run (gw_start gid secret has_dir) es) e))"
  shows "(\<exists>i env a f. e = GStart i env \<and> gs_tasks (gw_run (gw_start gid secret has_dir) es) ! i = (a, f) \<and>
       (\<exists>x\<in>set es. presents secret a x)) \<or> (\<exists>env src data. e = GPacket env src data)"
proof -
  let ?s = "gw_run (gw_start gid secret has_dir) es"
  note inv = auth_inv_run [OF assms(1), of es gid has_dir]
  from gw_step_forwards [OF assms(2)] show ?thesis
  proof
    assume "\<exists>i env. e = GStart i env \<and> i < length (gs_tasks ?s)"
    then obtain i env where i: "e = GStart i env" "i < length (gs_tasks ?s)" by blast
    obtain a f where af: "gs_tasks ?s ! i = (a, f)" by force
    then have "(a, f) \<in> set (gs_tasks ?s)" using i(2) by (metis nth_mem)
    then show ?thesis using inv i af by (auto simp: auth_inv_def)
  qed blast
qed

lemma lossy_pw: "lossy [112, 119] = string_bytes ''pw''"
  by (simp add: lossy.simps string_bytes_def utf8_part_def utf8_lead_def)

definition demo_authed :: "gw_event list" where
  "demo_authed = [GAccept, GFrame 0 0x01000000 demo_auth, GFrame 0 0x01000000 (demo_request 2)]"

lemma demo_resolve: "resolve (sort_key fst) (\<lambda>_. Some [node_a]) discovery_new DOMAIN_BATTLE (Some k) 5 5 =
    (Inr (Some node_a), discovery_new\<lparr>dv_cache := [DOMAIN_BATTLE \<mapsto>
       \<lparr>ce_nodes = [node_a], ce_ring = ring_build (sort_key fst) [node_a], ce_fetched_at = 5\<rparr>]\<rparr>)"
  by (simp add: resolve_def demo_msg cached_def need_fetch_def discovery_new_def fetch_def get_nth_def)

lemma sys_distinct [simp]: "SYS_AUTH \<noteq> SYS_RESUME" "SYS_AUTH \<noteq> SYS_BIND_SESSION" "SYS_BIND_SESSION \<noteq> SYS_RESUME"
  by (simp_all add: sys_defs)

definition authed_gw :: gateway where
  "authed_gw = (gateway_new 1 ''pw'' False)
     \<lparr>gw_sessions := [0x01000000 \<mapsto> 0], gw_next_arc := 1, gw_next_conn_id := 1,
      gw_objs := (gw_objs (gateway_new 1 ''pw'' False))(0 := (session_new 0x01000000)\<lparr>so_authed := True\<rparr>)\<rparr>"

lemma demo_run: "gw_run (gw_start 1 ''pw'' False) demo_authed =
    \<lparr>gs_gw = authed_gw, gs_tasks = [(0, demo_request 2)], gs_waits = [], gs_next_wait = 0\<rparr>"
  by (simp add: gw_run_def gw_start_def demo_authed_def gw_simps on_frame_def demo_auth_def demo_request_def
      handle_auth_def set_authed_def lossy_pw demo_msg demo_conn authed_gw_def)

definition demo_disc :: "string discovery" where
  "demo_disc = discovery_new\<lparr>dv_cache := [DOMAIN_BATTLE \<mapsto>
     \<lparr>ce_nodes = [node_a], ce_ring = ring_build (sort_key fst) [node_a], ce_fetched_at = 5\<rparr>]\<rparr>"

definition demo_disc' :: "string discovery" where
  "demo_disc' = demo_disc\<lparr>dv_rr := 1, dv_channels := [''x:1'' \<mapsto> [''ch'', ''ch'', ''ch'', ''ch'']]\<rparr>"

definition demo_disc'' :: "string discovery" where
  "demo_disc'' = demo_disc'\<lparr>dv_rr := 2\<rparr>"

definition demo_streams :: streams where
  "demo_streams = streams_new\<lparr>st_next := 1, st_alive := (st_alive streams_new)(0 := True),
     st_conns := [(DOMAIN_BATTLE, ''x:1'') \<mapsto> 0]\<rparr>"

lemma upt_pool: "[0 ..< POOL_SIZE] = [0, 1, 2, 3]"
  by (simp add: POOL_SIZE_def upt_conv_Cons)

lemma demo_channel:
  "channel_for demo_disc ''x:1'' (\<lambda>_. Some ''ch'') = (Inr (Some ''ch''), demo_disc')"
  "channel_for demo_disc' ''x:1'' (\<lambda>_. Some ''ch'') = (Inr (Some ''ch''), demo_disc'')"
  by (simp_all add: channel_for_def demo_disc_def demo_disc'_def demo_disc''_def discovery_new_def upt_pool
      rr_next_def get_nth_def)

lemma demo_pick:
  assumes "gw_disc gw = discovery_new" "\<not> gw_has_dir gw"
  shows "pick_node demo_env gw a (demo_request s) n = (Inr (Inr node_a), gw\<lparr>gw_disc := demo_disc\<rparr>, [])"
  using assms by (simp add: pick_node_def Let_def demo_request_def demo_msg try_matchmake_def session_target_node_def
      resolve_for_def demo_env_def demo_resolve demo_disc_def)

lemma demo_announce:
  assumes "gw_disc gw = demo_disc" "so_active (gw_objs gw a) = 0"
  shows "announce demo_env gw a DOMAIN_BATTLE node_a =
    (Inr (), (set_obj gw a (snd (mark_domain (gw_objs gw a) DOMAIN_BATTLE)))\<lparr>gw_disc := demo_disc'\<rparr>,
     [NotifyConnected ''x:1'' (so_conn_id (gw_objs gw a))])"
  using assms by (simp add: announce_def mark_domain_def Let_def demo_env_def node_a_def set_obj_def demo_channel)

lemma demo_open:
  assumes "gw_disc gw = demo_disc'" "gw_streams gw = streams_new"
  shows "open_stream demo_env gw DOMAIN_BATTLE node_a =
    (Inr (Inr 0), gw\<lparr>gw_streams := demo_streams, gw_disc := demo_disc''\<rparr>)"
  using assms by (simp add: open_stream_def get_or_open_def demo_env_def node_a_def streams_new_def demo_channel demo_streams_def)

lemma demo_begin:
  assumes "gw_disc gw = discovery_new" "\<not> gw_has_dir gw" "so_active (gw_objs gw a) = 0" "gw_streams gw = streams_new"
  shows "forward_begin demo_env gw a (demo_request s) w =
    (Inr (Inr ()), (set_obj gw a (snd (mark_domain (gw_objs gw a) DOMAIN_BATTLE)))
        \<lparr>gw_disc := demo_disc'', gw_streams := snd (insert_pending demo_streams (so_conn_id (gw_objs gw a), s) w)\<rparr>,
     [NotifyConnected ''x:1'' (so_conn_id (gw_objs gw a)),
      Forward 0 \<lparr>fq_conn_id = so_conn_id (gw_objs gw a), fq_seq = s, fq_msg_id = BATTLE_INPUT, fq_payload = [1, 2]\<rparr>])"
proof -
  let ?g1 = "gw\<lparr>gw_disc := demo_disc\<rparr>"
  let ?g2 = "(set_obj ?g1 a (snd (mark_domain (gw_objs gw a) DOMAIN_BATTLE)))\<lparr>gw_disc := demo_disc'\<rparr>"
  let ?g3 = "?g2\<lparr>gw_streams := demo_streams, gw_disc := demo_disc''\<rparr>"
  have dom: "domain_of (f_msg_id (demo_request s)) = DOMAIN_BATTLE" by (simp add: demo_request_def demo_msg)
  have pick: "pick_node demo_env gw a (demo_request s) svc_BATTLE = (Inr (Inr node_a), ?g1, [])"
    by (rule demo_pick [OF assms(1,2)])
  have an: "announce demo_env ?g1 a DOMAIN_BATTLE node_a =
      (Inr (), ?g2, [NotifyConnected ''x:1'' (so_conn_id (gw_objs gw a))])"
    using demo_announce [of ?g1 a] assms(3) by simp
  have op: "open_stream demo_env ?g2 DOMAIN_BATTLE node_a = (Inr (Inr 0), ?g3)"
    by (rule demo_open) (simp_all add: set_obj_def assms(4))
  have ids: "so_conn_id (gw_objs ?g3 a) = so_conn_id (gw_objs gw a)" by (simp add: set_obj_def mark_domain_def)
  show ?thesis
    unfolding forward_begin_def Let_def dom demo_msg(2) option.case pick prod.case sum.case an op ids
    by (simp add: insert_pending_def stream_send_def demo_streams_def streams_new_def demo_request_def set_obj_def)
qed

lemma authed_gw_fields [simp]:
  "gw_disc authed_gw = discovery_new" "\<not> gw_has_dir authed_gw" "gw_streams authed_gw = streams_new"
  "gw_objs authed_gw 0 = (session_new 0x01000000)\<lparr>so_authed := True\<rparr>"
  by (simp_all add: authed_gw_def gateway_new_def)

lemma demo_start: "forwards (snd (snd (forward_start demo_env authed_gw 0 (demo_request 2) 0)))"
  by (simp add: forward_start_def demo_begin session_new_def)

theorem auth_gate_witness:
  "\<exists>i env a f. GStart 0 demo_env = GStart i env \<and> gs_tasks (gw_run (gw_start 1 ''pw'' False) demo_authed) ! i = (a, f) \<and>
       (\<exists>x\<in>set demo_authed. presents ''pw'' a x)"
proof -
  obtain r gw' fs where "forward_start demo_env authed_gw 0 (demo_request 2) 0 = (r, gw', fs)" by (metis prod_cases3)
  with demo_start have "forwards (snd (gw_step (gw_run (gw_start 1 ''pw'' False) demo_authed) (GStart 0 demo_env)))"
    by (simp add: demo_run start_task_def)
  from auth_gate [OF _ this] show ?thesis by simp
qed

text \<open>
  A datagram passes the gate without authentication: whoever sends one with the number of an
  existing connection has its payload forwarded to the service under that number, and the
  pushes for that connection go to the sender's address from then on, whether or not a secret
  is configured and whether or not the connection has presented it.
\<close>

lemma datagram_needs_no_auth:
  assumes "gw_sessions gw c = Some a" "service_for_domain (domain_of m) = Some s"
    and "sorts_points (en_sort env)" "cache_ok (gw_disc gw)"
    and "resolve (en_sort env) (en_reg env) (gw_disc gw) (domain_of m) (Some (so_conn_id (gw_objs gw a)))
           (en_clock env 0) (en_clock env (Suc 0)) = (Inr (Some node), dv)"
    and "st_conns (gw_streams gw) (domain_of m, ni_addr node) = Some st" "st_alive (gw_streams gw) st"
  shows "\<exists>gw' es. handle_udp_datagram env gw src (peer_packet c m payload) = (Inr (), gw', es) \<and>
     Forward st \<lparr>fq_conn_id = so_conn_id (gw_objs gw a), fq_seq = 0, fq_msg_id = m, fq_payload = payload\<rparr> \<in> set es \<and>
     so_udp (gw_objs gw' a) = Some src"
proof -
  let ?g0 = "set_obj gw a (bind_udp (gw_objs gw a) src)"
  let ?d = "domain_of m"
  have p: "parse_peer_packet (peer_packet c m payload) = Some (c, m, payload)" by (rule parse_peer_peer)
  have c0: "so_conn_id (gw_objs ?g0 a) = so_conn_id (gw_objs gw a)" by (simp add: set_obj_def bind_udp_def)
  have disc: "gw_disc ?g0 = gw_disc gw" "gw_streams ?g0 = gw_streams gw" by (simp_all add: set_obj_def)
  have rf: "resolve_for env ?g0 ?d (so_conn_id (gw_objs gw a)) 0 = (Inr (Some node), ?g0\<lparr>gw_disc := dv\<rparr>)"
    using assms(5) by (simp add: resolve_for_def disc)
  have ok: "cache_ok dv" using resolve_ok [OF assms(4,3)] assms(5) by (metis snd_conv)
  obtain r g2 es2 where an: "announce env (?g0\<lparr>gw_disc := dv\<rparr>) a ?d node = (r, g2, es2)" by (metis prod_cases3)
  have "r = Inr () \<and> gw_streams g2 = gw_streams gw \<and> so_udp (gw_objs g2 a) = Some src \<and>
      so_conn_id (gw_objs g2 a) = so_conn_id (gw_objs gw a)"
    using an channel_for_ok [OF ok, of "ni_addr node" "en_connect env (ni_addr node)"]
    by (auto simp: announce_def Let_def mark_domain_def set_obj_def bind_udp_def
        split: if_splits prod.splits sum.splits option.splits)
  then have g2: "r = Inr ()" "gw_streams g2 = gw_streams gw" "so_udp (gw_objs g2 a) = Some src"
    "so_conn_id (gw_objs g2 a) = so_conn_id (gw_objs gw a)" by blast+
  have op: "open_stream env g2 ?d node = (Inr (Inr st), g2)"
    using assms(6) g2(2) by (simp add: open_stream_def get_or_open_def)
  have "handle_udp_datagram env gw src (peer_packet c m payload) =
      (Inr (), g2, es2 @ [Forward st \<lparr>fq_conn_id = so_conn_id (gw_objs gw a), fq_seq = 0, fq_msg_id = m,
                                      fq_payload = payload\<rparr>])"
    unfolding handle_udp_datagram_def handle_packet_def p option.case prod.case assms(1)
    unfolding forward_udp_def Let_def assms(2) option.case c0 rf prod.case sum.case an g2(1) op
    using assms(7) g2 by (simp add: stream_send_def)
  then show ?thesis using g2(3) by auto
qed

text \<open>The witness: a connection of a gateway with a secret that never presented it.\<close>

definition unauth_gw :: gateway where
  "unauth_gw = (gateway_new 1 ''pw'' False)
     \<lparr>gw_sessions := [0x01000000 \<mapsto> 0], gw_next_arc := 1, gw_next_conn_id := 1,
      gw_objs := (gw_objs (gateway_new 1 ''pw'' False))(0 := session_new 0x01000000),
      gw_streams := demo_streams\<rparr>"

lemma datagram_needs_no_auth_witness:
  "\<exists>gw' es. handle_udp_datagram demo_env unauth_gw ''evil:7'' (peer_packet 0x01000000 BATTLE_INPUT [9]) = (Inr (), gw', es) \<and>
     Forward 0 \<lparr>fq_conn_id = 0x01000000, fq_seq = 0, fq_msg_id = BATTLE_INPUT, fq_payload = [9]\<rparr> \<in> set es \<and>
     so_udp (gw_objs gw' 0) = Some ''evil:7'' \<and> \<not> so_authed (gw_objs unauth_gw 0) \<and> gw_auth_secret unauth_gw \<noteq> []"
proof -
  have f: "gw_sessions unauth_gw 0x01000000 = Some 0" "gw_objs unauth_gw 0 = session_new 0x01000000"
    "gw_disc unauth_gw = discovery_new" "gw_streams unauth_gw = demo_streams" "gw_auth_secret unauth_gw = ''pw''"
    by (simp_all add: unauth_gw_def gateway_new_def)
  have c: "so_conn_id (session_new 0x01000000) = 0x01000000" "\<not> so_authed (session_new 0x01000000)"
    by (simp_all add: session_new_def)
  have st: "st_conns (gw_streams unauth_gw) (DOMAIN_BATTLE, ni_addr node_a) = Some 0" "st_alive (gw_streams unauth_gw) 0"
    by (simp_all add: f demo_streams_def node_a_def)
  have r: "resolve (en_sort demo_env) (en_reg demo_env) (gw_disc unauth_gw) DOMAIN_BATTLE
      (Some (so_conn_id (gw_objs unauth_gw 0))) (en_clock demo_env 0) (en_clock demo_env (Suc 0)) = (Inr (Some node_a), demo_disc)"
    by (simp add: f c demo_env_def demo_resolve demo_disc_def)
  from datagram_needs_no_auth [OF f(1), of BATTLE_INPUT svc_BATTLE demo_env node_a demo_disc 0 "''evil:7''" "[9]",
      unfolded demo_msg(1)] r st
  show ?thesis by (simp add: demo_msg demo_env_def sorts_points_sort_key cache_ok_new f c)
qed

section \<open>One response\<close>



section \<open>Taking over a connection\<close>

definition resume_request :: "u32 \<Rightarrow> u32 \<Rightarrow> frame" where
  "resume_request seq old = \<lparr>f_ptype = Request, f_msg_id = SYS_RESUME, f_seq = seq, f_payload = be_bytes old\<rparr>"

lemma resume_result:
  assumes "gw_sessions gw old = Some v" "old \<noteq> c"
  shows "\<exists>es. on_frame gw a c (resume_request s old) =
      (Continue, (set_obj gw a (rebind (gw_objs gw a) old))
         \<lparr>gw_sessions := (gw_sessions gw)(old := None, c := None, old \<mapsto> a)\<rparr>, es) \<and>
    (so_open (gw_objs gw v) \<longrightarrow> ToClient v \<lparr>f_ptype = Close, f_msg_id = 0, f_seq = 0, f_payload = string_bytes ''migrated''\<rparr> \<in> set es)"
  using assms
  by (simp add: on_frame_def handle_resume_def resume_request_def Let_def set_obj_def session_send_def)

text \<open>
  A connection number can be taken over: any connection, authenticated or not, that sends a
  resume request with the number of another one becomes that connection: the table and the
  requests it forwards carry the other number, the pushes for that number go to it, and the
  owner is told to close.
\<close>

lemma resume_takes_over:
  assumes "gw_sessions gw old = Some v" "old \<noteq> c" "so_open (gw_objs gw a)" "so_open (gw_objs gw v)"
  shows "\<exists>gw' es. on_frame gw a c (resume_request s old) = (Continue, gw', es) \<and>
     gw_sessions gw' old = Some a \<and> so_conn_id (gw_objs gw' a) = old \<and>
     so_authed (gw_objs gw' a) = so_authed (gw_objs gw a) \<and>
     ToClient v \<lparr>f_ptype = Close, f_msg_id = 0, f_seq = 0, f_payload = string_bytes ''migrated''\<rparr> \<in> set es \<and>
     (\<forall>kcp udp m p. route_push gw' kcp udp \<lparr>pq_conn_id = old, pq_msg_id = m, pq_payload = p, pq_udp = False\<rparr> =
        (True, [ToClient a (push_frame m p)]))"
proof -
  let ?g = "(set_obj gw a (rebind (gw_objs gw a) old))\<lparr>gw_sessions := (gw_sessions gw)(old := None, c := None, old \<mapsto> a)\<rparr>"
  have push: "route_push ?g kcp udp \<lparr>pq_conn_id = old, pq_msg_id = m, pq_payload = p, pq_udp = False\<rparr> =
      (True, [ToClient a (push_frame m p)])" for kcp udp m p
    using assms(3) by (simp add: route_push_def push_msg_def session_send_def set_obj_def rebind_def)
  from resume_result [OF assms(1,2), of a s] assms(4) obtain es where
    es: "on_frame gw a c (resume_request s old) = (Continue, ?g, es)"
      "ToClient v \<lparr>f_ptype = Close, f_msg_id = 0, f_seq = 0, f_payload = string_bytes ''migrated''\<rparr> \<in> set es" by blast
  show ?thesis
    by (intro exI [of _ ?g] exI [of _ es] conjI allI es push) (simp_all add: set_obj_def rebind_def)
qed

lemma demo_gw_fields [simp]:
  "gw_sessions demo_gw = [0x01000000 \<mapsto> 0, 0x01000001 \<mapsto> 1]" "gw_objs demo_gw 0 = session_new 0x01000000"
  "gw_objs demo_gw (Suc 0) = session_new 0x01000001" "gw_auth_secret demo_gw = ''pw''"
  by (simp_all add: demo_gw_def gw_run_def gw_start_def gw_simps demo_conn)

lemma resume_takes_over_witness:
  "\<exists>gw' es. on_frame demo_gw 1 0x01000001 (resume_request 3 0x01000000) = (Continue, gw', es) \<and>
     gw_sessions gw' 0x01000000 = Some 1 \<and> \<not> so_authed (gw_objs gw' 1) \<and> gw_auth_secret demo_gw \<noteq> []"
  using resume_takes_over [of demo_gw "0x01000000" 0 "0x01000001" 1 3] by (auto simp: session_new_def)

text \<open>
  Which events leave the entry of a number alone: all but a kick of it, the end of the grace
  period of a connection that was accepted under it, another resume, and the number's reuse.
\<close>

definition leaves_entry :: "nat \<Rightarrow> u32 \<Rightarrow> u32 \<Rightarrow> gw_event \<Rightarrow> bool" where
  "leaves_entry a c n e = (case e of
     GAccept \<Rightarrow> False | GKick k _ _ \<Rightarrow> k \<noteq> n | GFrame _ _ f \<Rightarrow> f_msg_id f \<noteq> SYS_RESUME
   | GGrace b k \<Rightarrow> b = a \<longrightarrow> k = c | _ \<Rightarrow> True)"

lemma not_resume_sessions:
  assumes "on_frame gw a c f = (x, gw', es)" "f_msg_id f \<noteq> SYS_RESUME"
  shows "gw_sessions gw' = gw_sessions gw"
  using assms
  by (auto simp: on_frame_def handle_bind_session_def handle_auth_def Let_def set_obj_def
      split: ptype.splits if_splits prod.splits)

lemma packet_sessions: "handle_packet env gw src data = (r, gw', es) \<Longrightarrow> gw_sessions gw' = gw_sessions gw"
  by (auto simp: handle_packet_def same_clients_def set_obj_def split: option.splits dest!: forward_udp_same)

lemma notify_sessions: "notify_disconnected env gw d c = (r, gw', es) \<Longrightarrow> gw_sessions gw' = gw_sessions gw"
proof -
  assume n: "notify_disconnected env gw d c = (r, gw', es)"
  obtain q g1 where rf: "resolve_for env gw d c 0 = (q, g1)" by force
  show ?thesis
    using n rf resolve_for_same [OF rf]
    by (auto simp: notify_disconnected_def same_clients_def split: sum.splits option.splits prod.splits)
qed

lemma gw_step_entry:
  assumes "gw_sessions (gs_gw s) n = Some a" "leaves_entry a c n e" "c \<noteq> n"
  shows "gw_sessions (gs_gw (fst (gw_step s e))) n = Some a"
proof (cases e)
  case (GFrame b k f)
  obtain x gw' fs where o: "on_frame (gs_gw s) b k f = (x, gw', fs)" by (metis prod_cases3)
  then show ?thesis using not_resume_sessions [OF o] GFrame assms by (simp add: leaves_entry_def)
next
  case (GStart i env)
  obtain b f where bf: "gs_tasks s ! i = (b, f)" by force
  obtain r gw' fs where fs: "forward_start env (gs_gw s) b f (gs_next_wait s) = (r, gw', fs)" by (metis prod_cases3)
  then show ?thesis
    using GStart bf forward_start_same [OF fs] assms(1) by (simp add: start_task_def same_clients_def)
next
  case (GFinish i r)
  obtain b f w where bf: "gs_waits s ! i = (b, f, w)" by (metis prod_cases3)
  obtain gw' fs where fs: "forward_finish (gs_gw s) b f r = (gw', fs)" by force
  then show ?thesis using GFinish bf forward_finish_same [OF fs] assms(1) by (simp add: same_clients_def)
next
  case (GPacket env src data)
  obtain r gw' fs where o: "handle_packet env (gs_gw s) src data = (r, gw', fs)" by (metis prod_cases3)
  then show ?thesis using packet_sessions [OF o] GPacket assms(1) by simp
next
  case (GNotify env d k)
  obtain r gw' fs where o: "notify_disconnected env (gs_gw s) d k = (r, gw', fs)" by (metis prod_cases3)
  then show ?thesis using notify_sessions [OF o] GNotify assms(1) by simp
next
  case (GKick k r d)
  then show ?thesis using assms by (auto simp: leaves_entry_def grpc_kick_def Let_def split: option.splits)
next
  case (GGrace b k)
  then show ?thesis using assms by (auto simp: leaves_entry_def grace_over_def)
qed (use assms in \<open>auto simp: leaves_entry_def handle_kcp_datagram_def set_obj_def split: option.splits\<close>)

text \<open>
  A resumed connection is not cleaned up: when it ends, the services are told that its first
  number disconnected, not the number it had taken, and no later event but a kick, another
  resume, or the reuse of the number removes its entry, so that pushes for it are still accepted
  for a client that is gone.
\<close>

lemma resumed_session_leaks:
  assumes "gw_sessions (gs_gw s) old = Some v" "old \<noteq> c"
    and "s' = fst (gw_step s (GFrame a c (resume_request q old)))"
    and "\<forall>e\<in>set es. leaves_entry a c old e"
  shows "gw_sessions (gs_gw (gw_run s' es)) old = Some a \<and>
    (\<forall>n\<in>set (close_notices (gs_gw (gw_run s' es)) a c). snd n = c)"
proof
  from resume_result [OF assms(1,2), of a q] obtain fs where
    "on_frame (gs_gw s) a c (resume_request q old) = (Continue, (set_obj (gs_gw s) a (rebind (gw_objs (gs_gw s) a) old))
         \<lparr>gw_sessions := (gw_sessions (gs_gw s))(old := None, c := None, old \<mapsto> a)\<rparr>, fs)" by blast
  then have start: "gw_sessions (gs_gw s') old = Some a" by (simp add: assms(3) set_obj_def)
  show "gw_sessions (gs_gw (gw_run s' es)) old = Some a"
    using assms(4)
  proof (induction es rule: rev_induct)
    case Nil
    then show ?case using start by (simp add: gw_run_def)
  next
    case (snoc e es)
    then show ?case using gw_step_entry [of "gw_run s' es" old a c e] assms(2) by (simp add: gw_run_snoc)
  qed
  show "\<forall>n\<in>set (close_notices (gs_gw (gw_run s' es)) a c). snd n = c"
    by (auto simp: close_notices_def)
qed

lemma resumed_session_leaks_witness:
  "\<exists>s s'. s = gw_run (gw_start 1 ''pw'' False) [GAccept, GAccept] \<and>
     s' = fst (gw_step s (GFrame 1 0x01000001 (resume_request 3 0x01000000))) \<and>
     gw_sessions (gs_gw (gw_run s' [GGone 1, GGrace 1 0x01000001, GGrace 0 0x01000000])) 0x01000000 = Some 1"
proof -
  let ?s = "gw_run (gw_start 1 ''pw'' False) [GAccept, GAccept]"
  have "gw_sessions (gs_gw ?s) 0x01000000 = Some 0" using demo_gw_fields(1) by (simp add: demo_gw_def)
  from resumed_session_leaks [OF this, where c = "0x01000001" and a = 1 and q = 3 and es = "[GGone 1, GGrace 1 0x01000001, GGrace 0 0x01000000]"]
  show ?thesis by (simp add: leaves_entry_def)
qed

section \<open>Duplicated sequence numbers\<close>

lemma by_node_id_pending: "by_node_id env gw d n i = (r, gw') \<Longrightarrow> st_pending (gw_streams gw') = st_pending (gw_streams gw)"
  by (auto simp: by_node_id_def split: prod.splits)

lemma try_matchmake_pending [simp]: "gw_streams (try_matchmake gw d m c t) = gw_streams gw"
  by (simp add: try_matchmake_def split: option.splits)

lemma session_target_pending:
  "session_target_node env gw d a = (r, gw', es) \<Longrightarrow> st_pending (gw_streams gw') = st_pending (gw_streams gw)"
  unfolding session_target_node_def
  by (auto simp: Let_def invalidate_session_def dest: by_node_id_pending split: if_splits option.splits prod.splits)

lemma resolve_for_pending: "resolve_for env gw d c i = (r, gw') \<Longrightarrow> st_pending (gw_streams gw') = st_pending (gw_streams gw)"
  by (auto simp: resolve_for_def split: prod.splits)

lemma pick_node_pending:
  assumes p: "pick_node env gw a f s = (r, gw', es)"
  shows "st_pending (gw_streams gw') = st_pending (gw_streams gw)"
proof -
  let ?d = "domain_of (f_msg_id f)"
  let ?g1 = "try_matchmake gw ?d (f_msg_id f) (so_conn_id (gw_objs gw a)) (en_take env)"
  obtain t g2 es2 where t: "session_target_node env ?g1 ?d a = (t, g2, es2)" by (metis prod_cases3)
  obtain q g3 where q: "resolve_for env g2 ?d (so_conn_id (gw_objs gw a)) 3 = (q, g3)" by force
  show ?thesis
    using p t q session_target_pending [OF t] resolve_for_pending [OF q]
    by (auto simp: pick_node_def Let_def split: option.splits sum.splits)
qed

lemma announce_pending: "announce env gw a d n = (r, gw', es) \<Longrightarrow> st_pending (gw_streams gw') = st_pending (gw_streams gw)"
  unfolding announce_def
  by (auto simp: Let_def set_obj_def split: prod.splits sum.splits option.splits if_splits)

lemma open_stream_pending: "open_stream env gw d n = (r, gw') \<Longrightarrow> st_pending (gw_streams gw') = st_pending (gw_streams gw)"
  by (auto simp: open_stream_def get_or_open_def split: prod.splits sum.splits option.splits)

lemma begin_success:
  assumes "forward_begin env gw a f w = (Inr (Inr ()), gw', es)"
  shows "st_pending (gw_streams gw') = (st_pending (gw_streams gw))((so_conn_id (gw_objs gw a), f_seq f) \<mapsto> w) \<and>
    (\<forall>v. st_pending (gw_streams gw) (so_conn_id (gw_objs gw a), f_seq f) = Some v \<longrightarrow> EndWait v \<in> set es)"
  using assms
proof (rule begin_okE)
  fix s node g1 es1 g2 es2 g3 c
  assume "pick_node env gw a f s = (Inr (Inr node), g1, es1)"
    "announce env g1 a (domain_of (f_msg_id f)) node = (Inr (), g2, es2)"
    "open_stream env g2 (domain_of (f_msg_id f)) node = (Inr (Inr c), g3)"
  then have pend: "st_pending (gw_streams g3) = st_pending (gw_streams gw)"
    using pick_node_pending announce_pending open_stream_pending by metis
  assume "st_pending (gw_streams gw') = (st_pending (gw_streams g3))((so_conn_id (gw_objs gw a), f_seq f) \<mapsto> w)"
    and "es = es1 @ es2 @
       (case st_pending (gw_streams g3) (so_conn_id (gw_objs gw a), f_seq f) of None \<Rightarrow> [] | Some v \<Rightarrow> [EndWait v]) @
       [Forward c \<lparr>fq_conn_id = so_conn_id (gw_objs gw a), fq_seq = f_seq f, fq_msg_id = f_msg_id f, fq_payload = f_payload f\<rparr>]"
  with pend show ?thesis by simp
qed

text \<open>
  Two requests with one sequence number lose each other: when a connection sends a second
  request with the sequence number of one that still waits, the first loses its waiter; as it
  fails it removes the waiter of the second, so that both end with an error and the replies of
  the service are thrown away; and if the connection is bound to a session of that domain, the
  directory entry of the session is deleted.
\<close>

lemma duplicate_seq_fails_both:
  assumes "st_pending (gw_streams gw) (so_conn_id (gw_objs gw a), f_seq f) = Some w1" "f_seq f2 = f_seq f"
    and "forward_begin env gw a f2 w2 = (Inr (Inr ()), gw1, es1)"
    and "forward_finish gw1 a f SenderGone = (gw2, es2)"
  shows "EndWait w1 \<in> set es1 \<and> EndWait w2 \<in> set es2 \<and>
     (\<forall>rep. fr_conn_id rep = so_conn_id (gw_objs gw a) \<and> fr_seq rep = f_seq f \<longrightarrow>
        fst (reply_arrives (gw_streams gw2) rep) = None) \<and>
     (\<forall>sid. gw_has_dir gw1 \<and> gw_conn_session gw1 (so_conn_id (gw_objs gw a)) = Some (domain_of (f_msg_id f), sid) \<longrightarrow>
        DirDelete (domain_of (f_msg_id f)) sid \<in> set es2)"
proof -
  have pend: "st_pending (gw_streams gw1) (so_conn_id (gw_objs gw a), f_seq f) = Some w2" and w1: "EndWait w1 \<in> set es1"
    using begin_success [OF assms(3)] assms(1,2) by auto
  have id: "so_conn_id (gw_objs gw1 a) = so_conn_id (gw_objs gw a)"
    using forward_begin_same [OF assms(3)] by (simp add: same_clients_def)
  obtain e where "forward_fail gw1 a f e = (gw2, es2)"
    using assms(4) by (auto simp: forward_finish_def forward_end_def split: prod.splits)
  then have "EndWait w2 \<in> set es2 \<and> st_pending (gw_streams gw2) (so_conn_id (gw_objs gw a), f_seq f) = None \<and>
     (\<forall>sid. gw_has_dir gw1 \<and> gw_conn_session gw1 (so_conn_id (gw_objs gw a)) = Some (domain_of (f_msg_id f), sid) \<longrightarrow>
        DirDelete (domain_of (f_msg_id f)) sid \<in> set es2)"
    using pend id
    by (auto simp: forward_fail_def invalidate_session_def cancel_pending_def Let_def split: option.splits if_splits prod.splits)
  then show ?thesis using w1 by (auto simp: reply_arrives_def Let_def)
qed

lemma bit_BATTLE: "domain_bit DOMAIN_BATTLE = 4"
  by (simp add: domain_bit_def DOMAIN_BATTLE_def)

text \<open>The next request of the same connection: the node is cached, the domain known, the stream open.\<close>

lemma demo_begin_next:
  assumes "gw_disc gw = demo_disc''" "\<not> gw_has_dir gw" "so_active (gw_objs gw a) = 4"
    and "st_conns (gw_streams gw) (DOMAIN_BATTLE, ''x:1'') = Some 0" "st_alive (gw_streams gw) 0"
  shows "\<exists>gw' es. forward_begin demo_env gw a (demo_request s) w = (Inr (Inr ()), gw', es)"
proof -
  have dom: "domain_of (f_msg_id (demo_request s)) = DOMAIN_BATTLE" by (simp add: demo_request_def demo_msg)
  have "resolve (en_sort demo_env) (en_reg demo_env) (gw_disc gw) DOMAIN_BATTLE (Some k) (en_clock demo_env i) (en_clock demo_env j)
      = (Inr (Some node_a), gw_disc gw)" for k i j
  proof -
    define e where "e = \<lparr>ce_nodes = [node_a], ce_ring = ring_build (sort_key fst) [node_a], ce_fetched_at = 5\<rparr>"
    have "dv_cache demo_disc'' DOMAIN_BATTLE = Some e" "ce_nodes e \<noteq> []" "fresh e (en_clock demo_env i)"
      by (simp_all add: e_def demo_disc''_def demo_disc'_def demo_disc_def fresh_def demo_env_def)
    from resolve_fresh [OF demo_msg(2) this] show ?thesis
      unfolding assms(1) by (simp add: e_def get_nth_def)
  qed
  then have pick: "pick_node demo_env gw a (demo_request s) svc_BATTLE = (Inr (Inr node_a), gw, [])"
    using assms(2) by (simp add: pick_node_def Let_def dom try_matchmake_def session_target_node_def resolve_for_def)
  have "(gw_objs gw a)\<lparr>so_active := 4\<rparr> = gw_objs gw a" using assms(3) by (cases "gw_objs gw a") simp
  then have mark: "mark_domain (gw_objs gw a) DOMAIN_BATTLE = (False, gw_objs gw a)"
    unfolding mark_domain_def Let_def bit_BATTLE assms(3) by simp
  have an: "announce demo_env gw a DOMAIN_BATTLE node_a = (Inr (), set_obj gw a (gw_objs gw a), [])"
    unfolding announce_def Let_def mark by simp
  have same: "set_obj gw a (gw_objs gw a) = gw" by (simp add: set_obj_def)
  have op: "open_stream demo_env gw DOMAIN_BATTLE node_a = (Inr (Inr 0), gw)"
    using assms(4) by (simp add: open_stream_def get_or_open_def node_a_def)
  show ?thesis
    unfolding forward_begin_def Let_def dom demo_msg(2) option.case pick prod.case sum.case an same op
    using assms(5) by (simp add: insert_pending_def stream_send_def split: option.splits)
qed

lemma duplicate_seq_fails_both_witness:
  "\<exists>gw0 gw1 gw2 es0 es1 es2. forward_begin demo_env authed_gw 0 (demo_request 2) 0 = (Inr (Inr ()), gw0, es0) \<and>
     forward_begin demo_env gw0 0 (demo_request 2) 1 = (Inr (Inr ()), gw1, es1) \<and>
     forward_finish gw1 0 (demo_request 2) SenderGone = (gw2, es2) \<and> EndWait 0 \<in> set es1 \<and> EndWait 1 \<in> set es2"
proof -
  let ?g0 = "(set_obj authed_gw 0 (snd (mark_domain (gw_objs authed_gw 0) DOMAIN_BATTLE)))
        \<lparr>gw_disc := demo_disc'', gw_streams := snd (insert_pending demo_streams (so_conn_id (gw_objs authed_gw 0), 2) 0)\<rparr>"
  have active: "so_active (gw_objs authed_gw 0) = 0" by (simp add: session_new_def)
  from demo_begin [OF authed_gw_fields(1-2) active authed_gw_fields(3), of 2 0] obtain es0 where
    b0: "forward_begin demo_env authed_gw 0 (demo_request 2) 0 = (Inr (Inr ()), ?g0, es0)" by blast
  have seq: "f_seq (demo_request 2) = 2" by (simp add: demo_request_def)
  have pend: "st_pending (gw_streams ?g0) (so_conn_id (gw_objs ?g0 0), f_seq (demo_request 2)) = Some 0"
    by (simp add: insert_pending_def set_obj_def mark_domain_def seq)
  have "\<exists>gw1 es1. forward_begin demo_env ?g0 0 (demo_request 2) 1 = (Inr (Inr ()), gw1, es1)"
    by (rule demo_begin_next) (simp_all add: set_obj_def mark_domain_def insert_pending_def demo_streams_def session_new_def
        bit_BATTLE)
  then obtain gw1 es1 where b1: "forward_begin demo_env ?g0 0 (demo_request 2) 1 = (Inr (Inr ()), gw1, es1)" by blast
  obtain gw2 es2 where f: "forward_finish gw1 0 (demo_request 2) SenderGone = (gw2, es2)" by force
  from duplicate_seq_fails_both [OF pend refl b1 f] b0 b1 f show ?thesis by blast
qed

end
