(* ===== verification/Gateway_Routing.thy ===== *)
theory Gateway_Routing
  imports Gateway_Props
begin

text \<open>
  Which nodes learn of a connection.  A request announces the connection to the domain it goes to,
  and the end of the connection notifies every announced domain (\<open>notices_complete\<close>); the requests
  of a bound session go to the node that hosts it (\<open>bound_requests_reach_host\<close>).
\<close>

section \<open>The parts of a start that succeeds\<close>

lemma begin_tables:
  assumes "forward_begin env gw a f w = (Inr (Inr ()), gw', es)"
    and "service_for_domain (domain_of (f_msg_id f)) = Some s"
    and "pick_node env gw a f s = (Inr (Inr node), g1, es1)"
    and "announce env g1 a (domain_of (f_msg_id f)) node = (Inr (), g2, es2)"
    and "open_stream env g2 (domain_of (f_msg_id f)) node = (Inr (Inr c), g3)"
  shows "gw_objs gw' = gw_objs g3" "st_conns (gw_streams gw') = st_conns (gw_streams g3)"
  using assms by (auto simp: forward_begin_def Let_def insert_pending_def split: sum.splits option.splits)

lemma open_stream_entry:
  "open_stream env gw d node = (Inr (Inr c), gw') \<Longrightarrow> st_conns (gw_streams gw') (d, ni_addr node) = Some c"
  by (auto simp: open_stream_def get_or_open_def split: option.splits prod.splits sum.splits)

lemma announce_marks:
  assumes "announce env gw a d node = (r, gw', es)"
  shows "bit (so_active (gw_objs gw' a)) k = (bit (so_active (gw_objs gw a)) k \<or> bit (domain_bit d) k)"
  using assms unfolding announce_def
  by (auto simp: Let_def mark_domain_def set_obj_def bit_or_iff split: prod.splits sum.splits option.splits if_splits)

lemma target_quiet: "session_target_node env gw d a = (r, gw', es) \<Longrightarrow> \<not> forwards es"
  unfolding session_target_node_def
  by (auto simp: Let_def invalidate_session_def split: if_splits option.splits prod.splits)

lemma pick_quiet: "pick_node env gw a f s = (r, gw', es) \<Longrightarrow> \<not> forwards es"
  unfolding pick_node_def
  by (auto simp: Let_def dest: target_quiet split: option.splits sum.splits prod.splits)

lemma announce_quiet: "announce env gw a d n = (r, gw', es) \<Longrightarrow> \<not> forwards es"
  unfolding announce_def by (auto simp: Let_def split: prod.splits sum.splits option.splits if_splits)

lemma begin_fails_quiet:
  assumes "forward_begin env gw a f w = (r, gw', es)" "r \<noteq> Inr (Inr ())"
  shows "\<not> forwards es"
proof (cases "service_for_domain (domain_of (f_msg_id f))")
  case None
  then show ?thesis using assms by (simp add: forward_begin_def)
next
  case (Some s)
  let ?d = "domain_of (f_msg_id f)"
  obtain r1 g1 es1 where p: "pick_node env gw a f s = (r1, g1, es1)" by (metis prod_cases3)
  note q1 = pick_quiet [OF p]
  show ?thesis
  proof (cases "\<exists>node. r1 = Inr (Inr node)")
    case False
    then consider q where "r1 = Inl q" | e where "r1 = Inr (Inl e)" by (metis old.sum.exhaust)
    then have "es = es1" using assms Some p by cases (simp_all add: forward_begin_def)
    with q1 show ?thesis by simp
  next
    case True
    then obtain node where r1: "r1 = Inr (Inr node)" by blast
    obtain r2 g2 es2 where an: "announce env g1 a ?d node = (r2, g2, es2)" by (metis prod_cases3)
    obtain r3 g3 where os: "open_stream env g2 ?d node = (r3, g3)" by force
    show ?thesis
      using assms Some p r1 an os q1 announce_quiet [OF an]
      by (auto simp: forward_begin_def Let_def split: sum.splits option.splits)
  qed
qed

lemma forward_start_forwards:
  assumes "forward_start env gw a f w = (r, gw', es)" "forwards es"
  shows "r = Inr True" "forward_begin env gw a f w = (Inr (Inr ()), gw', es)"
proof (atomize (full), goal_cases)
  case 1
  obtain r1 g1 es1 where b: "forward_begin env gw a f w = (r1, g1, es1)" by (metis prod_cases3)
  note quiet = begin_fails_quiet [OF b]
  consider p where "r1 = Inl p" | "r1 = Inr (Inr ())" | e where "r1 = Inr (Inl e)"
    by (metis old.sum.exhaust old.unit.exhaust)
  then show ?case
  proof cases
    case 3
    then show ?thesis
      using assms b quiet fail_not_forwards [of g1 a f e] by (auto simp: forward_start_def split: prod.splits)
  qed (use assms b quiet in \<open>auto simp: forward_start_def\<close>)
qed

lemma begin_ok_forwards:
  assumes "forward_begin env gw a f w = (Inr (Inr ()), gw', es)"
  shows "\<exists>c q. Forward c q \<in> set es"
  using assms by (rule begin_okE) auto

section \<open>Announced domains\<close>

definition resumes :: "nat \<Rightarrow> gw_event \<Rightarrow> bool" where
  "resumes a e = (case e of GFrame b c f \<Rightarrow> b = a \<and> f_ptype f = Request \<and> f_msg_id f = SYS_RESUME | _ \<Rightarrow> False)"

text \<open>The marks of connection \<open>a\<close> only grow.\<close>

definition keeps_marks :: "nat \<Rightarrow> gateway \<Rightarrow> gateway \<Rightarrow> bool" where
  "keeps_marks a gw gw' \<longleftrightarrow> gw_next_arc gw \<le> gw_next_arc gw' \<and>
     (\<forall>k. bit (so_active (gw_objs gw a)) k \<longrightarrow> bit (so_active (gw_objs gw' a)) k)"

lemma same_keeps_marks: "same_clients gw gw' \<Longrightarrow> keeps_marks a gw gw'"
  by (simp add: same_clients_def keeps_marks_def)

lemma marks_refl [simp]: "keeps_marks a gw gw"
  by (simp add: keeps_marks_def)

lemma marks_set_obj: "so_active s = so_active (gw_objs gw b) \<Longrightarrow> keeps_marks a gw (set_obj gw b s)"
  by (simp add: keeps_marks_def set_obj_def)

lemma marks_trans: "keeps_marks a g1 g2 \<Longrightarrow> keeps_marks a g2 g3 \<Longrightarrow> keeps_marks a g1 g3"
  by (auto simp: keeps_marks_def)

lemma accept_marks: "accept_session gw = (ac, gw', es) \<Longrightarrow> a < gw_next_arc gw \<Longrightarrow> keeps_marks a gw gw'"
  by (auto simp: accept_session_def Let_def keeps_marks_def split: if_splits)

lemma on_frame_marks:
  assumes "on_frame gw b c f = (n, gw', es)" "\<not> resumes a (GFrame b c f)"
  shows "keeps_marks a gw gw'"
proof -
  consider "f_ptype f \<noteq> Request" | "f_ptype f = Request" "f_msg_id f = SYS_RESUME" "b \<noteq> a"
    | "f_ptype f = Request" "f_msg_id f = SYS_BIND_SESSION" | "f_ptype f = Request" "f_msg_id f = SYS_AUTH"
    | "f_ptype f = Request" "f_msg_id f \<notin> {SYS_RESUME, SYS_BIND_SESSION, SYS_AUTH}"
    using assms(2) by (auto simp: resumes_def)
  then show ?thesis
  proof cases
    case 1
    then have "gw' = gw" using assms(1) by (auto simp: on_frame_def split: ptype.splits prod.splits if_splits)
    then show ?thesis by simp
  next
    case 2
    then have "handle_resume gw b c f = (gw', es)" using assms(1) by (auto simp: on_frame_def)
    with \<open>b \<noteq> a\<close> show ?thesis
      by (auto simp: handle_resume_def Let_def keeps_marks_def set_obj_def split: if_splits option.splits)
  next
    case 3
    then have "handle_bind_session gw b f = (gw', es)" using assms(1) by (auto simp: on_frame_def sys_defs)
    then show ?thesis by (auto simp: handle_bind_session_def Let_def keeps_marks_def split: if_splits)
  next
    case 4
    then have "handle_auth gw b f = (gw', es)" using assms(1) by (auto simp: on_frame_def sys_defs)
    then show ?thesis by (auto simp: handle_auth_def Let_def set_authed_def intro: marks_set_obj)
  next
    case 5
    then show ?thesis using assms by (auto simp: on_frame_def split: if_splits)
  qed
qed

lemma packet_marks: "handle_packet env gw src data = (r, gw', es) \<Longrightarrow> keeps_marks a gw gw'"
proof -
  assume p: "handle_packet env gw src data = (r, gw', es)"
  consider "gw' = gw" | c m d b where "parse_peer_packet data = Some (c, m, d)" "gw_sessions gw c = Some b"
    using p by (auto simp: handle_packet_def split: option.splits)
  then show ?thesis
  proof cases
    case 2
    let ?g = "set_obj gw b (bind_udp (gw_objs gw b) src)"
    have "forward_udp env ?g b m d = (r, gw', es)" using p 2 by (simp add: handle_packet_def)
    then have "keeps_marks a ?g gw'" using forward_udp_same same_keeps_marks by blast
    moreover have "keeps_marks a gw ?g" by (rule marks_set_obj) (simp add: bind_udp_def)
    ultimately show ?thesis using marks_trans by blast
  qed simp
qed

lemma notify_marks: "notify_disconnected env gw d c = (r, gw', es) \<Longrightarrow> keeps_marks a gw gw'"
proof -
  assume n: "notify_disconnected env gw d c = (r, gw', es)"
  obtain q g1 where rf: "resolve_for env gw d c 0 = (q, g1)" by force
  have "keeps_marks a gw g1" using resolve_for_same [OF rf] by (rule same_keeps_marks)
  then show ?thesis
    using n rf by (auto simp: notify_disconnected_def keeps_marks_def split: sum.splits option.splits prod.splits)
qed

lemma gw_step_marks:
  assumes "a < gw_next_arc (gs_gw s)" "\<not> resumes a e"
  shows "keeps_marks a (gs_gw s) (gs_gw (fst (gw_step s e)))"
proof (cases e)
  case GAccept
  obtain ac gw' fs where "accept_session (gs_gw s) = (ac, gw', fs)" by (metis prod_cases3)
  with accept_marks [OF this] assms GAccept show ?thesis by simp
next
  case (GFrame b c f)
  obtain n gw' fs where "on_frame (gs_gw s) b c f = (n, gw', fs)" by (metis prod_cases3)
  with on_frame_marks [OF this] assms GFrame show ?thesis by simp
next
  case (GStart i env)
  obtain b f where bf: "gs_tasks s ! i = (b, f)" by force
  obtain r gw' fs where fs: "forward_start env (gs_gw s) b f (gs_next_wait s) = (r, gw', fs)" by (metis prod_cases3)
  with same_keeps_marks [OF forward_start_same [OF fs]] GStart bf show ?thesis by (simp add: start_task_def)
next
  case (GFinish i r)
  obtain b f w where bf: "gs_waits s ! i = (b, f, w)" by (metis prod_cases3)
  obtain gw' fs where fs: "forward_finish (gs_gw s) b f r = (gw', fs)" by force
  with same_keeps_marks [OF forward_finish_same [OF fs]] GFinish bf show ?thesis by simp
next
  case (GPacket env src data)
  obtain r gw' fs where "handle_packet env (gs_gw s) src data = (r, gw', fs)" by (metis prod_cases3)
  with packet_marks [OF this] GPacket show ?thesis by simp
next
  case (GNotify env d c)
  obtain r gw' fs where "notify_disconnected env (gs_gw s) d c = (r, gw', fs)" by (metis prod_cases3)
  with notify_marks [OF this] GNotify show ?thesis by simp
next
  case (GKick c r d)
  then show ?thesis by (auto simp: grpc_kick_def keeps_marks_def Let_def split: option.splits)
next
  case (GGone b)
  then show ?thesis by (auto intro: marks_set_obj)
qed (auto simp: keeps_marks_def handle_kcp_datagram_def grace_over_def split: option.splits)

lemma gw_run_marks:
  assumes "a < gw_next_arc (gs_gw s)" "\<forall>e\<in>set es. \<not> resumes a e"
  shows "keeps_marks a (gs_gw s) (gs_gw (gw_run s es))"
  using assms(2)
proof (induction es rule: rev_induct)
  case Nil
  then show ?case by (simp add: gw_run_def)
next
  case (snoc e es)
  then have ih: "keeps_marks a (gs_gw s) (gs_gw (gw_run s es))" by simp
  then have "a < gw_next_arc (gs_gw (gw_run s es))" using assms(1) by (simp add: keeps_marks_def)
  with gw_step_marks [OF this, of e] ih snoc.prems show ?case by (simp add: gw_run_snoc marks_trans)
qed

text \<open>A marked game domain is among the domains of the session.\<close>

lemma push_bit_and_one: "(x AND push_bit k 1 \<noteq> (0 :: u32)) = (bit x k \<and> k < 32)"
proof -
  have "x AND push_bit k 1 = (if bit x k \<and> k < 32 then push_bit k 1 else 0)"
    by (rule bit_eqI) (auto simp: bit_and_iff bit_push_bit_iff bit_1_iff simp del: push_bit_of_1)
  moreover have "push_bit k (1 :: u32) \<noteq> 0" if "k < 32"
  proof -
    have "bit (push_bit k (1 :: u32)) k" using that by (simp add: bit_push_bit_iff del: push_bit_of_1)
    then show ?thesis by (auto simp del: push_bit_of_1)
  qed
  ultimately show ?thesis by auto
qed

lemma domain_bits:
  "domain_bit DOMAIN_ROOM = push_bit 1 1" "domain_bit DOMAIN_BATTLE = push_bit 2 1" "domain_bit DOMAIN_CARD = push_bit 3 1"
  by (simp_all add: domain_bit_def domain_defs)

lemma known_domains:
  "service_for_domain d = Some s \<Longrightarrow> d = DOMAIN_ROOM \<or> d = DOMAIN_BATTLE \<or> d = DOMAIN_CARD"
  by (auto simp: service_for_domain_def split: if_splits)

lemma marked_domain_listed:
  assumes "service_for_domain d = Some s" "\<And>k. bit (domain_bit d) k \<Longrightarrow> bit (so_active s') k"
  shows "d \<in> set (session_domains s')"
proof -
  obtain k where k: "d = push_bit 24 (word_of_nat k)" "k \<in> {1, 2, 3}" "domain_bit d = push_bit k 1"
    using known_domains [OF assms(1)] domain_bits that [of 1] that [of 2] that [of 3] by (auto simp: domain_defs)
  then have "bit (domain_bit d) k" by (auto simp: bit_push_bit_iff simp del: push_bit_of_1)
  then have "so_active s' AND push_bit k 1 \<noteq> 0"
    using assms(2) k(2) unfolding push_bit_and_one by auto
  then show ?thesis using k(1,2) by (auto simp: session_domains_def simp del: push_bit_of_1)
qed

text \<open>
  C19: No service is forgotten: once a request of a connection has been forwarded to a game domain,
  whatever the gateway does after it, the end of the connection notifies that domain, unless the
  connection resumes another number (which clears its marks).
\<close>

theorem notices_complete:
  assumes "i < length (gs_tasks s)" "gs_tasks s ! i = (a, f)" "a < gw_next_arc (gs_gw s)"
    and "forwards (snd (gw_step s (GStart i env)))"
    and "\<forall>e\<in>set es. \<not> resumes a e"
  shows "(domain_of (f_msg_id f), c)
    \<in> set (close_notices (gs_gw (gw_run (fst (gw_step s (GStart i env))) es)) a c)"
proof -
  let ?d = "domain_of (f_msg_id f)" and ?s' = "fst (gw_step s (GStart i env))"
  obtain r gw' fs where fs: "forward_start env (gs_gw s) a f (gs_next_wait s) = (r, gw', fs)" by (metis prod_cases3)
  have s': "gs_gw ?s' = gw'" "forwards fs" using assms(1,2,4) fs by (simp_all add: start_task_def)
  note b = forward_start_forwards(2) [OF fs s'(2)]
  from b obtain sv node g1 es1 g2 es2 g3 ch where
    sv: "service_for_domain ?d = Some sv" and p: "pick_node env (gs_gw s) a f sv = (Inr (Inr node), g1, es1)"
    and an: "announce env g1 a ?d node = (Inr (), g2, es2)" and os: "open_stream env g2 ?d node = (Inr (Inr ch), g3)"
    by (rule begin_okE)
  have "bit (so_active (gw_objs gw' a)) k" if "bit (domain_bit ?d) k" for k
    using that announce_marks [OF an] open_stream_same [OF os] begin_tables(1) [OF b sv p an os]
    by (simp add: same_clients_def)
  moreover have "keeps_marks a gw' (gs_gw (gw_run ?s' es))"
    using gw_run_marks [OF _ assms(5), of ?s'] s'(1) assms(3) forward_start_same [OF fs]
    by (simp add: same_clients_def)
  ultimately have "?d \<in> set (session_domains (gw_objs (gs_gw (gw_run ?s' es)) a))"
    by (intro marked_domain_listed [OF sv]) (auto simp: keeps_marks_def)
  then show ?thesis by (simp add: close_notices_def)
qed

section \<open>Bound sessions\<close>

text \<open>The host of a bound session as the gateway knows it: its cached entry while that is valid, or the directory's.\<close>

definition known_host :: "gw_env \<Rightarrow> gateway \<Rightarrow> u32 \<Rightarrow> u32 \<Rightarrow> string option" where
  "known_host env gw domain sid =
     (case gw_session_cache gw (domain, sid) of
        Some (node_id, until) \<Rightarrow> if en_clock env 0 < until then Some node_id else en_lookup env
      | None \<Rightarrow> en_lookup env)"

lemma target_is_host:
  assumes "gw_has_dir gw" "gw_conn_session gw (so_conn_id (gw_objs gw a)) = Some (d, sid)"
    and "known_host env gw d sid = Some h" "by_node_id env gw d h 1 = (Some n, gw1)"
  shows "fst (session_target_node env gw d a) = Some n"
  using assms unfolding session_target_node_def known_host_def
  by (auto simp: Let_def split: option.splits prod.splits if_splits)

lemma by_node_id_named: "by_node_id env gw d h i = (Some n, gw') \<Longrightarrow> ni_node_id n = h"
  by (auto simp: by_node_id_def resolve_by_node_id_def dest: find_SomeD split: prod.splits option.splits)

text \<open>
  C18: The requests of a bound session go to its host: when the connection is bound to a session of
  the request's domain, and the node that hosts it (by a valid cache entry, or else by the
  directory) is among the registered nodes, a forwarded request goes out on the bridge stream of
  exactly that node, under the connection's number.
\<close>

theorem bound_requests_reach_host:
  assumes "gw_has_dir gw" "gw_conn_session gw (so_conn_id (gw_objs gw a)) = Some (domain_of (f_msg_id f), sid)"
    and "known_host env gw (domain_of (f_msg_id f)) sid = Some h"
    and "fst (by_node_id env gw (domain_of (f_msg_id f)) h 1) = Some n"
    and "forward_start env gw a f w = (r, gw', es)" "Forward c q \<in> set es"
  shows "ni_node_id n = h \<and> st_conns (gw_streams gw') (domain_of (f_msg_id f), ni_addr n) = Some c \<and>
    fq_conn_id q = so_conn_id (gw_objs gw a)"
proof -
  let ?d = "domain_of (f_msg_id f)"
  obtain gw1 where n: "by_node_id env gw ?d h 1 = (Some n, gw1)" using assms(4) by (cases "by_node_id env gw ?d h 1") auto
  have "forwards es" using assms(6) by (auto simp: forwards_def)
  note b = forward_start_forwards(2) [OF assms(5) this]
  from b obtain sv node g1 es1 g2 es2 g3 ch where
    sv: "service_for_domain ?d = Some sv" and p: "pick_node env gw a f sv = (Inr (Inr node), g1, es1)"
    and an: "announce env g1 a ?d node = (Inr (), g2, es2)" and os: "open_stream env g2 ?d node = (Inr (Inr ch), g3)"
    and es: "es = es1 @ es2 @
       (case st_pending (gw_streams g3) (so_conn_id (gw_objs gw a), f_seq f) of None \<Rightarrow> [] | Some v \<Rightarrow> [EndWait v]) @
       [Forward ch \<lparr>fq_conn_id = so_conn_id (gw_objs gw a), fq_seq = f_seq f, fq_msg_id = f_msg_id f, fq_payload = f_payload f\<rparr>]"
    by (rule begin_okE)
  have "try_matchmake gw ?d (f_msg_id f) (so_conn_id (gw_objs gw a)) (en_take env) = gw"
    using assms(2) by (simp add: try_matchmake_def)
  then have "node = n"
    using p target_is_host [OF assms(1,2,3) n] by (auto simp: pick_node_def Let_def split: prod.splits option.splits)
  moreover have "c = ch \<and> fq_conn_id q = so_conn_id (gw_objs gw a)"
    using assms(6) pick_quiet [OF p] announce_quiet [OF an] unfolding es by (auto simp: forwards_def split: option.splits)
  ultimately show ?thesis
    using open_stream_entry [OF os] begin_tables(2) [OF b sv p an os] by_node_id_named [OF n] by simp
qed

lemma udp_forward_to_ring:
  assumes "forward_udp env gw a m p = (r, gw', es)" "Forward c q \<in> set es"
    and "resolve_for env gw (domain_of m) (so_conn_id (gw_objs gw a)) 0 = (Inr (Some node), g)"
  shows "st_conns (gw_streams gw') (domain_of m, ni_addr node) = Some c"
proof -
  obtain r2 g2 es2 where an: "announce env g a (domain_of m) node = (r2, g2, es2)" by (metis prod_cases3)
  obtain r3 g3 where os: "open_stream env g2 (domain_of m) node = (r3, g3)" by force
  have "gw' = g3 \<and> r3 = Inr (Inr c)"
    using assms an os announce_quiet [OF an]
    by (auto simp: forward_udp_def Let_def forwards_def split: option.splits sum.splits)
  then show ?thesis using open_stream_entry os by blast
qed

lemma notice_to_ring:
  assumes "notify_disconnected env gw d k = (r, gw', es)" "NotifyDisconnected addr k' \<in> set es"
    and "resolve_for env gw d k 0 = (Inr (Some node), g)"
  shows "addr = ni_addr node"
  using assms by (auto simp: notify_disconnected_def split: prod.splits sum.splits option.splits)

text \<open>
  C38: The binding of a session is forgotten by datagrams and by the end of the connection: while
  the requests of a bound connection go to the host of its session, its datagrams go out on the
  stream of the node that the ring gives, and so does the notice that it has disconnected; when
  that is another node, the host gets neither, and keeps the player.
\<close>

theorem bound_host_misses_datagrams:
  assumes "gw_has_dir gw" "gw_conn_session gw (so_conn_id (gw_objs gw a)) = Some (domain_of (f_msg_id f), sid)"
    and "known_host env gw (domain_of (f_msg_id f)) sid = Some h"
    and "fst (by_node_id env gw (domain_of (f_msg_id f)) h 1) = Some n"
    and "forward_start env gw a f w = (Inr True, gw', es)"
    and "fst (resolve_for env' gw' (domain_of (f_msg_id f)) (so_conn_id (gw_objs gw a)) 0) = Inr (Some m)"
    and "ni_addr m \<noteq> ni_addr n"
  shows "(\<exists>c q. Forward c q \<in> set es \<and> st_conns (gw_streams gw') (domain_of (f_msg_id f), ni_addr n) = Some c) \<and>
    (\<forall>msg p r2 gw2 es2 c2 q2. domain_of msg = domain_of (f_msg_id f) \<longrightarrow> forward_udp env' gw' a msg p = (r2, gw2, es2) \<longrightarrow>
       Forward c2 q2 \<in> set es2 \<longrightarrow> st_conns (gw_streams gw2) (domain_of (f_msg_id f), ni_addr m) = Some c2) \<and>
    (\<forall>r3 gw3 es3 k. notify_disconnected env' gw' (domain_of (f_msg_id f)) (so_conn_id (gw_objs gw a)) = (r3, gw3, es3) \<longrightarrow>
       NotifyDisconnected (ni_addr n) k \<notin> set es3)"
proof (intro conjI allI impI)
  let ?d = "domain_of (f_msg_id f)"
  obtain gw1 where n: "by_node_id env gw ?d h 1 = (Some n, gw1)" using assms(4) by (cases "by_node_id env gw ?d h 1") auto
  obtain g where m: "resolve_for env' gw' ?d (so_conn_id (gw_objs gw a)) 0 = (Inr (Some m), g)"
    using assms(6) by (cases "resolve_for env' gw' ?d (so_conn_id (gw_objs gw a)) 0") auto
  have b: "forward_begin env gw a f w = (Inr (Inr ()), gw', es)"
    using assms(5) by (auto simp: forward_start_def split: prod.splits sum.splits)
  from b obtain sv node g1 es1 g2 es2 g3 c where
    sv: "service_for_domain ?d = Some sv" and p: "pick_node env gw a f sv = (Inr (Inr node), g1, es1)"
    and an: "announce env g1 a ?d node = (Inr (), g2, es2)" and os: "open_stream env g2 ?d node = (Inr (Inr c), g3)"
    and es: "es = es1 @ es2 @
       (case st_pending (gw_streams g3) (so_conn_id (gw_objs gw a), f_seq f) of None \<Rightarrow> [] | Some v \<Rightarrow> [EndWait v]) @
       [Forward c \<lparr>fq_conn_id = so_conn_id (gw_objs gw a), fq_seq = f_seq f, fq_msg_id = f_msg_id f, fq_payload = f_payload f\<rparr>]"
    by (rule begin_okE)
  have "node = n"
    using p target_is_host [OF assms(1,2,3) n] assms(2)
    by (auto simp: pick_node_def try_matchmake_def Let_def split: prod.splits option.splits)
  with es open_stream_entry [OF os] begin_tables(2) [OF b sv p an os]
  show "\<exists>c q. Forward c q \<in> set es \<and> st_conns (gw_streams gw') (?d, ni_addr n) = Some c" by auto
  have id: "so_conn_id (gw_objs gw' a) = so_conn_id (gw_objs gw a)"
    using forward_begin_same [OF b] by (simp add: same_clients_def)
  fix msg p' r2 gw2 es2' c2 q2
  assume "domain_of msg = ?d" "forward_udp env' gw' a msg p' = (r2, gw2, es2')" "Forward c2 q2 \<in> set es2'"
  with udp_forward_to_ring [of env' gw' a msg p' r2 gw2 es2' c2 q2 m g] m id
  show "st_conns (gw_streams gw2) (?d, ni_addr m) = Some c2" by simp
next
  let ?d = "domain_of (f_msg_id f)"
  fix r3 gw3 es3 k
  assume nt: "notify_disconnected env' gw' ?d (so_conn_id (gw_objs gw a)) = (r3, gw3, es3)"
  obtain g where m: "resolve_for env' gw' ?d (so_conn_id (gw_objs gw a)) 0 = (Inr (Some m), g)"
    using assms(6) by (cases "resolve_for env' gw' ?d (so_conn_id (gw_objs gw a)) 0") auto
  show "NotifyDisconnected (ni_addr n) k \<notin> set es3" using notice_to_ring [OF nt _ m, of "ni_addr n" k] assms(7) by auto
qed

section \<open>Two nodes\<close>

text \<open>A connection that is bound to battle 7; \<open>bound_env n\<close> is a directory that says that node \<open>n\<close> hosts it.\<close>

definition bound_gw :: gateway where
  "bound_gw = (gateway_new 1 [] True)
     \<lparr>gw_sessions := [0x01000000 \<mapsto> 0], gw_next_arc := 1, gw_next_conn_id := 1,
      gw_objs := (gw_objs (gateway_new 1 [] True))(0 := session_new 0x01000000),
      gw_conn_session := [0x01000000 \<mapsto> (DOMAIN_BATTLE, 7)]\<rparr>"

definition bound_env :: "node_info \<Rightarrow> gw_env" where
  "bound_env n = \<lparr>en_sort = sort_key fst, en_reg = (\<lambda>_. Some [node_a, node_b]), en_clock = (\<lambda>_. 5), en_take = None,
     en_lookup = Some (ni_node_id n), en_connect = (\<lambda>_ _. Some ''ch''), en_refused = None\<rparr>"

definition two_entry :: cache_entry where
  "two_entry = \<lparr>ce_nodes = [node_a, node_b], ce_ring = ring_build (sort_key fst) [node_a, node_b], ce_fetched_at = 5\<rparr>"

lemma bound_gw_fields [simp]:
  "gw_has_dir bound_gw" "gw_conn_session bound_gw 0x01000000 = Some (DOMAIN_BATTLE, 7)"
  "gw_session_cache bound_gw = Map.empty" "gw_disc bound_gw = discovery_new" "gw_streams bound_gw = streams_new"
  "gw_objs bound_gw 0 = session_new 0x01000000"
  by (simp_all add: bound_gw_def gateway_new_def)

lemma bound_host:
  assumes "n \<in> {node_a, node_b}"
  shows "by_node_id (bound_env n) bound_gw DOMAIN_BATTLE (ni_node_id n) 1 =
    (Some n, bound_gw\<lparr>gw_disc := discovery_new\<lparr>dv_cache := [DOMAIN_BATTLE \<mapsto> two_entry]\<rparr>\<rparr>)"
  using assms
  by (auto simp: by_node_id_def resolve_by_node_id_def demo_msg cached_def need_fetch_def discovery_new_def fetch_def
      bound_env_def two_entry_def node_a_def node_b_def)

definition bound_disc :: "string discovery" where
  "bound_disc = discovery_new\<lparr>dv_cache := [DOMAIN_BATTLE \<mapsto> two_entry]\<rparr>"

lemma bound_channel:
  "channel_for bound_disc addr (\<lambda>_. Some ''ch'') =
    (Inr (Some ''ch''), bound_disc\<lparr>dv_rr := 1, dv_channels := [addr \<mapsto> [''ch'', ''ch'', ''ch'', ''ch'']]\<rparr>)"
  "channel_for (bound_disc\<lparr>dv_rr := 1, dv_channels := [addr \<mapsto> [''ch'', ''ch'', ''ch'', ''ch'']]\<rparr>) addr (\<lambda>_. Some ''ch'') =
    (Inr (Some ''ch''), bound_disc\<lparr>dv_rr := 2, dv_channels := [addr \<mapsto> [''ch'', ''ch'', ''ch'', ''ch'']]\<rparr>)"
  by (simp_all add: channel_for_def bound_disc_def discovery_new_def upt_pool rr_next_def get_nth_def)

lemma bound_begin:
  assumes "n \<in> {node_a, node_b}"
  shows "\<exists>gw' es. forward_start (bound_env n) bound_gw 0 (demo_request 2) 0 = (Inr True, gw', es) \<and>
    dv_cache (gw_disc gw') = [DOMAIN_BATTLE \<mapsto> two_entry]"
proof -
  let ?env = "bound_env n"
  let ?g1 = "bound_gw\<lparr>gw_disc := bound_disc, gw_session_cache := [(DOMAIN_BATTLE, 7) \<mapsto> (ni_node_id n, 5 + SESSION_CACHE_NS)]\<rparr>"
  have dom: "domain_of (f_msg_id (demo_request 2)) = DOMAIN_BATTLE" by (simp add: demo_request_def demo_msg)
  have pick: "pick_node ?env bound_gw 0 (demo_request 2) svc_BATTLE = (Inr (Inr n), ?g1, [])"
    using bound_host [OF assms]
    by (simp add: pick_node_def dom try_matchmake_def session_target_node_def session_new_def bound_disc_def Let_def)
      (simp add: bound_env_def)
  obtain g2 es2 where an: "announce ?env ?g1 0 DOMAIN_BATTLE n = (Inr (), g2, es2)" "gw_streams g2 = streams_new"
    "gw_disc g2 = bound_disc\<lparr>dv_rr := 1, dv_channels := [ni_addr n \<mapsto> [''ch'', ''ch'', ''ch'', ''ch'']]\<rparr>"
    using bound_channel(1) [of "ni_addr n"]
    by (auto simp: announce_def mark_domain_def session_new_def set_obj_def bound_env_def Let_def)
  obtain g3 where os: "open_stream ?env g2 DOMAIN_BATTLE n = (Inr (Inr 0), g3)" "st_alive (gw_streams g3) 0"
    "dv_cache (gw_disc g3) = [DOMAIN_BATTLE \<mapsto> two_entry]"
    using bound_channel(2) [of "ni_addr n"] an(2,3)
    by (auto simp: open_stream_def get_or_open_def streams_new_def bound_env_def bound_disc_def)
  have "\<exists>gw' es. forward_begin ?env bound_gw 0 (demo_request 2) 0 = (Inr (Inr ()), gw', es) \<and>
      dv_cache (gw_disc gw') = [DOMAIN_BATTLE \<mapsto> two_entry]"
    unfolding forward_begin_def Let_def dom demo_msg(2) option.case pick prod.case sum.case an(1) os(1)
    using os(2,3) by (simp add: insert_pending_def stream_send_def)
  then show ?thesis by (auto simp: forward_start_def)
qed

theorem bound_host_misses_datagrams_witness:
  "\<exists>n m gw' es. forward_start (bound_env n) bound_gw 0 (demo_request 2) 0 = (Inr True, gw', es) \<and>
     n \<in> {node_a, node_b} \<and> m \<in> {node_a, node_b} \<and> ni_addr m \<noteq> ni_addr n \<and>
     (\<forall>r3 gw3 es3 k. notify_disconnected (bound_env n) gw' DOMAIN_BATTLE 0x01000000 = (r3, gw3, es3) \<longrightarrow>
        NotifyDisconnected (ni_addr n) k \<notin> set es3)"
proof -
  define m where "m = node_for (sort_key fst) [node_a, node_b] 0x01000000"
  define n where "n = (if m = node_a then node_b else node_a)"
  note pt = node_for_point [OF sorts_points_sort_key, of "[node_a, node_b]" "0x01000000"]
  have mn: "n \<in> {node_a, node_b}" "m \<in> {node_a, node_b}" "ni_addr m \<noteq> ni_addr n"
    using pt by (auto simp: m_def [symmetric] n_def) (auto simp: node_a_def node_b_def)
  obtain gw' es where fs: "forward_start (bound_env n) bound_gw 0 (demo_request 2) 0 = (Inr True, gw', es)"
    and dc: "dv_cache (gw_disc gw') = [DOMAIN_BATTLE \<mapsto> two_entry]" using bound_begin [OF mn(1)] by blast
  have dom: "domain_of (f_msg_id (demo_request 2)) = DOMAIN_BATTLE" by (simp add: demo_request_def demo_msg)
  have id: "so_conn_id (gw_objs bound_gw 0) = 0x01000000" by (simp add: session_new_def)
  have bound: "gw_conn_session bound_gw (so_conn_id (gw_objs bound_gw 0)) = Some (domain_of (f_msg_id (demo_request 2)), 7)"
    unfolding dom id by (rule bound_gw_fields)
  have host: "known_host (bound_env n) bound_gw (domain_of (f_msg_id (demo_request 2))) 7 = Some (ni_node_id n)"
    by (simp add: known_host_def bound_env_def)
  have found: "fst (by_node_id (bound_env n) bound_gw (domain_of (f_msg_id (demo_request 2))) (ni_node_id n) 1) = Some n"
    using bound_host [OF mn(1)] by (simp add: dom)
  have ring: "fst (resolve_for (bound_env n) gw' (domain_of (f_msg_id (demo_request 2))) (so_conn_id (gw_objs bound_gw 0)) 0)
      = Inr (Some m)"
  proof -
    have "dv_cache (gw_disc gw') DOMAIN_BATTLE = Some two_entry" "ce_nodes two_entry \<noteq> []"
      "fresh two_entry (en_clock (bound_env n) 0)"
      using dc by (simp_all add: two_entry_def fresh_def bound_env_def)
    from resolve_fresh [OF demo_msg(2) this] pt show ?thesis
      unfolding dom id by (simp add: resolve_for_def two_entry_def get_nth_def m_def node_for_def)
  qed
  from bound_host_misses_datagrams [OF bound_gw_fields(1) bound host found fs ring mn(3)] fs mn
  show ?thesis unfolding dom id by blast
qed

theorem bound_requests_reach_host_witness:
  "\<exists>gw' es c q. forward_start (bound_env node_b) bound_gw 0 (demo_request 2) 0 = (Inr True, gw', es) \<and>
     Forward c q \<in> set es \<and> st_conns (gw_streams gw') (DOMAIN_BATTLE, ''y:1'') = Some c"
proof -
  have dom: "domain_of (f_msg_id (demo_request 2)) = DOMAIN_BATTLE" by (simp add: demo_request_def demo_msg)
  have bound: "gw_conn_session bound_gw (so_conn_id (gw_objs bound_gw 0)) = Some (domain_of (f_msg_id (demo_request 2)), 7)"
    by (simp add: dom session_new_def)
  have host: "known_host (bound_env node_b) bound_gw (domain_of (f_msg_id (demo_request 2))) 7 = Some (ni_node_id node_b)"
    by (simp add: known_host_def bound_env_def)
  have found: "fst (by_node_id (bound_env node_b) bound_gw (domain_of (f_msg_id (demo_request 2))) (ni_node_id node_b) 1) = Some node_b"
    using bound_host [of node_b] by (simp add: dom)
  obtain gw' es where fs: "forward_start (bound_env node_b) bound_gw 0 (demo_request 2) 0 = (Inr True, gw', es)"
    using bound_begin [of node_b] by blast
  then have "forward_begin (bound_env node_b) bound_gw 0 (demo_request 2) 0 = (Inr (Inr ()), gw', es)"
    by (auto simp: forward_start_def split: prod.splits sum.splits)
  then obtain c q where q: "Forward c q \<in> set es" using begin_ok_forwards by blast
  from bound_requests_reach_host [OF bound_gw_fields(1) bound host found fs q] fs q
  show ?thesis by (auto simp: dom node_b_def)
qed

text \<open>One connection of an open gateway, its first battle request, and the end of the writing task.\<close>

theorem notices_complete_witness:
  "\<exists>s. s = fst (gw_step (gw_run (gw_start 1 ''pw'' False) demo_authed) (GStart 0 demo_env)) \<and>
     (DOMAIN_BATTLE, 0x01000000) \<in> set (close_notices (gs_gw (gw_run s [GAccept, GGone 0])) 0 0x01000000)"
proof -
  let ?s = "gw_run (gw_start 1 ''pw'' False) demo_authed"
  obtain r gw' fs where "forward_start demo_env authed_gw 0 (demo_request 2) 0 = (r, gw', fs)" by (metis prod_cases3)
  with demo_start have "forwards (snd (gw_step ?s (GStart 0 demo_env)))" by (simp add: demo_run start_task_def)
  from notices_complete [OF _ _ _ this, of 0 "demo_request 2" "[GAccept, GGone 0]" "0x01000000"]
  show ?thesis by (simp add: demo_run authed_gw_def resumes_def demo_request_def demo_msg)
qed

section \<open>A stream that ends while it is opened\<close>

text \<open>What happens to the streams after that; only one reader task ends stream \<open>c\<close>, and it has.\<close>

datatype stream_op =
    OpOpen "string discovery" u32 node_info "nat \<Rightarrow> string option" "string option"
  | OpEnded u32 string nat
  | OpWait wait_event

fun stream_op_step :: "streams \<Rightarrow> stream_op \<Rightarrow> streams" where
  "stream_op_step st (OpOpen dv d node conn refused) = fst (snd (get_or_open st dv d node conn refused))"
| "stream_op_step st (OpEnded d addr c) = stream_ended st d addr c"
| "stream_op_step st (OpWait e) = snd (wait_step st e)"

definition dead_entry :: "u32 \<Rightarrow> string \<Rightarrow> nat \<Rightarrow> streams \<Rightarrow> bool" where
  "dead_entry d addr c st \<longleftrightarrow> st_conns st (d, addr) = Some c \<and> \<not> st_alive st c \<and> c < st_next st"

lemma wait_step_conns:
  "st_conns (snd (wait_step st e)) = st_conns st \<and> st_alive (snd (wait_step st e)) = st_alive st \<and>
   st_next (snd (wait_step st e)) = st_next st"
  by (cases e) (auto simp: insert_pending_def reply_arrives_def cancel_pending_def Let_def split: option.splits)

lemma dead_entry_step:
  assumes "dead_entry d addr c st" "\<forall>d' addr'. op \<noteq> OpEnded d' addr' c"
  shows "dead_entry d addr c (stream_op_step st op)"
proof (cases op)
  case (OpOpen dv d' node conn refused)
  then show ?thesis
    using assms(1) by (auto simp: dead_entry_def get_or_open_def split: option.splits prod.splits sum.splits)
next
  case (OpEnded d' addr' c')
  then show ?thesis using assms by (auto simp: dead_entry_def stream_ended_def)
next
  case (OpWait e)
  then show ?thesis using assms(1) wait_step_conns [of st e] by (simp add: dead_entry_def)
qed

text \<open>
  The opening of a stream races with its end: when the service ends a new stream before it is
  entered in the table, its reader task finds nothing to remove, and the entry that is made after
  that is dead for good: whatever happens later, every request to that node and domain is
  given that stream, no new one is opened, and the send fails.
\<close>

lemma late_entry_poisons_node:
  assumes "open_connect st dv node conn refused = (Inr (Inr c), st1, dv1)"
    and "st2 = open_insert (stream_ended st1 d (ni_addr node) c) d node c"
    and "\<forall>op\<in>set ops. \<forall>d' addr'. op \<noteq> OpEnded d' addr' c"
  shows "get_or_open (foldl stream_op_step st2 ops) dv' d node conn' refused' = (Inr (Inr c), foldl stream_op_step st2 ops, dv') \<and>
    stream_send (foldl stream_op_step st2 ops) c = Inl ''bridge stream closed''"
proof -
  have "dead_entry d (ni_addr node) c st2"
    using assms(1,2)
    by (auto simp: open_connect_def open_insert_def stream_ended_def dead_entry_def split: prod.splits sum.splits option.splits)
  then have "dead_entry d (ni_addr node) c (foldl stream_op_step st2 ops)"
    using assms(3) by (induction ops arbitrary: st2) (simp_all add: dead_entry_step)
  then show ?thesis by (simp add: dead_entry_def get_or_open_def stream_send_def)
qed

lemma late_entry_poisons_node_witness:
  "\<exists>st1 dv1. open_connect streams_new demo_disc node_a (\<lambda>_. Some ''ch'') None = (Inr (Inr 0), st1, dv1) \<and>
     stream_send (open_insert (stream_ended st1 DOMAIN_BATTLE ''x:1'' 0) DOMAIN_BATTLE node_a 0) 0 = Inl ''bridge stream closed''"
proof -
  obtain st1 dv1 where o: "open_connect streams_new demo_disc node_a (\<lambda>_. Some ''ch'') None = (Inr (Inr 0), st1, dv1)"
    by (auto simp: open_connect_def node_a_def demo_channel streams_new_def)
  from late_entry_poisons_node [OF o refl, where ops = "[]" and d = DOMAIN_BATTLE] o show ?thesis by (simp add: node_a_def)
qed

end
