(* ===== verification/Etcd.thy ===== *)
theory Etcd
  imports Registry "HOL-Library.AList" "HOL-Library.Sublist"
begin

text \<open>
  \<open>grimoire-registry/src/etcd_backend.rs\<close>: the registry on etcd, and the choice of the backend in
  \<open>main.rs\<close>.

  \<^item> etcd is a parameter: \<open>exec\<close> answers one command, \<open>view\<close> reads the keys with their leases, the live
    leases and the lease numbers ever granted; \<open>etcd_rel\<close> states the documented effect of a command.  JSON is
    a parameter too.
  \<^item> \<open>eb_leases\<close> is the table of leases, each with the queue of its keeper; \<open>keeper_step\<close> is one
    turn of a keeper.  A lease that lapses takes its keys with it (\<open>lapsed\<close>).
  \<^item> The abstract state of the backend is a map of the registered nodes (\<open>node_map_step\<close>).
\<close>

type_synonym node_value = "string \<times> meta"

section \<open>The server\<close>

datatype etcd_cmd =
    LeaseGrant i64
  | LeaseRevoke i64
  | KeepAlive i64
  | Put string string i64
  | GetKey string
  | GetPrefix string
  | Delete string

datatype etcd_reply = EError | EDone | ELease i64 | EKvs "(string \<times> string) list"

record etcd_view =
  ev_kv :: "string \<rightharpoonup> string \<times> i64"
  ev_live :: "i64 set"
  ev_used :: "i64 set"

text \<open>The end of a lease, revoked or lapsed: its keys go with it.\<close>

definition lapsed :: "i64 \<Rightarrow> etcd_view \<Rightarrow> etcd_view" where
  "lapsed l v = v\<lparr>ev_kv := (\<lambda>k. case ev_kv v k of Some (x, l') \<Rightarrow> if l' = l then None else Some (x, l') | None \<Rightarrow> None),
                  ev_live := ev_live v - {l}\<rparr>"

text \<open>
  A granted number is new.  A grant or a put may be refused; a put is refused without a live
  lease, a revocation of an unknown lease is an error; nothing changes then.
\<close>

fun etcd_rel :: "etcd_view \<Rightarrow> etcd_cmd \<Rightarrow> etcd_reply \<Rightarrow> etcd_view \<Rightarrow> bool" where
  "etcd_rel v (LeaseGrant ttl) r v' \<longleftrightarrow> (r = EError \<and> v' = v) \<or>
     (\<exists>l. r = ELease l \<and> l \<notin> ev_used v \<and> v' = v\<lparr>ev_live := insert l (ev_live v), ev_used := insert l (ev_used v)\<rparr>)"
| "etcd_rel v (LeaseRevoke l) r v' \<longleftrightarrow>
     (if l \<in> ev_live v then r = EDone \<and> v' = lapsed l v else r = EError \<and> v' = v)"
| "etcd_rel v (KeepAlive l) r v' \<longleftrightarrow> (r = EError \<or> r = EDone) \<and> v' = v"
| "etcd_rel v (Put k x l) r v' \<longleftrightarrow> (r = EError \<and> v' = v) \<or>
     (l \<in> ev_live v \<and> r = EDone \<and> v' = v\<lparr>ev_kv := (ev_kv v)(k \<mapsto> (x, l))\<rparr>)"
| "etcd_rel v (GetKey k) r v' \<longleftrightarrow>
     r = EKvs (case ev_kv v k of None \<Rightarrow> [] | Some (x, _) \<Rightarrow> [(k, x)]) \<and> v' = v"
| "etcd_rel v (GetPrefix p) r v' \<longleftrightarrow>
     (\<exists>kvs. r = EKvs kvs \<and> distinct (map fst kvs) \<and>
        set kvs = {(k, x) | k x. prefix p k \<and> (\<exists>l. ev_kv v k = Some (x, l))}) \<and> v' = v"
| "etcd_rel v (Delete k) r v' \<longleftrightarrow> r = EDone \<and> v' = v\<lparr>ev_kv := (ev_kv v)(k := None)\<rparr>"

record 'e etcd_env =
  ee_exec :: "'e \<Rightarrow> etcd_cmd \<Rightarrow> etcd_reply \<times> 'e"
  ee_lapse :: "'e \<Rightarrow> i64 \<Rightarrow> 'e"              \<comment> \<open>a lease ends on its own\<close>
  ee_show :: "node_value \<Rightarrow> string option"   \<comment> \<open>\<open>serde_json::to_string\<close>\<close>
  ee_read :: "string \<Rightarrow> node_value option"   \<comment> \<open>\<open>serde_json::from_str\<close>\<close>

definition etcd_ok :: "'e etcd_env \<Rightarrow> ('e \<Rightarrow> etcd_view) \<Rightarrow> bool" where
  "etcd_ok env view \<longleftrightarrow>
     (\<forall>e c. etcd_rel (view e) c (fst (ee_exec env e c)) (view (snd (ee_exec env e c)))) \<and>
     (\<forall>e l. view (ee_lapse env e l) = lapsed l (view e))"

text \<open>A value whose JSON text is read back as the value.\<close>

definition writable :: "'e etcd_env \<Rightarrow> node_value \<Rightarrow> bool" where
  "writable env x \<longleftrightarrow> (\<exists>json. ee_show env x = Some json \<and> ee_read env json = Some x)"

section \<open>The backend\<close>

record lease_state =
  ls_lease_id :: i64
  ls_queue :: nat          \<comment> \<open>renewals that wait for the keeper\<close>
  ls_keeper :: bool        \<comment> \<open>the keeper still runs\<close>

record 'e etcd_backend =
  eb_client :: 'e
  eb_leases :: "string \<times> string \<rightharpoonup> lease_state"

definition ETCD_PREFIX :: string where "ETCD_PREFIX = ''/grimoire/''"
definition RENEW_CAPACITY :: nat where "RENEW_CAPACITY = 8"

definition etcd_key :: "string \<Rightarrow> string \<Rightarrow> string" where
  "etcd_key service node_id = ETCD_PREFIX @ service @ ''/'' @ node_id"

definition etcd_prefix :: "string \<Rightarrow> string" where
  "etcd_prefix service = ETCD_PREFIX @ service @ ''/''"

text \<open>The revocation of an old lease, then the grant, the value and the put; \<open>False\<close> is the error of one of them.\<close>

definition revoke_old :: "'e etcd_env \<Rightarrow> 'e etcd_backend \<Rightarrow> string \<times> string \<Rightarrow> 'e etcd_backend" where
  "revoke_old env b k =
     (case eb_leases b k of
        None \<Rightarrow> b
      | Some old \<Rightarrow>
          \<lparr>eb_client = snd (ee_exec env (eb_client b) (LeaseRevoke (ls_lease_id old))),
           eb_leases = (eb_leases b)(k := None)\<rparr>)"

definition etcd_register :: "'e etcd_env \<Rightarrow> 'e etcd_backend \<Rightarrow> string \<Rightarrow> string \<Rightarrow> string \<Rightarrow> meta \<Rightarrow> i32 \<Rightarrow>
    bool \<times> 'e etcd_backend" where
  "etcd_register env b service node_id addr meta ttl_secs =
     (let b1 = revoke_old env b (service, node_id)
      in case ee_exec env (eb_client b1) (LeaseGrant (word_of_int (max (sint ttl_secs) 1))) of
           (ELease l, e2) \<Rightarrow>
             (case ee_show env (addr, meta) of
                None \<Rightarrow> (False, b1\<lparr>eb_client := e2\<rparr>)
              | Some json \<Rightarrow>
                  (case ee_exec env e2 (Put (etcd_key service node_id) json l) of
                     (EError, e3) \<Rightarrow> (False, b1\<lparr>eb_client := e3\<rparr>)
                   | (_, e3) \<Rightarrow>
                       (True, \<lparr>eb_client = e3,
                          eb_leases = (eb_leases b1)((service, node_id) \<mapsto>
                            \<lparr>ls_lease_id = l, ls_queue = 0, ls_keeper = True\<rparr>)\<rparr>)))
         | (_, e2) \<Rightarrow> (False, b1\<lparr>eb_client := e2\<rparr>))"

text \<open>\<open>try_send\<close> on the keeper's channel: dropped when the channel is full or the keeper is gone.\<close>

definition ask_keeper :: "lease_state \<Rightarrow> lease_state" where
  "ask_keeper ls = (if ls_keeper ls \<and> ls_queue ls < RENEW_CAPACITY then ls\<lparr>ls_queue := Suc (ls_queue ls)\<rparr> else ls)"

definition etcd_heartbeat :: "'e etcd_env \<Rightarrow> 'e etcd_backend \<Rightarrow> string \<Rightarrow> string \<Rightarrow> bool \<times> 'e etcd_backend" where
  "etcd_heartbeat env b service node_id =
     (case eb_leases b (service, node_id) of
        None \<Rightarrow> (False, b)
      | Some ls \<Rightarrow>
          (case ee_exec env (eb_client b) (GetKey (etcd_key service node_id)) of
             (reply, e') \<Rightarrow>
               ((case reply of EKvs kvs \<Rightarrow> kvs \<noteq> [] | _ \<Rightarrow> False),
                \<lparr>eb_client = e', eb_leases = (eb_leases b)((service, node_id) \<mapsto> ask_keeper ls)\<rparr>)))"

text \<open>\<open>strip_prefix\<close>, and the entries of a reply that can be read.\<close>

definition strip :: "string \<Rightarrow> string \<Rightarrow> string option" where
  "strip p s = (if prefix p s then Some (drop (length p) s) else None)"

definition read_entry :: "'e etcd_env \<Rightarrow> string \<Rightarrow> string \<times> string \<Rightarrow> (string \<times> node_value) option" where
  "read_entry env service kv =
     Option.bind (strip (etcd_prefix service) (fst kv)) (\<lambda>node_id.
       map_option (\<lambda>x. (node_id, x)) (ee_read env (snd kv)))"

definition etcd_discover :: "'e etcd_env \<Rightarrow> 'e etcd_backend \<Rightarrow> string \<Rightarrow> (string \<times> node_value) list \<times> 'e etcd_backend" where
  "etcd_discover env b service =
     (case ee_exec env (eb_client b) (GetPrefix (etcd_prefix service)) of
        (EKvs kvs, e') \<Rightarrow> (List.map_filter (read_entry env service) kvs, b\<lparr>eb_client := e'\<rparr>)
      | (_, e') \<Rightarrow> ([], b\<lparr>eb_client := e'\<rparr>))"

definition etcd_unregister :: "'e etcd_env \<Rightarrow> 'e etcd_backend \<Rightarrow> string \<Rightarrow> string \<Rightarrow> 'e etcd_backend" where
  "etcd_unregister env b service node_id =
     (let b1 = revoke_old env b (service, node_id)
      in b1\<lparr>eb_client := snd (ee_exec env (eb_client b1) (Delete (etcd_key service node_id)))\<rparr>)"

text \<open>One turn of the keeper of a node's lease: it ends when the lease cannot be renewed.\<close>

definition keeper_step :: "'e etcd_env \<Rightarrow> 'e etcd_backend \<Rightarrow> string \<times> string \<Rightarrow> 'e etcd_backend" where
  "keeper_step env b k =
     (case eb_leases b k of
        None \<Rightarrow> b
      | Some ls \<Rightarrow>
          if ls_keeper ls \<and> ls_queue ls \<noteq> 0
          then (case ee_exec env (eb_client b) (KeepAlive (ls_lease_id ls)) of
                  (reply, e') \<Rightarrow>
                    \<lparr>eb_client = e', eb_leases = (eb_leases b)(k \<mapsto>
                       ls\<lparr>ls_queue := ls_queue ls - 1, ls_keeper := (reply \<noteq> EError)\<rparr>)\<rparr>)
          else b)"

text \<open>A keeper also ends when it cannot open its stream of renewals.\<close>

definition keeper_fails :: "'e etcd_backend \<Rightarrow> string \<times> string \<Rightarrow> 'e etcd_backend" where
  "keeper_fails b k =
     (case eb_leases b k of
        None \<Rightarrow> b
      | Some ls \<Rightarrow> b\<lparr>eb_leases := (eb_leases b)(k \<mapsto> ls\<lparr>ls_keeper := False\<rparr>)\<rparr>)"

section \<open>The service on either backend\<close>

datatype 'e backend = InMemory registry_state | OnEtcd "'e etcd_backend"

text \<open>\<open>False\<close> is the error status of a registration.\<close>

definition srv_register :: "'e etcd_env \<Rightarrow> 'e backend \<Rightarrow> string \<Rightarrow> string \<Rightarrow> string \<Rightarrow> meta \<Rightarrow> i32 \<Rightarrow> u128 \<Rightarrow>
    bool \<times> 'e backend" where
  "srv_register env b service node_id addr meta ttl_secs now =
     (case b of
        InMemory st \<Rightarrow> (True, InMemory (svc_register st service node_id addr meta ttl_secs now))
      | OnEtcd e \<Rightarrow> apsnd OnEtcd (etcd_register env e service node_id addr meta (register_ttl ttl_secs)))"

definition srv_heartbeat :: "'e etcd_env \<Rightarrow> 'e backend \<Rightarrow> string \<Rightarrow> string \<Rightarrow> u128 \<Rightarrow> bool \<times> 'e backend" where
  "srv_heartbeat env b service node_id now =
     (case b of
        InMemory st \<Rightarrow> apsnd InMemory (svc_heartbeat st service node_id now)
      | OnEtcd e \<Rightarrow> apsnd OnEtcd (etcd_heartbeat env e service node_id))"

definition srv_discover :: "'e etcd_env \<Rightarrow> string list \<Rightarrow> 'e backend \<Rightarrow> string \<Rightarrow> node_info list \<times> 'e backend" where
  "srv_discover env it b service =
     (case b of
        InMemory st \<Rightarrow> (svc_discover it st service, b)
      | OnEtcd e \<Rightarrow>
          (case etcd_discover env e service of
             (ns, e') \<Rightarrow> (map (\<lambda>(node_id, addr, meta). \<lparr>ni_node_id = node_id, ni_addr = addr, ni_meta = meta\<rparr>) ns, OnEtcd e')))"

definition srv_unregister :: "'e etcd_env \<Rightarrow> 'e backend \<Rightarrow> string \<Rightarrow> string \<Rightarrow> 'e backend" where
  "srv_unregister env b service node_id =
     (case b of
        InMemory st \<Rightarrow> InMemory (svc_unregister st service node_id)
      | OnEtcd e \<Rightarrow> OnEtcd (etcd_unregister env e service node_id))"

section \<open>The map of nodes\<close>

datatype etcd_event =
    ERegister string string string meta i32
  | EHeartbeat string string
  | EDiscover string
  | EUnregister string string
  | EKeeper "string \<times> string"
  | EKeeperFails "string \<times> string"
  | ELapse i64

fun etcd_step :: "'e etcd_env \<Rightarrow> 'e etcd_backend \<Rightarrow> etcd_event \<Rightarrow> 'e etcd_backend" where
  "etcd_step env b (ERegister s n addr meta ttl) = snd (etcd_register env b s n addr meta ttl)"
| "etcd_step env b (EHeartbeat s n) = snd (etcd_heartbeat env b s n)"
| "etcd_step env b (EDiscover s) = snd (etcd_discover env b s)"
| "etcd_step env b (EUnregister s n) = etcd_unregister env b s n"
| "etcd_step env b (EKeeper k) = keeper_step env b k"
| "etcd_step env b (EKeeperFails k) = keeper_fails b k"
| "etcd_step env b (ELapse l) = b\<lparr>eb_client := ee_lapse env (eb_client b) l\<rparr>"

text \<open>What an event does to the map of the registered nodes.\<close>

fun node_map_step :: "'e etcd_env \<Rightarrow> 'e etcd_backend \<Rightarrow> (string \<times> string \<rightharpoonup> node_value) \<Rightarrow> etcd_event \<Rightarrow>
    (string \<times> string \<rightharpoonup> node_value)" where
  "node_map_step env b m (ERegister s n addr meta ttl) =
     m((s, n) := (if fst (etcd_register env b s n addr meta ttl) then Some (addr, meta) else None))"
| "node_map_step env b m (EUnregister s n) = m((s, n) := None)"
| "node_map_step env b m (ELapse l) =
     (\<lambda>k. case eb_leases b k of None \<Rightarrow> m k | Some ls \<Rightarrow> if ls_lease_id ls = l then None else m k)"
| "node_map_step env b m _ = m"

definition etcd_run :: "'e etcd_env \<Rightarrow> 'e \<Rightarrow> etcd_event list \<Rightarrow> 'e etcd_backend \<times> (string \<times> string \<rightharpoonup> node_value)" where
  "etcd_run env e evs = foldl (\<lambda>(b, m) ev. (etcd_step env b ev, node_map_step env b m ev))
     (\<lparr>eb_client = e, eb_leases = Map.empty\<rparr>, Map.empty) evs"

text \<open>A service's name holds no slash, so that no key of one service starts like those of another.\<close>

definition plain :: "string \<Rightarrow> bool" where
  "plain s \<longleftrightarrow> CHR ''/'' \<notin> set s"

lemma etcd_key_inject: "plain s \<Longrightarrow> plain s' \<Longrightarrow> etcd_key s n = etcd_key s' n' \<longleftrightarrow> s = s' \<and> n = n'"
  using append_sep_inject [of "CHR ''/''" s s' n n'] by (auto simp: etcd_key_def plain_def)

lemma prefix_key: "plain s \<Longrightarrow> plain s' \<Longrightarrow> prefix (etcd_prefix s) (etcd_key s' n) \<longleftrightarrow> s = s'"
proof
  assume p: "plain s" "plain s'" "prefix (etcd_prefix s) (etcd_key s' n)"
  then obtain z where "etcd_key s' n = etcd_key s z" by (auto simp: prefix_def etcd_prefix_def etcd_key_def)
  with p show "s = s'" using etcd_key_inject by blast
qed (simp add: etcd_prefix_def etcd_key_def)

lemma strip_key: "strip (etcd_prefix s) (etcd_key s n) = Some n"
  by (simp add: strip_def etcd_prefix_def etcd_key_def)

text \<open>How the keys, the leases and the map fit together.\<close>

definition etcd_inv :: "'e etcd_env \<Rightarrow> etcd_view \<Rightarrow> (string \<times> string \<rightharpoonup> i64) \<Rightarrow> (string \<times> string \<rightharpoonup> node_value) \<Rightarrow> bool" where
  "etcd_inv env v ids m \<longleftrightarrow>
     (\<forall>s n x. m (s, n) = Some x \<longrightarrow> plain s \<and>
        (\<exists>json l. ev_kv v (etcd_key s n) = Some (json, l) \<and> ee_read env json = Some x \<and> ids (s, n) = Some l)) \<and>
     (\<forall>k x l. ev_kv v k = Some (x, l) \<longrightarrow> l \<in> ev_live v \<and> (\<exists>s n. k = etcd_key s n \<and> plain s \<and> m (s, n) \<noteq> None)) \<and>
     (\<forall>k l. ids k = Some l \<longrightarrow> l \<in> ev_used v) \<and>
     (\<forall>k k' l. ids k = Some l \<longrightarrow> ids k' = Some l \<longrightarrow> k = k') \<and> ev_live v \<subseteq> ev_used v"

definition lease_ids :: "'e etcd_backend \<Rightarrow> string \<times> string \<rightharpoonup> i64" where
  "lease_ids b k = map_option ls_lease_id (eb_leases b k)"

end
