(* ===== verification/Etcd_Props.thy ===== *)
theory Etcd_Props
  imports Etcd
begin

text \<open>
  The registry on etcd is a map of nodes: the keys, the leases and the table of leases stay in step
  (\<open>etcd_inv\<close>), so that discovery returns exactly the registered nodes whose lease has not lapsed.
\<close>

section \<open>The invariant\<close>

lemma inv_node:
  "etcd_inv env v ids m \<Longrightarrow> m (s, n) = Some x \<Longrightarrow>
   plain s \<and> (\<exists>json l. ev_kv v (etcd_key s n) = Some (json, l) \<and> ee_read env json = Some x \<and> ids (s, n) = Some l)"
  unfolding etcd_inv_def by blast

lemma inv_key:
  "etcd_inv env v ids m \<Longrightarrow> ev_kv v k = Some (x, l) \<Longrightarrow>
   l \<in> ev_live v \<and> (\<exists>s n. k = etcd_key s n \<and> plain s \<and> m (s, n) \<noteq> None)"
  unfolding etcd_inv_def by blast

lemma inv_ids:
  "etcd_inv env v ids m \<Longrightarrow> ids k = Some l \<Longrightarrow> l \<in> ev_used v"
  "etcd_inv env v ids m \<Longrightarrow> ids k = Some l \<Longrightarrow> ids k' = Some l \<Longrightarrow> k = k'"
  unfolding etcd_inv_def by blast+

text \<open>A key of a node holds the node's lease.\<close>

lemma inv_key_lease:
  assumes "etcd_inv env v ids m" "plain s" "ev_kv v (etcd_key s n) = Some (x, l)"
  shows "ids (s, n) = Some l \<and> m (s, n) \<noteq> None"
proof -
  obtain s' n' where k: "etcd_key s n = etcd_key s' n'" "plain s'" "m (s', n') \<noteq> None"
    using inv_key [OF assms(1,3)] by blast
  then have "s' = s" "n' = n" using etcd_key_inject [OF assms(2) k(2), of n n'] by simp_all
  with k(3) obtain y where y: "m (s, n) = Some y" by blast
  from inv_node [OF assms(1) y] assms(3) y show ?thesis by auto
qed

lemma lapsed_kv: "ev_kv (lapsed l v) k = Some (x, l') \<longleftrightarrow> ev_kv v k = Some (x, l') \<and> l' \<noteq> l"
  by (auto simp: lapsed_def split: option.splits)

lemma lapsed_fields [simp]: "ev_live (lapsed l v) = ev_live v - {l}" "ev_used (lapsed l v) = ev_used v"
  by (simp_all add: lapsed_def)

lemma inv_lapse:
  assumes "etcd_inv env v ids m"
  shows "etcd_inv env (lapsed l v) ids (\<lambda>k. if ids k = Some l then None else m k)"
  unfolding etcd_inv_def
proof (intro conjI allI impI)
  fix s n x assume m: "(if ids (s, n) = Some l then None else m (s, n)) = Some x"
  then have "m (s, n) = Some x" "ids (s, n) \<noteq> Some l" by (auto split: if_splits)
  from inv_node [OF assms this(1)] this(2) show "plain s"
    and "\<exists>json l'. ev_kv (lapsed l v) (etcd_key s n) = Some (json, l') \<and> ee_read env json = Some x \<and> ids (s, n) = Some l'"
    by (auto simp: lapsed_kv)
next
  fix k x l' assume "ev_kv (lapsed l v) k = Some (x, l')"
  then have k: "ev_kv v k = Some (x, l')" "l' \<noteq> l" by (simp_all add: lapsed_kv)
  from inv_key [OF assms k(1)] k(2) show "l' \<in> ev_live (lapsed l v)" by simp
  from inv_key [OF assms k(1)] obtain s n where s: "k = etcd_key s n" "plain s" by blast
  with inv_key_lease [OF assms s(2)] k s
  show "\<exists>s n. k = etcd_key s n \<and> plain s \<and> (if ids (s, n) = Some l then None else m (s, n)) \<noteq> None" by fastforce
next
  show "ev_live (lapsed l v) \<subseteq> ev_used (lapsed l v)" using assms by (auto simp: etcd_inv_def)
qed (use inv_ids [OF assms] in auto)

lemma inv_forget:
  assumes "etcd_inv env v ids m" "m k = None"
  shows "etcd_inv env v (ids(k := None)) m"
  unfolding etcd_inv_def
proof (intro conjI allI impI)
  fix s n x assume "m (s, n) = Some x"
  with inv_node [OF assms(1) this] assms(2) show "plain s"
    and "\<exists>json l. ev_kv v (etcd_key s n) = Some (json, l) \<and> ee_read env json = Some x \<and> (ids(k := None)) (s, n) = Some l"
    by auto
qed (use inv_key [OF assms(1)] inv_ids [OF assms(1)] assms(1) in \<open>auto simp: etcd_inv_def split: if_splits\<close>)

lemma inv_no_lease: "etcd_inv env v ids m \<Longrightarrow> ids k = None \<Longrightarrow> m k = None"
  by (cases k; cases "m k") (use inv_node in fastforce)+

text \<open>The revocation of the lease of a node.\<close>

lemma inv_revoke:
  assumes "etcd_inv env v ids m" "ids k = Some l"
    and "v' = (if l \<in> ev_live v then lapsed l v else v)"
  shows "etcd_inv env v' (ids(k := None)) (m(k := None))"
proof (cases "l \<in> ev_live v")
  case True
  have "ids k' = Some l \<longleftrightarrow> k' = k" for k' using inv_ids(2) [OF assms(1)] assms(2) by blast
  then have "(\<lambda>k'. if ids k' = Some l then None else m k') = m(k := None)" by auto
  with inv_forget [OF inv_lapse [OF assms(1), of l], of k] True assms(2,3) show ?thesis by simp
next
  case False
  have "m k = None"
  proof (cases "m k")
    case (Some x)
    obtain s n where k: "k = (s, n)" by force
    from inv_node [OF assms(1) Some [unfolded k]] assms(2) k obtain json where "ev_kv v (etcd_key s n) = Some (json, l)" by auto
    from inv_key [OF assms(1) this] False show ?thesis by simp
  qed
  with inv_forget [OF assms(1)] False assms(3) show ?thesis by (simp add: fun_upd_idem)
qed

lemma inv_grant:
  assumes "etcd_inv env v ids m" "l \<notin> ev_used v"
  shows "etcd_inv env (v\<lparr>ev_live := insert l (ev_live v), ev_used := insert l (ev_used v)\<rparr>) ids m"
  using assms unfolding etcd_inv_def by auto

lemma inv_put:
  assumes "etcd_inv env v ids m" "ids (s, n) = None" "l \<in> ev_live v" "\<forall>k. ids k \<noteq> Some l"
    and "plain s" "ee_read env json = Some x"
  shows "etcd_inv env (v\<lparr>ev_kv := (ev_kv v)(etcd_key s n \<mapsto> (json, l))\<rparr>) (ids((s, n) \<mapsto> l)) (m((s, n) \<mapsto> x))"
  unfolding etcd_inv_def
proof (intro conjI allI impI)
  fix s' n' x' assume "(m((s, n) \<mapsto> x)) (s', n') = Some x'"
  then show "plain s'" and "\<exists>json' l'. ev_kv (v\<lparr>ev_kv := (ev_kv v)(etcd_key s n \<mapsto> (json, l))\<rparr>) (etcd_key s' n') = Some (json', l') \<and>
      ee_read env json' = Some x' \<and> (ids((s, n) \<mapsto> l)) (s', n') = Some l'"
    using inv_node [OF assms(1), of s' n' x'] assms(5,6) etcd_key_inject [OF assms(5), of s' n n']
    by (auto split: if_splits)
next
  fix k x' l' assume k: "ev_kv (v\<lparr>ev_kv := (ev_kv v)(etcd_key s n \<mapsto> (json, l))\<rparr>) k = Some (x', l')"
  then show "l' \<in> ev_live (v\<lparr>ev_kv := (ev_kv v)(etcd_key s n \<mapsto> (json, l))\<rparr>)"
    using inv_key [OF assms(1)] assms(3) by (auto split: if_splits)
  show "\<exists>s' n'. k = etcd_key s' n' \<and> plain s' \<and> (m((s, n) \<mapsto> x)) (s', n') \<noteq> None"
    using k inv_key [OF assms(1), of k x' l'] assms(5) by (fastforce split: if_splits)
next
  show "ev_live (v\<lparr>ev_kv := (ev_kv v)(etcd_key s n \<mapsto> (json, l))\<rparr>) \<subseteq>
      ev_used (v\<lparr>ev_kv := (ev_kv v)(etcd_key s n \<mapsto> (json, l))\<rparr>)"
    using assms(1) by (simp add: etcd_inv_def)
qed (use inv_ids [OF assms(1)] assms(1,3,4) in \<open>auto simp: etcd_inv_def split: if_splits\<close>)

section \<open>The operations\<close>

definition backend_inv :: "'e etcd_env \<Rightarrow> ('e \<Rightarrow> etcd_view) \<Rightarrow> 'e etcd_backend \<Rightarrow> (string \<times> string \<rightharpoonup> node_value) \<Rightarrow> bool" where
  "backend_inv env view b m \<longleftrightarrow> etcd_inv env (view (eb_client b)) (lease_ids b) m"

lemma etcd_answer:
  "etcd_ok env view \<Longrightarrow> ee_exec env e c = (r, e') \<Longrightarrow> etcd_rel (view e) c r (view e')"
  unfolding etcd_ok_def by (metis fst_conv snd_conv)

lemma lease_ids_upd:
  "lease_ids (b\<lparr>eb_leases := (eb_leases b)(k := r)\<rparr>) = (lease_ids b)(k := map_option ls_lease_id r)"
  "lease_ids \<lparr>eb_client = e, eb_leases = (eb_leases b)(k := r)\<rparr> = (lease_ids b)(k := map_option ls_lease_id r)"
  "lease_ids (b\<lparr>eb_client := e\<rparr>) = lease_ids b"
  by (auto simp: lease_ids_def)

lemma revoke_old_inv:
  assumes "etcd_ok env view" "backend_inv env view b m"
  shows "backend_inv env view (revoke_old env b k) (m(k := None)) \<and> lease_ids (revoke_old env b k) k = None"
proof (cases "eb_leases b k")
  case None
  then have ids: "lease_ids b k = None" by (simp add: lease_ids_def)
  then have "m k = None" using inv_no_lease [OF assms(2) [unfolded backend_inv_def]] by blast
  with None ids assms(2) show ?thesis by (simp add: revoke_old_def fun_upd_idem)
next
  case (Some ls)
  then have ids: "lease_ids b k = Some (ls_lease_id ls)" by (simp add: lease_ids_def)
  obtain r e' where e: "ee_exec env (eb_client b) (LeaseRevoke (ls_lease_id ls)) = (r, e')" by force
  have "view e' = (if ls_lease_id ls \<in> ev_live (view (eb_client b)) then lapsed (ls_lease_id ls) (view (eb_client b))
      else view (eb_client b))"
    using etcd_answer [OF assms(1) e] by (simp split: if_splits)
  from inv_revoke [OF assms(2) [unfolded backend_inv_def] ids this] Some e show ?thesis
    by (simp add: revoke_old_def backend_inv_def lease_ids_upd)
qed

lemma register_inv:
  assumes "etcd_ok env view" "backend_inv env view b m" "plain s" "writable env (addr, meta)"
    and "etcd_register env b s n addr meta ttl = (ok, b')"
  shows "backend_inv env view b' (m((s, n) := (if ok then Some (addr, meta) else None)))"
proof -
  let ?b1 = "revoke_old env b (s, n)" and ?m1 = "m((s, n) := None)"
  have inv: "etcd_inv env (view (eb_client ?b1)) (lease_ids ?b1) ?m1" and free: "lease_ids ?b1 (s, n) = None"
    using revoke_old_inv [OF assms(1,2), of "(s, n)"] by (simp_all add: backend_inv_def)
  obtain r e2 where g: "ee_exec env (eb_client ?b1) (LeaseGrant (word_of_int (max (sint ttl) 1))) = (r, e2)" by force
  from etcd_answer [OF assms(1) g] consider "r = EError" "view e2 = view (eb_client ?b1)"
    | l where "r = ELease l" "l \<notin> ev_used (view (eb_client ?b1))"
      "view e2 = (view (eb_client ?b1))\<lparr>ev_live := insert l (ev_live (view (eb_client ?b1))),
         ev_used := insert l (ev_used (view (eb_client ?b1)))\<rparr>"
    by auto
  then show ?thesis
  proof cases
    case 1
    with assms(5) g inv show ?thesis by (auto simp: etcd_register_def backend_inv_def lease_ids_upd)
  next
    case (2 l)
    have inv2: "etcd_inv env (view e2) (lease_ids ?b1) ?m1" unfolding 2(3) by (rule inv_grant [OF inv 2(2)])
    have new: "\<forall>k. lease_ids ?b1 k \<noteq> Some l" using inv_ids(1) [OF inv] 2(2) by blast
    obtain json where j: "ee_show env (addr, meta) = Some json" "ee_read env json = Some (addr, meta)"
      using assms(4) by (auto simp: writable_def)
    obtain r3 e3 where p: "ee_exec env e2 (Put (etcd_key s n) json l) = (r3, e3)" by force
    from etcd_answer [OF assms(1) p] consider "r3 = EError" "view e3 = view e2"
      | "r3 = EDone" "l \<in> ev_live (view e2)" "view e3 = (view e2)\<lparr>ev_kv := (ev_kv (view e2))(etcd_key s n \<mapsto> (json, l))\<rparr>"
      by auto
    then show ?thesis
    proof cases
      case 1
      with assms(5) g \<open>r = ELease l\<close> j p inv2 show ?thesis
        by (auto simp: etcd_register_def Let_def backend_inv_def lease_ids_upd)
    next
      case ok: 2
      from inv_put [OF inv2 free ok(2) new assms(3) j(2)] assms(5) g 2(1) j(1) p ok(1,3) show ?thesis
        by (auto simp: etcd_register_def Let_def backend_inv_def lease_ids_upd)
    qed
  qed
qed

lemma unregister_inv:
  assumes "etcd_ok env view" "backend_inv env view b m" "plain s"
  shows "backend_inv env view (etcd_unregister env b s n) (m((s, n) := None))"
proof -
  let ?b1 = "revoke_old env b (s, n)"
  have inv: "etcd_inv env (view (eb_client ?b1)) (lease_ids ?b1) (m((s, n) := None))" and free: "lease_ids ?b1 (s, n) = None"
    using revoke_old_inv [OF assms(1,2), of "(s, n)"] by (simp_all add: backend_inv_def)
  obtain r e' where e: "ee_exec env (eb_client ?b1) (Delete (etcd_key s n)) = (r, e')" by force
  have "ev_kv (view (eb_client ?b1)) (etcd_key s n) = None"
    using inv_key_lease [OF inv assms(3), of n] free by (cases "ev_kv (view (eb_client ?b1)) (etcd_key s n)") auto
  then have "view e' = view (eb_client ?b1)" using etcd_answer [OF assms(1) e] by (simp add: fun_upd_idem)
  with inv e show ?thesis by (simp add: etcd_unregister_def backend_inv_def lease_ids_upd)
qed

text \<open>Operations that only ask: the view, the lease numbers and so the map stay as they are.\<close>

lemma quiet_inv:
  "backend_inv env view b m \<Longrightarrow> view (eb_client b') = view (eb_client b) \<Longrightarrow> lease_ids b' = lease_ids b \<Longrightarrow>
   backend_inv env view b' m"
  by (simp add: backend_inv_def)

lemma same_lease: "eb_leases b k = Some ls \<Longrightarrow> ls_lease_id ls' = ls_lease_id ls \<Longrightarrow>
  (lease_ids b)(k \<mapsto> ls_lease_id ls') = lease_ids b"
  by (auto simp: lease_ids_def)

lemma ask_keeper_id [simp]: "ls_lease_id (ask_keeper ls) = ls_lease_id ls"
  by (simp add: ask_keeper_def)

fun quiet :: "etcd_event \<Rightarrow> bool" where
  "quiet (EHeartbeat _ _) = True"
| "quiet (EDiscover _) = True"
| "quiet (EKeeper _) = True"
| "quiet (EKeeperFails _) = True"
| "quiet _ = False"

lemma quiet_step:
  assumes "etcd_ok env view" "quiet ev"
  shows "view (eb_client (etcd_step env b ev)) = view (eb_client b) \<and> lease_ids (etcd_step env b ev) = lease_ids b"
proof -
  have same: "ee_exec env e c = (r, e') \<Longrightarrow> etcd_rel (view e) c r (view e')" for e c r e'
    by (rule etcd_answer [OF assms(1)])
  from assms(2) show ?thesis
    by (cases ev) (auto simp: etcd_heartbeat_def etcd_discover_def keeper_step_def keeper_fails_def lease_ids_upd same_lease
        dest!: same split: option.splits prod.splits etcd_reply.splits)
qed

text \<open>Registrations under a name without a slash, of data that JSON keeps.\<close>

fun event_plain :: "'e etcd_env \<Rightarrow> etcd_event \<Rightarrow> bool" where
  "event_plain env (ERegister s n addr meta ttl) = (plain s \<and> writable env (addr, meta))"
| "event_plain env (EUnregister s n) = plain s"
| "event_plain env _ = True"

lemma etcd_step_inv:
  assumes "etcd_ok env view" "backend_inv env view b m"
    and "event_plain env ev"
  shows "backend_inv env view (etcd_step env b ev) (node_map_step env b m ev)"
proof (cases ev)
  case (ERegister s n a mt t)
  obtain ok b' where "etcd_register env b s n a mt t = (ok, b')" by force
  with register_inv [OF assms(1,2) _ _ this] ERegister assms(3) show ?thesis by simp
next
  case (EUnregister s n)
  with unregister_inv [OF assms(1,2)] assms(3) show ?thesis by simp
next
  case (ELapse l)
  have v: "view (ee_lapse env (eb_client b) l) = lapsed l (view (eb_client b))"
    using assms(1) by (simp add: etcd_ok_def)
  have "(\<lambda>k. if lease_ids b k = Some l then None else m k) = node_map_step env b m ev"
    using ELapse by (auto simp: lease_ids_def split: option.splits)
  with inv_lapse [OF assms(2) [unfolded backend_inv_def], of l] v ELapse show ?thesis
    by (simp add: backend_inv_def lease_ids_upd)
qed (use quiet_inv [OF assms(2) quiet_step [OF assms(1), THEN conjunct1] quiet_step [OF assms(1), THEN conjunct2], of ev] in simp_all)

lemma etcd_run_inv:
  assumes "etcd_ok env view" "view e = \<lparr>ev_kv = Map.empty, ev_live = {}, ev_used = {}\<rparr>" "\<forall>ev\<in>set evs. event_plain env ev"
    and "etcd_run env e evs = (b, m)"
  shows "backend_inv env view b m"
  using assms(3,4)
proof (induction evs arbitrary: b m rule: rev_induct)
  case Nil
  then show ?case using assms(2) by (auto simp: etcd_run_def backend_inv_def etcd_inv_def lease_ids_def)
next
  case (snoc ev evs)
  obtain b0 m0 where r: "etcd_run env e evs = (b0, m0)" by force
  with snoc have "backend_inv env view b0 m0" by simp
  moreover have "b = etcd_step env b0 ev" "m = node_map_step env b0 m0 ev"
    using snoc.prems(2) r by (simp_all add: etcd_run_def)
  ultimately show ?case using etcd_step_inv [OF assms(1)] snoc.prems(1) by simp
qed

section \<open>Discovery\<close>

lemma read_entry_Some:
  assumes "etcd_inv env v ids m" "plain s" "prefix (etcd_prefix s) k" "ev_kv v k = Some (json, l)"
  shows "\<exists>n x. k = etcd_key s n \<and> read_entry env s (k, json) = Some (n, x) \<and> m (s, n) = Some x"
proof -
  obtain s' n where k: "k = etcd_key s' n" "plain s'" using inv_key [OF assms(1,4)] by blast
  then have s: "s' = s" using prefix_key [OF assms(2) k(2)] assms(3) by simp
  then have "m (s, n) \<noteq> None" using inv_key_lease [OF assms(1,2)] assms(4) k(1) by blast
  then obtain x where x: "m (s, n) = Some x" by blast
  with inv_node [OF assms(1) x] assms(4) k(1) s have "ee_read env json = Some x" by auto
  with k(1) s x show ?thesis by (auto simp: read_entry_def strip_key)
qed

lemma discover_nodes:
  assumes "etcd_ok env view" "backend_inv env view b m" "plain s"
  shows "set (fst (etcd_discover env b s)) = {(n, x). m (s, n) = Some x}"
proof -
  let ?v = "view (eb_client b)"
  note inv = assms(2) [unfolded backend_inv_def]
  obtain r e' where e: "ee_exec env (eb_client b) (GetPrefix (etcd_prefix s)) = (r, e')" by force
  from etcd_answer [OF assms(1) e] obtain kvs where kvs: "r = EKvs kvs"
    "set kvs = {(k, x) | k x. prefix (etcd_prefix s) k \<and> (\<exists>l. ev_kv ?v k = Some (x, l))}" by auto
  have "(n, x) \<in> set (List.map_filter (read_entry env s) kvs) \<longleftrightarrow> m (s, n) = Some x" for n x
  proof
    assume "(n, x) \<in> set (List.map_filter (read_entry env s) kvs)"
    then obtain k json l where k: "prefix (etcd_prefix s) k" "ev_kv ?v k = Some (json, l)" "read_entry env s (k, json) = Some (n, x)"
      using kvs(2) by (auto simp: map_filter_def image_iff)
    with read_entry_Some [OF inv assms(3) k(1,2)] show "m (s, n) = Some x" by auto
  next
    assume m: "m (s, n) = Some x"
    from inv_node [OF inv m] obtain json l where k: "ev_kv ?v (etcd_key s n) = Some (json, l)" "ee_read env json = Some x" by blast
    then have "(etcd_key s n, json) \<in> set kvs" using kvs(2) prefix_key [OF assms(3,3)] by auto
    moreover have "read_entry env s (etcd_key s n, json) = Some (n, x)" using k(2) by (simp add: read_entry_def strip_key)
    ultimately show "(n, x) \<in> set (List.map_filter (read_entry env s) kvs)" by (force simp: map_filter_def)
  qed
  with e kvs(1) show ?thesis by (auto simp: etcd_discover_def)
qed

lemma heartbeat_node:
  assumes "etcd_ok env view" "backend_inv env view b m" "plain s"
  shows "fst (etcd_heartbeat env b s n) \<longleftrightarrow> m (s, n) \<noteq> None"
proof -
  let ?v = "view (eb_client b)"
  note inv = assms(2) [unfolded backend_inv_def]
  obtain r e' where e: "ee_exec env (eb_client b) (GetKey (etcd_key s n)) = (r, e')" by force
  from etcd_answer [OF assms(1) e] have r: "r = EKvs (case ev_kv ?v (etcd_key s n) of None \<Rightarrow> [] | Some (x, _) \<Rightarrow> [(etcd_key s n, x)])"
    by simp
  show ?thesis
  proof (cases "m (s, n)")
    case (Some x)
    from inv_node [OF inv Some] obtain json l where "ev_kv ?v (etcd_key s n) = Some (json, l)" "lease_ids b (s, n) = Some l" by blast
    with Some e r show ?thesis by (auto simp: etcd_heartbeat_def lease_ids_def)
  next
    case None
    then have "ev_kv ?v (etcd_key s n) = None"
      using inv_key_lease [OF inv assms(3), of n] by (cases "ev_kv ?v (etcd_key s n)") auto
    with None e r show ?thesis by (auto simp: etcd_heartbeat_def split: option.splits)
  qed
qed

text \<open>Of a registration both backends keep the same node.\<close>

lemma srv_discover_registered:
  assumes "etcd_ok env view" "backend_inv env view e m" "plain s" "writable env (addr, meta)"
    and "srv_register env (OnEtcd e) s n addr meta ttl now = (True, b)"
  shows "\<lparr>ni_node_id = n, ni_addr = addr, ni_meta = meta\<rparr> \<in> set (fst (srv_discover env it b s))"
proof -
  obtain e' where r: "etcd_register env e s n addr meta (register_ttl ttl) = (True, e')" "b = OnEtcd e'"
    using assms(5) by (cases "etcd_register env e s n addr meta (register_ttl ttl)") (auto simp: srv_register_def)
  have "(n, addr, meta) \<in> set (fst (etcd_discover env e' s))"
    using discover_nodes [OF assms(1) register_inv [OF assms(1-4) r(1)] assms(3)] by simp
  with r(2) show ?thesis by (force simp: srv_discover_def split: prod.splits)
qed

lemma srv_memory:
  "srv_register env (InMemory st) s n addr meta ttl now = (True, InMemory (svc_register st s n addr meta ttl now))"
  "fst (srv_discover env it (InMemory st) s) = svc_discover it st s"
  by (simp_all add: srv_register_def srv_discover_def)

text \<open>
  C13: The registry on etcd is a map of nodes: on an etcd that behaves as documented, in every state
  reached by registrations (which may fail), heartbeats, renewals, failing keepers, removals and
  lapses of leases, discovery returns exactly the nodes of the service that registered and whose lease
  has not lapsed, with their address and data, and a heartbeat is accepted exactly for those.
\<close>

theorem etcd_registry_exact:
  assumes "etcd_ok env view" "view e = \<lparr>ev_kv = Map.empty, ev_live = {}, ev_used = {}\<rparr>"
    and "\<forall>ev\<in>set evs. event_plain env ev" "etcd_run env e evs = (b, m)" "plain s"
  shows "set (fst (etcd_discover env b s)) = {(n, x). m (s, n) = Some x} \<and>
    (fst (etcd_heartbeat env b s n) \<longleftrightarrow> m (s, n) \<noteq> None)"
  using discover_nodes [OF assms(1) etcd_run_inv [OF assms(1-4)] assms(5)]
    heartbeat_node [OF assms(1) etcd_run_inv [OF assms(1-4)] assms(5)] by blast

section \<open>A concrete etcd\<close>

record toy_etcd =
  te_kv :: "(string \<times> string \<times> i64) list"
  te_live :: "i64 list"
  te_used :: "i64 list"

definition toy_view :: "toy_etcd \<Rightarrow> etcd_view" where
  "toy_view e = \<lparr>ev_kv = map_of (te_kv e), ev_live = set (te_live e), ev_used = set (te_used e)\<rparr>"

definition toy_end :: "toy_etcd \<Rightarrow> i64 \<Rightarrow> toy_etcd" where
  "toy_end e l = e\<lparr>te_kv := filter (\<lambda>(_, _, l'). l' \<noteq> l) (AList.clearjunk (te_kv e)), te_live := removeAll l (te_live e)\<rparr>"

fun toy_exec :: "toy_etcd \<Rightarrow> etcd_cmd \<Rightarrow> etcd_reply \<times> toy_etcd" where
  "toy_exec e (LeaseGrant ttl) =
     (case find (\<lambda>l. l \<notin> set (te_used e)) (map word_of_nat [0..<Suc (length (te_used e))]) of
        None \<Rightarrow> (EError, e)
      | Some l \<Rightarrow> (ELease l, e\<lparr>te_live := l # te_live e, te_used := l # te_used e\<rparr>))"
| "toy_exec e (LeaseRevoke l) = (if l \<in> set (te_live e) then (EDone, toy_end e l) else (EError, e))"
| "toy_exec e (KeepAlive l) = (if l \<in> set (te_live e) then EDone else EError, e)"
| "toy_exec e (Put k x l) =
     (if l \<in> set (te_live e) then (EDone, e\<lparr>te_kv := AList.update k (x, l) (te_kv e)\<rparr>) else (EError, e))"
| "toy_exec e (GetKey k) = (EKvs (case map_of (te_kv e) k of None \<Rightarrow> [] | Some (x, _) \<Rightarrow> [(k, x)]), e)"
| "toy_exec e (GetPrefix p) =
     (EKvs (map (\<lambda>(k, x, _). (k, x)) (filter (\<lambda>(k, _). prefix p k) (AList.clearjunk (te_kv e)))), e)"
| "toy_exec e (Delete k) = (EDone, e\<lparr>te_kv := AList.delete k (te_kv e)\<rparr>)"

definition toy_env :: "toy_etcd etcd_env" where
  "toy_env = \<lparr>ee_exec = toy_exec, ee_lapse = toy_end, ee_show = (\<lambda>(addr, _). Some addr), ee_read = (\<lambda>s. Some (s, Map.empty))\<rparr>"

lemma clearjunk_set: "(k, v) \<in> set (AList.clearjunk xs) \<longleftrightarrow> map_of xs k = Some v"
  by (metis distinct_clearjunk map_of_clearjunk map_of_eq_Some_iff)

lemma map_of_kept:
  "map_of (filter (\<lambda>(_, _, l'). l' \<noteq> l) (AList.clearjunk xs)) k =
     (case map_of xs k of Some (x, l') \<Rightarrow> if l' = l then None else Some (x, l') | None \<Rightarrow> None)"
proof -
  let ?ys = "filter (\<lambda>(_, _, l'). l' \<noteq> l) (AList.clearjunk xs)"
  have "distinct (map fst ?ys)" by (simp add: distinct_map_filter)
  then have "map_of ?ys k = Some v \<longleftrightarrow> (k, v) \<in> set ?ys" for v by (rule map_of_eq_Some_iff)
  moreover have "(k, v) \<in> set ?ys \<longleftrightarrow> map_of xs k = Some v \<and> snd v \<noteq> l" for v
    by (cases v) (simp add: clearjunk_set)
  ultimately have e: "map_of ?ys k = Some v \<longleftrightarrow> map_of xs k = Some v \<and> snd v \<noteq> l" for v by blast
  show ?thesis
  proof (cases "map_of xs k")
    case None
    with e show ?thesis by (cases "map_of ?ys k") auto
  next
    case (Some v)
    have "map_of ?ys k = (if snd v = l then None else Some v)"
    proof (cases "snd v = l")
      case True
      then have "map_of ?ys k \<noteq> Some w" for w using e [of w] Some by auto
      with True show ?thesis by (metis not_None_eq)
    qed (use e [of v] Some in simp)
    then show ?thesis unfolding Some by (cases v) simp
  qed
qed

lemma toy_lapse: "toy_view (toy_end e l) = lapsed l (toy_view e)"
  by (auto simp: toy_view_def toy_end_def lapsed_def map_of_kept intro!: ext split: option.splits)

lemma toy_ok: "etcd_ok toy_env toy_view"
  unfolding etcd_ok_def
proof (intro conjI allI)
  fix e c
  have "etcd_rel (toy_view e) c (fst (toy_exec e c)) (toy_view (snd (toy_exec e c)))"
  proof (cases c)
    case (LeaseGrant ttl)
    then show ?thesis by (auto simp: toy_view_def find_Some_iff split: option.splits)
  next
    case (LeaseRevoke l)
    then show ?thesis by (simp add: toy_lapse) (simp add: toy_view_def)
  next
    case (GetPrefix p)
    have "distinct (map fst (filter (\<lambda>(k, _). prefix p k) (AList.clearjunk (te_kv e))))"
      by (simp add: distinct_map_filter)
    moreover have "map fst (map (\<lambda>(k, x, _). (k, x)) ys) = map fst ys" for ys :: "(string \<times> string \<times> i64) list"
      by auto
    ultimately show ?thesis
      using GetPrefix by (auto simp: toy_view_def clearjunk_set image_iff simp del: map_map)
  qed (auto simp: toy_view_def update_conv' delete_conv' split: option.splits)
  then show "etcd_rel (toy_view e) c (fst (ee_exec toy_env e c)) (toy_view (snd (ee_exec toy_env e c)))"
    by (simp add: toy_env_def)
qed (simp add: toy_env_def toy_lapse)

definition toy_new :: toy_etcd where
  "toy_new = \<lparr>te_kv = [], te_live = [], te_used = []\<rparr>"

definition toy_events :: "etcd_event list" where
  "toy_events = [ERegister ''room'' ''r1'' ''h:1'' Map.empty 10, ERegister ''room'' ''r2'' ''h:2'' Map.empty 10, ELapse 0]"

theorem etcd_registry_exact_witness:
  "\<exists>b m. etcd_run toy_env toy_new toy_events = (b, m) \<and> m = [(''room'', ''r2'') \<mapsto> (''h:2'', Map.empty)] \<and>
     set (fst (etcd_discover toy_env b ''room'')) = {(''r2'', ''h:2'', Map.empty)} \<and>
     \<not> fst (etcd_heartbeat toy_env b ''room'' ''r1'')"
proof -
  obtain b m where r: "etcd_run toy_env toy_new toy_events = (b, m)" by force
  have m: "m = [(''room'', ''r2'') \<mapsto> (''h:2'', Map.empty)]"
    using r by (auto simp: etcd_run_def toy_events_def toy_new_def toy_env_def etcd_register_def revoke_old_def Let_def)
  have v: "toy_view toy_new = \<lparr>ev_kv = Map.empty, ev_live = {}, ev_used = {}\<rparr>"
    by (simp add: toy_view_def toy_new_def)
  have p: "\<forall>ev\<in>set toy_events. event_plain toy_env ev" "plain ''room''"
    by (simp_all add: toy_events_def plain_def writable_def toy_env_def)
  from etcd_registry_exact [OF toy_ok v p(1) r p(2), of "''r1''"] m r show ?thesis by (auto split: if_splits)
qed

end
