(* ===== verification/Kcp.thy ===== *)
theory Kcp
  imports Gateway_Safety Registry
begin

text \<open>
  The gateway's \<open>kcp.rs\<close>, the KCP side of \<open>session.rs\<close>, and the task of \<open>main.rs\<close> that reads the
  UDP socket.

  \<^item> The \<open>kcp\<close> crate is a parameter: \<open>kcp_lib\<close> has the calls the code makes, on a state \<open>'k\<close>.
    \<open>kl_update\<close> gets which of its writes the socket takes and returns what it wrote.
  \<^item> A conversation is an object under the number that stands for its \<open>Arc\<close>; the table itself is
    \<open>gw_kcp\<close> of the gateway.  \<open>drive\<close> is one turn of the driver task.  The loop that empties the
    receive queue ends when the library says so; \<open>drain\<close> is \<open>None\<close> when it never does.
  \<^item> \<open>kcp_sys\<close> is the gateway with its conversations, drivers and spawned datagram tasks, and
    \<open>kcp_step\<close> one piece of one of them.
\<close>

section \<open>The library and one conversation\<close>

record 'k kcp_lib =
  kl_new :: "u32 \<Rightarrow> 'k"
  kl_nodelay :: "bool \<Rightarrow> i32 \<Rightarrow> i32 \<Rightarrow> bool \<Rightarrow> 'k \<Rightarrow> 'k"
  kl_wndsize :: "u16 \<Rightarrow> u16 \<Rightarrow> 'k \<Rightarrow> 'k"
  kl_send :: "bytes \<Rightarrow> 'k \<Rightarrow> (string + nat) \<times> 'k"
  kl_input :: "bytes \<Rightarrow> 'k \<Rightarrow> (string + nat) \<times> 'k"
  kl_update :: "(nat \<Rightarrow> bool) \<Rightarrow> u32 \<Rightarrow> 'k \<Rightarrow> (string + unit) \<times> bytes list \<times> 'k"
  kl_recv :: "nat \<Rightarrow> 'k \<Rightarrow> (string + bytes) \<times> 'k"

record kcp_cfg =
  kc_interval :: i32
  kc_resend :: i32
  kc_nc :: bool

record 'k kcp_conv =
  kv_addr :: sock_addr      \<comment> \<open>the address \<open>UdpOutput\<close> writes to\<close>
  kv_lib :: 'k

definition kcp_session_new :: "'k kcp_lib \<Rightarrow> kcp_cfg \<Rightarrow> u32 \<Rightarrow> sock_addr \<Rightarrow> 'k kcp_conv" where
  "kcp_session_new lib cfg conv addr =
     \<lparr>kv_addr = addr,
      kv_lib = kl_wndsize lib 128 128
        (kl_nodelay lib True (kc_interval cfg) (kc_resend cfg) (kc_nc cfg) (kl_new lib conv))\<rparr>"

text \<open>\<open>UdpOutput::write\<close>: what the socket does not take at once is an error for the library, and lost.\<close>

definition udp_output :: "sock_addr \<Rightarrow> (nat \<Rightarrow> bool) \<Rightarrow> bytes list \<Rightarrow> (sock_addr \<times> bytes) list" where
  "udp_output addr ready ws = map (\<lambda>(i, b). (addr, b)) (filter (\<lambda>(i, b). ready i) (enumerate 0 ws))"

definition send_packet :: "'k kcp_lib \<Rightarrow> 'k kcp_conv \<Rightarrow> bytes \<Rightarrow> bool \<times> 'k kcp_conv" where
  "send_packet lib v data = (case kl_send lib data (kv_lib v) of
     (Inl _, k) \<Rightarrow> (False, v\<lparr>kv_lib := k\<rparr>) | (Inr _, k) \<Rightarrow> (True, v\<lparr>kv_lib := k\<rparr>))"

definition input_packet :: "'k kcp_lib \<Rightarrow> 'k kcp_conv \<Rightarrow> bytes \<Rightarrow> 'k kcp_conv" where
  "input_packet lib v data = v\<lparr>kv_lib := snd (kl_input lib data (kv_lib v))\<rparr>"

text \<open>\<open>as_millis() as u32\<close> keeps the low 32 bits.\<close>

definition now_ms :: "nat \<Rightarrow> u32" where
  "now_ms millis = word_of_nat millis"

definition RECV_BUFFER :: nat where "RECV_BUFFER = 4096"

partial_function (option) drain :: "'k kcp_lib \<Rightarrow> 'k \<Rightarrow> (bytes list \<times> 'k) option" where
  "drain lib k =
     (case kl_recv lib RECV_BUFFER k of
        (Inl _, k') \<Rightarrow> Some ([], k')
      | (Inr b, k') \<Rightarrow> Option.bind (drain lib k') (\<lambda>(bs, k''). Some (b # bs, k'')))"

text \<open>One turn: \<open>update\<close>, whatever it answers, and the messages that are complete.\<close>

definition drive :: "'k kcp_lib \<Rightarrow> (nat \<Rightarrow> bool) \<Rightarrow> nat \<Rightarrow> 'k kcp_conv \<Rightarrow>
    (bytes list \<times> (sock_addr \<times> bytes) list \<times> 'k kcp_conv) option" where
  "drive lib ready millis v =
     (case kl_update lib ready (now_ms millis) (kv_lib v) of
        (_, ws, k1) \<Rightarrow>
          map_option (\<lambda>(ps, k2). (ps, udp_output (kv_addr v) ready ws, v\<lparr>kv_lib := k2\<rparr>)) (drain lib k1))"

section \<open>The gateway with its conversations\<close>

text \<open>A datagram is handled in a task of its own; so is every packet out of a conversation.\<close>

datatype dgram_task = PacketTask sock_addr bytes | KcpTask u32 sock_addr bytes

record kcp_driver =
  dr_conv :: u32
  dr_arc :: nat
  dr_src :: sock_addr       \<comment> \<open>the source address \<open>on_data\<close> has captured\<close>

record 'k kcp_sys =
  ks_sys :: gw_sys
  ks_objs :: "nat \<Rightarrow> 'k kcp_conv"
  ks_drivers :: "kcp_driver list"
  ks_tasks :: "dgram_task list"

definition ks_gw :: "'k kcp_sys \<Rightarrow> gateway" where
  "ks_gw s = gs_gw (ks_sys s)"

definition set_gw :: "'k kcp_sys \<Rightarrow> gateway \<Rightarrow> 'k kcp_sys" where
  "set_gw s gw = s\<lparr>ks_sys := (ks_sys s)\<lparr>gs_gw := gw\<rparr>\<rparr>"

text \<open>The task that reads the socket: a buffer of two datagrams' length, and the magic bytes.\<close>

definition udp_reader :: "'k kcp_sys \<Rightarrow> sock_addr \<Rightarrow> bytes \<Rightarrow> 'k kcp_sys" where
  "udp_reader s src dgram =
     (let data = take (MAX_DATAGRAM * 2) dgram
      in case classify_datagram data of
           RawUdp \<Rightarrow> s\<lparr>ks_tasks := ks_tasks s @ [PacketTask src data]\<rparr>
         | KcpPacket conv \<Rightarrow> s\<lparr>ks_tasks := ks_tasks s @ [KcpTask conv src data]\<rparr>
         | Ignored \<Rightarrow> s)"

text \<open>The branch of \<open>handle_kcp_datagram\<close> for a conversation that is not in the table.\<close>

definition open_conv :: "'k kcp_lib \<Rightarrow> kcp_cfg \<Rightarrow> 'k kcp_sys \<Rightarrow> u32 \<Rightarrow> sock_addr \<Rightarrow> nat \<times> 'k kcp_sys" where
  "open_conv lib cfg s conv src =
     (let gw = ks_gw s; a = gw_next_arc gw
      in (a, (set_gw s (gw\<lparr>gw_kcp := (gw_kcp gw)(conv \<mapsto> a), gw_next_arc := Suc a\<rparr>))
               \<lparr>ks_objs := (ks_objs s)(a := kcp_session_new lib cfg conv src),
                ks_drivers := ks_drivers s @ [\<lparr>dr_conv = conv, dr_arc = a, dr_src = src\<rparr>]\<rparr>))"

text \<open>\<open>late\<close>: another task opened the conversation between this task's look-up and its insert.\<close>

definition kcp_datagram :: "'k kcp_lib \<Rightarrow> kcp_cfg \<Rightarrow> bool \<Rightarrow> 'k kcp_sys \<Rightarrow> u32 \<Rightarrow> sock_addr \<Rightarrow> bytes \<Rightarrow> 'k kcp_sys" where
  "kcp_datagram lib cfg late s conv src data =
     (case (case gw_kcp (ks_gw s) conv of
              Some a \<Rightarrow> if late then open_conv lib cfg s conv src else (a, s)
            | None \<Rightarrow> open_conv lib cfg s conv src) of
        (a, s') \<Rightarrow> s'\<lparr>ks_objs := (ks_objs s')(a := input_packet lib (ks_objs s' a) data)\<rparr>)"

datatype kcp_effect = Sent gw_effect | Wire sock_addr bytes

text \<open>The \<open>i\<close>th driver's turn, and its end when the table has no longer its conversation.\<close>

definition driver_turn :: "'k kcp_lib \<Rightarrow> 'k kcp_sys \<Rightarrow> nat \<Rightarrow> (nat \<Rightarrow> bool) \<Rightarrow> nat \<Rightarrow> 'k kcp_sys \<times> kcp_effect list" where
  "driver_turn lib s i ready millis =
     (let d = ks_drivers s ! i
      in case drive lib ready millis (ks_objs s (dr_arc d)) of
           None \<Rightarrow> (s, [])
         | Some (ps, ws, v) \<Rightarrow>
             (s\<lparr>ks_objs := (ks_objs s)(dr_arc d := v),
                ks_tasks := ks_tasks s @ map (PacketTask (dr_src d)) ps,
                ks_drivers := (if gw_kcp (ks_gw s) (dr_conv d) = Some (dr_arc d) then ks_drivers s
                               else remove_nth i (ks_drivers s))\<rparr>,
              map (\<lambda>(a, b). Wire a b) ws))"

definition run_task :: "'k kcp_lib \<Rightarrow> kcp_cfg \<Rightarrow> bool \<Rightarrow> gw_env \<Rightarrow> 'k kcp_sys \<Rightarrow> dgram_task \<Rightarrow>
    'k kcp_sys \<times> kcp_effect list" where
  "run_task lib cfg late env s t =
     (case t of
        KcpTask conv src data \<Rightarrow> (kcp_datagram lib cfg late s conv src data, [])
      | PacketTask src data \<Rightarrow>
          (case handle_packet env (ks_gw s) src data of (_, gw', es) \<Rightarrow> (set_gw s gw', map Sent es)))"

text \<open>A push of a service: \<open>send_kcp\<close> asks the library when the push prefers UDP.\<close>

definition kcp_push :: "'k kcp_lib \<Rightarrow> 'k kcp_sys \<Rightarrow> bool \<Rightarrow> push_request \<Rightarrow> bool \<times> 'k kcp_sys \<times> kcp_effect list" where
  "kcp_push lib s udp_up req =
     (let gw = ks_gw s;
          conv = (if pq_udp req
                  then (case gw_sessions gw (pq_conn_id req) of
                          None \<Rightarrow> None
                        | Some a \<Rightarrow> map_option (\<lambda>k. (k, peer_packet (so_conn_id (gw_objs gw a)) (pq_msg_id req) (pq_payload req)))
                                      (gw_kcp gw (so_conn_id (gw_objs gw a))))
                  else None);
          (ok, s') = (case conv of
                        None \<Rightarrow> (False, s)
                      | Some (k, pkt) \<Rightarrow>
                          (case send_packet lib (ks_objs s k) pkt of
                             (ok, v) \<Rightarrow> (ok, s\<lparr>ks_objs := (ks_objs s)(k := v)\<rparr>)));
          (taken, es) = route_push gw ok udp_up req
      in (taken, s', map Sent es))"

text \<open>
  \<open>push_stream\<close>: the task of one service takes its pushes in order and answers each, until the
  stream ends or nobody takes its answers any more (\<open>open_end\<close>); each push comes with whether
  the queue of datagrams takes one more.
\<close>

fun kcp_push_stream :: "'k kcp_lib \<Rightarrow> 'k kcp_sys \<Rightarrow> (bool \<times> bool \<times> push_request) list \<Rightarrow>
    bool list \<times> 'k kcp_sys \<times> kcp_effect list" where
  "kcp_push_stream lib s [] = ([], s, [])"
| "kcp_push_stream lib s ((udp_up, open_end, req) # reqs) =
     (case kcp_push lib s udp_up req of
        (ok, s1, es1) \<Rightarrow>
          if open_end
          then (case kcp_push_stream lib s1 reqs of (oks, s2, es2) \<Rightarrow> (ok # oks, s2, es1 @ es2))
          else ([], s1, es1))"

datatype kcp_event =
    KGateway gw_event               \<comment> \<open>any step of the gateway that is not one of the following\<close>
  | KDatagram sock_addr bytes       \<comment> \<open>a datagram on the socket\<close>
  | KRun nat bool gw_env            \<comment> \<open>a datagram task\<close>
  | KTurn nat "nat \<Rightarrow> bool" nat     \<comment> \<open>a turn of a driver\<close>
  | KPush bool push_request

text \<open>Datagrams and pushes have their own steps here.\<close>

definition plain_event :: "gw_event \<Rightarrow> bool" where
  "plain_event e \<longleftrightarrow> (case e of GKcp _ \<Rightarrow> False | GPacket _ _ _ \<Rightarrow> False | GPush _ _ _ \<Rightarrow> False | _ \<Rightarrow> True)"

fun kcp_step :: "'k kcp_lib \<Rightarrow> kcp_cfg \<Rightarrow> 'k kcp_sys \<Rightarrow> kcp_event \<Rightarrow> 'k kcp_sys \<times> kcp_effect list" where
  "kcp_step lib cfg s (KGateway e) =
     (if plain_event e
      then (case gw_step (ks_sys s) e of (g, es) \<Rightarrow> (s\<lparr>ks_sys := g\<rparr>, map Sent es)) else (s, []))"
| "kcp_step lib cfg s (KDatagram src dgram) = (udp_reader s src dgram, [])"
| "kcp_step lib cfg s (KRun i late env) =
     (if i < length (ks_tasks s)
      then run_task lib cfg late env (s\<lparr>ks_tasks := remove_nth i (ks_tasks s)\<rparr>) (ks_tasks s ! i) else (s, []))"
| "kcp_step lib cfg s (KTurn i ready millis) =
     (if i < length (ks_drivers s) then driver_turn lib s i ready millis else (s, []))"
| "kcp_step lib cfg s (KPush udp_up req) = snd (kcp_push lib s udp_up req)"

definition kcp_run :: "'k kcp_lib \<Rightarrow> kcp_cfg \<Rightarrow> 'k kcp_sys \<Rightarrow> kcp_event list \<Rightarrow> 'k kcp_sys" where
  "kcp_run lib cfg s es = foldl (\<lambda>s e. fst (kcp_step lib cfg s e)) s es"

definition kcp_start :: "u8 \<Rightarrow> string \<Rightarrow> bool \<Rightarrow> (nat \<Rightarrow> 'k kcp_conv) \<Rightarrow> 'k kcp_sys" where
  "kcp_start gid secret has_dir none =
     \<lparr>ks_sys = gw_start gid secret has_dir, ks_objs = none, ks_drivers = [], ks_tasks = []\<rparr>"

lemma kcp_run_simps [simp]:
  "kcp_run lib cfg s [] = s"
  "kcp_run lib cfg s (e # es) = kcp_run lib cfg (fst (kcp_step lib cfg s e)) es"
  "kcp_run lib cfg s (es @ fs) = kcp_run lib cfg (kcp_run lib cfg s es) fs"
  by (simp_all add: kcp_run_def)

lemma ks_gw_simps [simp]:
  "ks_gw (set_gw s gw) = gw" "ks_objs (set_gw s gw) = ks_objs s"
  "ks_drivers (set_gw s gw) = ks_drivers s" "ks_tasks (set_gw s gw) = ks_tasks s"
  "ks_gw (s\<lparr>ks_objs := x\<rparr>) = ks_gw s" "ks_gw (s\<lparr>ks_drivers := ds\<rparr>) = ks_gw s" "ks_gw (s\<lparr>ks_tasks := ts\<rparr>) = ks_gw s"
  "ks_gw (s\<lparr>ks_sys := g\<rparr>) = gs_gw g"
  by (simp_all add: ks_gw_def set_gw_def)

text \<open>The table changes exactly as \<open>Gateway.handle_kcp_datagram\<close> says.\<close>

lemma kcp_datagram_table:
  "ks_gw (kcp_datagram lib cfg False s conv src data) = handle_kcp_datagram (ks_gw s) conv"
  by (simp add: kcp_datagram_def handle_kcp_datagram_def open_conv_def Let_def split: option.splits)

end
