(* ===== verification/Client.thy ===== *)
theory Client
  imports Kcp
begin

text \<open>
  The client library of \<open>grimoire-sim/src/client.rs\<close>: requests and their answers over one
  connection, the three handshakes with the gateway, and the datagrams of the battle.

  \<^item> A waiting request is a number that stands for its \<open>oneshot\<close> channel.  A request is two steps,
    \<open>begin_request\<close> and \<open>end_request\<close>, because the reader runs in between.
  \<^item> \<open>on_server_frame\<close> is one frame in the task that reads the connection.
  \<^item> The encoding of a \<open>BattleInputReq\<close> and the KCP library (\<open>kcp_lib\<close> of \<open>Kcp\<close>) are parameters; the error texts are bytes.
\<close>

record client =
  cl_open :: bool              \<comment> \<open>the task that writes still takes frames\<close>
  cl_reading :: bool           \<comment> \<open>the task that reads has not ended\<close>
  cl_responses :: "u32 \<rightharpoonup> nat"
  cl_seq :: u32
  cl_conn_id :: u32

definition client_new :: client where
  "client_new = \<lparr>cl_open = True, cl_reading = True, cl_responses = Map.empty, cl_seq = 1, cl_conn_id = 0\<rparr>"

definition set_conn_id :: "client \<Rightarrow> u32 \<Rightarrow> client" where
  "set_conn_id cl cid = cl\<lparr>cl_conn_id := cid\<rparr>"

section \<open>Requests\<close>

definition begin_request :: "client \<Rightarrow> u32 \<Rightarrow> bytes \<Rightarrow> nat \<Rightarrow> (bytes + frame) \<times> client" where
  "begin_request cl msg_id payload w =
     (let seq = cl_seq cl;
          cl' = cl\<lparr>cl_seq := cl_seq cl + 1, cl_responses := (cl_responses cl)(seq \<mapsto> w)\<rparr>
      in if cl_open cl
         then (Inr \<lparr>f_ptype = Request, f_msg_id = msg_id, f_seq = seq, f_payload = payload\<rparr>, cl')
         else (Inl (string_bytes ''send''), cl'))"

datatype answer = Answered frame | NoAnswer | AnswerDropped

definition end_request :: "answer \<Rightarrow> bytes + frame" where
  "end_request r =
     (case r of
        NoAnswer \<Rightarrow> Inl (string_bytes ''timeout waiting response'')
      | AnswerDropped \<Rightarrow> Inl (string_bytes ''channel closed'')
      | Answered f \<Rightarrow>
          if f_msg_id f = 0 then Inl (string_bytes ''server error: '' @ lossy (f_payload f)) else Inr f)"

text \<open>What the reader hands on: an answer to its request, or a push to the subscribers.\<close>

datatype client_effect = Hand nat frame | Publish frame

definition on_server_frame :: "client \<Rightarrow> frame \<Rightarrow> client_effect list \<times> client" where
  "on_server_frame cl f =
     (if \<not> cl_reading cl then ([], cl)
      else case f_ptype f of
        Response \<Rightarrow>
          (case cl_responses cl (f_seq f) of
             Some w \<Rightarrow> ([Hand w f], cl\<lparr>cl_responses := (cl_responses cl)(f_seq f := None)\<rparr>)
           | None \<Rightarrow> ([], cl))
      | Push \<Rightarrow>
          if f_msg_id f = SYS_CONN_ID \<and> length (f_payload f) = 4
          then ([], cl\<lparr>cl_conn_id := from_be_bytes (f_payload f ! 0) (f_payload f ! 1) (f_payload f ! 2) (f_payload f ! 3)\<rparr>)
          else ([Publish f], cl)
      | Close \<Rightarrow> ([], cl\<lparr>cl_reading := False\<rparr>)
      | _ \<Rightarrow> ([], cl))"

text \<open>\<open>wait_conn_id\<close>: twenty looks at the number, five milliseconds apart.\<close>

definition wait_conn_id :: "(nat \<Rightarrow> u32) \<Rightarrow> u32" where
  "wait_conn_id reads = (case find (\<lambda>i. reads i \<noteq> 0) [0..<20] of Some i \<Rightarrow> reads i | None \<Rightarrow> 0)"

definition heartbeat_frame :: frame where
  "heartbeat_frame = \<lparr>f_ptype = Heartbeat, f_msg_id = 0, f_seq = 0, f_payload = []\<rparr>"

section \<open>Handshakes\<close>

definition resume_begin :: "client \<Rightarrow> u32 \<Rightarrow> nat \<Rightarrow> (bytes + frame) \<times> client" where
  "resume_begin cl old_conn_id w = begin_request cl SYS_RESUME (be_bytes old_conn_id) w"

definition resume_end :: "client \<Rightarrow> answer \<Rightarrow> (bytes + unit) \<times> client" where
  "resume_end cl r =
     (case end_request r of
        Inl e \<Rightarrow> (Inl e, cl)
      | Inr f \<Rightarrow>
          if f_msg_id f = SYS_RESUME \<and> length (f_payload f) = 4
          then (Inr (), set_conn_id cl
                  (from_be_bytes (f_payload f ! 0) (f_payload f ! 1) (f_payload f ! 2) (f_payload f ! 3)))
          else (Inl (string_bytes ''resume failed: '' @ lossy (f_payload f)), cl))"

definition bind_begin :: "client \<Rightarrow> u32 \<Rightarrow> u32 \<Rightarrow> nat \<Rightarrow> (bytes + frame) \<times> client" where
  "bind_begin cl domain session_id w =
     begin_request cl SYS_BIND_SESSION (ucast (drop_bit 24 domain) # be_bytes session_id) w"

definition bind_end :: "answer \<Rightarrow> bytes + unit" where
  "bind_end r =
     (case end_request r of
        Inl e \<Rightarrow> Inl e
      | Inr f \<Rightarrow> if f_msg_id f = SYS_BIND_SESSION then Inr () else Inl (string_bytes ''bind session failed''))"

definition auth_begin :: "client \<Rightarrow> string \<Rightarrow> nat \<Rightarrow> (bytes + frame) \<times> client" where
  "auth_begin cl token w = begin_request cl SYS_AUTH (string_bytes token) w"

definition auth_end :: "answer \<Rightarrow> bytes + unit" where
  "auth_end r =
     (case end_request r of
        Inl e \<Rightarrow> Inl e
      | Inr f \<Rightarrow> if f_msg_id f = SYS_AUTH then Inr () else Inl (string_bytes ''auth failed''))"

section \<open>Datagrams\<close>

definition udp_bind_packet :: "u32 \<Rightarrow> bytes" where
  "udp_bind_packet conn_id = peer_packet conn_id BATTLE_INPUT []"

definition udp_input_packet :: "u32 \<Rightarrow> bytes \<Rightarrow> bytes" where
  "udp_input_packet conn_id input = peer_packet conn_id BATTLE_INPUT input"

text \<open>One datagram of the socket, cut to the size of the buffer; one message out of KCP.\<close>

definition udp_recv_push :: "bytes \<Rightarrow> (u32 \<times> u32 \<times> bytes) option" where
  "udp_recv_push dgram = parse_push_datagram (take MAX_DATAGRAM dgram)"

definition kcp_recv_push :: "bytes \<Rightarrow> (u32 \<times> u32 \<times> bytes) option" where
  "kcp_recv_push pkt = map_option (\<lambda>(_, msg_id, p). (msg_id, 0, p)) (parse_peer_packet pkt)"

section \<open>Input over KCP\<close>

text \<open>
  \<open>UdpKcp\<close>: the library's state behind its mutex and the channel of received messages.  The
  channel's bound only makes the driver wait, so the queue of \<open>uk_frames\<close> has none.
\<close>

record 'k udp_kcp =
  uk_lib :: 'k
  uk_conn_id :: u32
  uk_addr :: sock_addr
  uk_frames :: "bytes list"

text \<open>\<open>bind_with\<close>: a new conversation, and a first packet, which opens it at the gateway.\<close>

definition udp_kcp_new :: "'k kcp_lib \<Rightarrow> kcp_cfg \<Rightarrow> u32 \<Rightarrow> 'k" where
  "udp_kcp_new lib cfg conn_id =
     kl_wndsize lib 128 128 (kl_nodelay lib True (kc_interval cfg) (kc_resend cfg) (kc_nc cfg) (kl_new lib conn_id))"

definition udp_kcp_bind :: "'k kcp_lib \<Rightarrow> kcp_cfg \<Rightarrow> sock_addr \<Rightarrow> u32 \<Rightarrow> (nat \<Rightarrow> bool) \<Rightarrow> nat \<Rightarrow>
    'k udp_kcp \<times> (sock_addr \<times> bytes) list" where
  "udp_kcp_bind lib cfg addr conn_id ready millis =
     (let k1 = snd (kl_send lib (udp_bind_packet conn_id) (udp_kcp_new lib cfg conn_id))
      in case kl_update lib ready (now_ms millis) k1 of
           (_, ws, k2) \<Rightarrow>
             (\<lparr>uk_lib = k2, uk_conn_id = conn_id, uk_addr = addr, uk_frames = []\<rparr>, udp_output addr ready ws))"

text \<open>One turn of its driver: the datagrams that are there, the clock, the complete messages.\<close>

definition udp_kcp_turn :: "'k kcp_lib \<Rightarrow> (nat \<Rightarrow> bool) \<Rightarrow> nat \<Rightarrow> bytes list \<Rightarrow> 'k udp_kcp \<Rightarrow>
    ((sock_addr \<times> bytes) list \<times> 'k udp_kcp) option" where
  "udp_kcp_turn lib ready millis dgrams uk =
     (let k0 = foldl (\<lambda>k d. snd (kl_input lib (take 8192 d) k)) (uk_lib uk) dgrams
      in case kl_update lib ready (now_ms millis) k0 of
           (_, ws, k1) \<Rightarrow>
             map_option (\<lambda>(ps, k2). (udp_output (uk_addr uk) ready ws,
                                     uk\<lparr>uk_lib := k2, uk_frames := uk_frames uk @ ps\<rparr>)) (drain lib k1))"

definition udp_kcp_send_input :: "'k kcp_lib \<Rightarrow> bytes \<Rightarrow> 'k udp_kcp \<Rightarrow> (string + unit) \<times> 'k udp_kcp" where
  "udp_kcp_send_input lib input uk =
     (case kl_send lib (udp_input_packet (uk_conn_id uk) input) (uk_lib uk) of
        (Inl e, k) \<Rightarrow> (Inl e, uk\<lparr>uk_lib := k\<rparr>)
      | (Inr _, k) \<Rightarrow> (Inr (), uk\<lparr>uk_lib := k\<rparr>))"

text \<open>\<open>recv_push\<close> takes the next message; it waits while there is none.\<close>

definition udp_kcp_recv :: "'k udp_kcp \<Rightarrow> ((u32 \<times> u32 \<times> bytes) option \<times> 'k udp_kcp) option" where
  "udp_kcp_recv uk =
     (case uk_frames uk of
        [] \<Rightarrow> None
      | pkt # pkts \<Rightarrow> Some (kcp_recv_push pkt, uk\<lparr>uk_frames := pkts\<rparr>))"

section \<open>Answers\<close>

text \<open>A request's number is free as long as fewer than \<open>2^32\<close> requests were made; its answer goes to it.\<close>

lemma begin_request_open:
  "cl_open cl \<Longrightarrow> begin_request cl m p w =
     (Inr \<lparr>f_ptype = Request, f_msg_id = m, f_seq = cl_seq cl, f_payload = p\<rparr>,
      cl\<lparr>cl_seq := cl_seq cl + 1, cl_responses := (cl_responses cl)(cl_seq cl \<mapsto> w)\<rparr>)"
  by (simp add: begin_request_def Let_def)

lemma begin_request_frame:
  "begin_request cl m p w = (Inr f, cl') \<Longrightarrow>
     f = \<lparr>f_ptype = Request, f_msg_id = m, f_seq = cl_seq cl, f_payload = p\<rparr> \<and> cl_open cl \<and>
     cl_responses cl' (f_seq f) = Some w"
  by (auto simp: begin_request_def Let_def split: if_splits)

lemma answer_handed:
  "cl_reading cl \<Longrightarrow> f_ptype f = Response \<Longrightarrow> cl_responses cl (f_seq f) = Some w \<Longrightarrow>
   on_server_frame cl f = ([Hand w f], cl\<lparr>cl_responses := (cl_responses cl)(f_seq f := None)\<rparr>)"
  by (simp add: on_server_frame_def)

lemma udp_recv_push_datagram:
  assumes "length p \<le> MAX_DATAGRAM - udp_HEADER_LEN"
  shows "udp_recv_push (push_datagram m s p) = Some (m, s, p)"
proof -
  have "length (peer_packet m s p) \<le> MAX_DATAGRAM"
    using assms by (simp add: peer_packet_def udp_consts be_bytes_def)
  then show ?thesis by (simp add: udp_recv_push_def push_datagram_peer parse_push_peer parse_peer_peer)
qed

lemma kcp_recv_push_packet: "kcp_recv_push (peer_packet c m p) = Some (m, 0, p)"
  by (simp add: kcp_recv_push_def parse_peer_peer)

end
