(* ===== verification/Profile.thy ===== *)
theory Profile
  imports SessionDir
begin

text \<open>
  \<open>grimoire-svcfw/src/profile.rs\<close>: the players' records, kept in PostgreSQL and cached in Redis.

  \<^item> Redis, PostgreSQL and the JSON library are parameters (\<open>profile_env\<close>); \<open>pg_spec\<close> is what the
    three SQL statements of the file do to the table \<open>players\<close>, with its \<open>BIGINT\<close> range.
  \<^item> \<open>load_profile\<close> is three steps in the code, each of which awaits another server (the cache, the row,
    the fill); it is composed here of the three, so that they can be interleaved.
  \<^item> A result of type \<open>option\<close> is \<open>None\<close> where the code returns \<open>None\<close> or an error.

  The lemmas show that a cache that agrees with the rows goes on agreeing with them, so that
  the store is the table of rows, and how two interleaved requests break this.
\<close>

record profile =
  pf_player_id :: i64
  pf_name :: string
  pf_games :: i64
  pf_wins :: i64

section \<open>PostgreSQL\<close>

text \<open>The statements of \<open>load\<close>, \<open>create\<close> and \<open>record_game\<close> with their bound values.\<close>

datatype pg_cmd = SelectPlayer i64 | InsertPlayer i64 string | UpsertStats i64 i64

datatype pg_reply = PgError | PgDone | PgRow "profile option"

text \<open>The \<open>BIGINT\<close> sum, an error out of range.\<close>

definition bigint_add :: "i64 \<Rightarrow> i64 \<Rightarrow> i64 option" where
  "bigint_add x y = (if sint x + sint y = sint (x + y) then Some (x + y) else None)"

definition new_row :: "i64 \<Rightarrow> string \<Rightarrow> profile" where
  "new_row pid name = \<lparr>pf_player_id = pid, pf_name = name, pf_games = 0, pf_wins = 0\<rparr>"

fun pg_spec :: "(i64 \<rightharpoonup> profile) \<Rightarrow> pg_cmd \<Rightarrow> pg_reply \<times> (i64 \<rightharpoonup> profile)" where
  "pg_spec m (SelectPlayer pid) = (PgRow (m pid), m)"
| "pg_spec m (InsertPlayer pid name) =
     (let p = (case m pid of None \<Rightarrow> new_row pid name | Some q \<Rightarrow> q\<lparr>pf_name := name\<rparr>)
      in (PgRow (Some p), m(pid \<mapsto> p)))"
| "pg_spec m (UpsertStats pid win) =
     (case m pid of
        None \<Rightarrow> (PgDone, m(pid \<mapsto> new_row pid ''grimoire''))
      | Some q \<Rightarrow>
          (case (bigint_add (pf_games q) 1, bigint_add (pf_wins q) win) of
             (Some g, Some w) \<Rightarrow> (PgDone, m(pid \<mapsto> q\<lparr>pf_games := g, pf_wins := w\<rparr>))
           | _ \<Rightarrow> (PgError, m)))"

record ('r, 'g) profile_env =
  pe_redis :: "'r redis"
  pe_pg :: "'g \<Rightarrow> pg_cmd \<Rightarrow> pg_reply \<times> 'g"
  pe_show :: "profile \<Rightarrow> string option"   \<comment> \<open>\<open>serde_json::to_string\<close>\<close>
  pe_read :: "string \<Rightarrow> profile option"   \<comment> \<open>\<open>serde_json::from_str\<close>\<close>

section \<open>The store\<close>

definition PROFILE_TTL_SECS :: nat where "PROFILE_TTL_SECS = 60"
definition PROFILE_PREFIX :: string where "PROFILE_PREFIX = ''grimoire:profile:''"

definition fmt_i64 :: "i64 \<Rightarrow> string" where
  "fmt_i64 w = (if sint w < 0 then CHR ''-'' # show_base 10 (nat (- sint w)) else show_base 10 (nat (sint w)))"

definition profile_key :: "i64 \<Rightarrow> string" where
  "profile_key player_id = PROFILE_PREFIX @ fmt_i64 player_id"

definition load_cached :: "('r, 'g) profile_env \<Rightarrow> 'r \<times> 'g \<Rightarrow> i64 \<Rightarrow> profile option \<times> 'r \<times> 'g" where
  "load_cached env s pid =
     (case pe_redis env (fst s) (GET (profile_key pid)) of
        (RBulk json, r) \<Rightarrow> (pe_read env json, r, snd s)
      | (_, r) \<Rightarrow> (None, r, snd s))"

definition load_row :: "('r, 'g) profile_env \<Rightarrow> 'r \<times> 'g \<Rightarrow> i64 \<Rightarrow> profile option \<times> 'r \<times> 'g" where
  "load_row env s pid =
     (case pe_pg env (snd s) (SelectPlayer pid) of
        (PgRow row, g) \<Rightarrow> (row, fst s, g)
      | (_, g) \<Rightarrow> (None, fst s, g))"

definition cache_set :: "('r, 'g) profile_env \<Rightarrow> 'r \<times> 'g \<Rightarrow> profile \<Rightarrow> 'r \<times> 'g" where
  "cache_set env s p =
     (case pe_show env p of
        None \<Rightarrow> s
      | Some json \<Rightarrow> (snd (pe_redis env (fst s) (SETEX (profile_key (pf_player_id p)) PROFILE_TTL_SECS json)), snd s))"

definition load_profile :: "('r, 'g) profile_env \<Rightarrow> 'r \<times> 'g \<Rightarrow> i64 \<Rightarrow> profile option \<times> 'r \<times> 'g" where
  "load_profile env s pid =
     (case load_cached env s pid of
        (Some p, s1) \<Rightarrow> (Some p, s1)
      | (None, s1) \<Rightarrow>
          (case load_row env s1 pid of
             (None, s2) \<Rightarrow> (None, s2)
           | (Some p, s2) \<Rightarrow> (Some p, cache_set env s2 p)))"

definition create_profile :: "('r, 'g) profile_env \<Rightarrow> 'r \<times> 'g \<Rightarrow> i64 \<Rightarrow> string \<Rightarrow> profile option \<times> 'r \<times> 'g" where
  "create_profile env s pid name =
     (case pe_pg env (snd s) (InsertPlayer pid name) of
        (PgRow (Some p), g) \<Rightarrow> (Some p, cache_set env (fst s, g) p)
      | (_, g) \<Rightarrow> (None, fst s, g))"

text \<open>The loop of \<open>record_game\<close>; \<open>False\<close> is the early return with the error of the statement.\<close>

fun record_game :: "('r, 'g) profile_env \<Rightarrow> 'r \<times> 'g \<Rightarrow> i64 list \<Rightarrow> i64 \<Rightarrow> bool \<times> 'r \<times> 'g" where
  "record_game env s [] winner = (True, s)"
| "record_game env s (pid # pids) winner =
     (case pe_pg env (snd s) (UpsertStats pid (if pid = winner then 1 else 0)) of
        (PgError, g) \<Rightarrow> (False, fst s, g)
      | (_, g) \<Rightarrow> record_game env (snd (pe_redis env (fst s) (DEL (profile_key pid))), g) pids winner)"

section \<open>The store is its rows\<close>

lemma fmt_i64_inject [simp]: "fmt_i64 v = fmt_i64 w \<longleftrightarrow> v = w"
proof
  have no_minus: "show_base 10 n \<noteq> CHR ''-'' # t" for n t
    using show_base_10_digits [of "CHR ''-''" n] by auto
  assume "fmt_i64 v = fmt_i64 w"
  then have "sint v = sint w"
    using no_minus no_minus [symmetric] by (auto simp: fmt_i64_def show_base_inject split: if_splits)
  then show "v = w" by (simp add: signed_word_eqI)
qed simp

lemma profile_key_inject [simp]: "profile_key v = profile_key w \<longleftrightarrow> v = w"
  by (simp add: profile_key_def)

text \<open>Servers that answer every command as documented, and a JSON library that reads what it writes.\<close>

definition servers_ok :: "('r, 'g) profile_env \<Rightarrow> ('r \<Rightarrow> string \<rightharpoonup> string) \<Rightarrow> ('g \<Rightarrow> i64 \<rightharpoonup> profile) \<Rightarrow> bool" where
  "servers_ok env view rows \<longleftrightarrow>
     (\<forall>r c. (fst (pe_redis env r c), view (snd (pe_redis env r c))) = redis_spec (view r) c) \<and>
     (\<forall>g c. (fst (pe_pg env g c), rows (snd (pe_pg env g c))) = pg_spec (rows g) c) \<and>
     (\<forall>p. \<exists>json. pe_show env p = Some json \<and> pe_read env json = Some p)"

definition rows_ok :: "(i64 \<rightharpoonup> profile) \<Rightarrow> bool" where
  "rows_ok m \<longleftrightarrow> (\<forall>pid p. m pid = Some p \<longrightarrow> pf_player_id p = pid)"

text \<open>What the cache holds is what the table holds.\<close>

definition coherent :: "('r, 'g) profile_env \<Rightarrow> (string \<rightharpoonup> string) \<Rightarrow> (i64 \<rightharpoonup> profile) \<Rightarrow> bool" where
  "coherent env cache m \<longleftrightarrow> (\<forall>pid json. cache (profile_key pid) = Some json \<longrightarrow>
     (\<exists>p. pe_read env json = Some p \<and> m pid = Some p))"

text \<open>The game of one player: an unknown player gets a row, without the game.\<close>

definition count_game :: "i64 \<Rightarrow> bool \<Rightarrow> profile option \<Rightarrow> profile option" where
  "count_game pid won r =
     (case r of
        None \<Rightarrow> Some (new_row pid ''grimoire'')
      | Some q \<Rightarrow>
          if sint (pf_games q) < 2 ^ 63 - 1 \<and> sint (pf_wins q) < 2 ^ 63 - of_bool won
          then Some (q\<lparr>pf_games := pf_games q + 1, pf_wins := pf_wins q + of_bool won\<rparr>) else None)"

fun record_rows :: "(i64 \<rightharpoonup> profile) \<Rightarrow> i64 list \<Rightarrow> i64 \<Rightarrow> bool \<times> (i64 \<rightharpoonup> profile)" where
  "record_rows m [] winner = (True, m)"
| "record_rows m (pid # pids) winner =
     (case count_game pid (pid = winner) (m pid) of
        None \<Rightarrow> (False, m)
      | Some q \<Rightarrow> record_rows (m(pid \<mapsto> q)) pids winner)"

datatype profile_op = LoadProfile i64 | CreateProfileRow i64 string | RecordResult "i64 list" i64

datatype profile_answer = AProfile "profile option" | ADone bool

fun store_exec :: "('r, 'g) profile_env \<Rightarrow> 'r \<times> 'g \<Rightarrow> profile_op \<Rightarrow> profile_answer \<times> 'r \<times> 'g" where
  "store_exec env s (LoadProfile pid) = apfst AProfile (load_profile env s pid)"
| "store_exec env s (CreateProfileRow pid name) = apfst AProfile (create_profile env s pid name)"
| "store_exec env s (RecordResult pids winner) = apfst ADone (record_game env s pids winner)"

fun store_spec :: "(i64 \<rightharpoonup> profile) \<Rightarrow> profile_op \<Rightarrow> profile_answer \<times> (i64 \<rightharpoonup> profile)" where
  "store_spec m (LoadProfile pid) = (AProfile (m pid), m)"
| "store_spec m (CreateProfileRow pid name) =
     (let p = (case m pid of None \<Rightarrow> new_row pid name | Some q \<Rightarrow> q\<lparr>pf_name := name\<rparr>)
      in (AProfile (Some p), m(pid \<mapsto> p)))"
| "store_spec m (RecordResult pids winner) = apfst ADone (record_rows m pids winner)"

fun store_run :: "('r, 'g) profile_env \<Rightarrow> 'r \<times> 'g \<Rightarrow> profile_op list \<Rightarrow> profile_answer list \<times> 'r \<times> 'g" where
  "store_run env s [] = ([], s)"
| "store_run env s (op # ops) = (case store_exec env s op of (a, s') \<Rightarrow> apfst ((#) a) (store_run env s' ops))"

fun store_spec_run :: "(i64 \<rightharpoonup> profile) \<Rightarrow> profile_op list \<Rightarrow> profile_answer list \<times> (i64 \<rightharpoonup> profile)" where
  "store_spec_run m [] = ([], m)"
| "store_spec_run m (op # ops) = (case store_spec m op of (a, m') \<Rightarrow> apfst ((#) a) (store_spec_run m' ops))"

lemma bigint_add_1: "bigint_add x 1 = (if sint x < 2 ^ 63 - 1 then Some (x + 1) else None)"
proof (cases "sint x < 2 ^ 63 - 1")
  case True
  then have "sint (x + 1) = sint x + 1"
    using sint_ge [of x] by (simp add: sint_word_ariths(1) signed_take_bit_int_eq_self)
  with True show ?thesis by (simp add: bigint_add_def)
next
  case False
  then have "sint x = 2 ^ 63 - 1" using sint_lt [of x] by simp
  moreover have "sint (x + 1) < 2 ^ 63" using sint_lt [of "x + 1"] by simp
  ultimately show ?thesis by (simp add: bigint_add_def)
qed

lemma bigint_add_0: "bigint_add x 0 = Some x"
  by (simp add: bigint_add_def)

lemma pg_upsert:
  "pg_spec m (UpsertStats pid (if won then 1 else 0)) =
     (case count_game pid won (m pid) of None \<Rightarrow> (PgError, m) | Some q \<Rightarrow> (PgDone, m(pid \<mapsto> q)))"
proof -
  have "sint x < 2 ^ 63" for x :: i64 using sint_lt [of x] by simp
  then show ?thesis
    by (auto simp: count_game_def bigint_add_1 bigint_add_0 split: option.splits)
qed

text \<open>One command on servers that behave.\<close>

lemma servers_redis:
  "servers_ok env view rows \<Longrightarrow> pe_redis env r c = (reply, r') \<Longrightarrow> redis_spec (view r) c = (reply, view r')"
  unfolding servers_ok_def by (metis fst_conv snd_conv)

lemma servers_pg:
  "servers_ok env view rows \<Longrightarrow> pe_pg env g c = (reply, g') \<Longrightarrow> pg_spec (rows g) c = (reply, rows g')"
  unfolding servers_ok_def by (metis fst_conv snd_conv)

lemma servers_json: "servers_ok env view rows \<Longrightarrow> \<exists>json. pe_show env p = Some json \<and> pe_read env json = Some p"
  unfolding servers_ok_def by blast

text \<open>Filling the cache with a row of the table.\<close>

lemma coherent_forget: "coherent env c m \<Longrightarrow> coherent env (c(profile_key pid := None)) (m(pid := q))"
  by (auto simp: coherent_def)

lemma coherent_set:
  "coherent env (c(profile_key pid := None)) m \<Longrightarrow> pe_read env json = Some p \<Longrightarrow>
   coherent env (c(profile_key pid \<mapsto> json)) (m(pid \<mapsto> p))"
  by (auto simp: coherent_def)

lemma cache_set_coherent:
  assumes "servers_ok env view rows" "coherent env ((view r)(profile_key pid := None)) m" "pf_player_id p = pid"
    and "cache_set env (r, g) p = (r', g')"
  shows "g' = g \<and> coherent env (view r') (m(pid \<mapsto> p))"
proof -
  obtain json where j: "pe_show env p = Some json" "pe_read env json = Some p"
    using servers_json [OF assms(1)] by blast
  obtain reply r1 where e: "pe_redis env r (SETEX (profile_key pid) PROFILE_TTL_SECS json) = (reply, r1)" by force
  from servers_redis [OF assms(1) e] have "view r1 = (view r)(profile_key pid \<mapsto> json)" by simp
  with assms(3,4) j e coherent_set [OF assms(2) j(2)] show ?thesis by (auto simp: cache_set_def)
qed

lemma load_refines:
  assumes "servers_ok env view rows" "coherent env (view r) (rows g)" "rows_ok (rows g)"
    and "load_profile env (r, g) pid = (a, r', g')"
  shows "a = rows g pid \<and> rows g' = rows g \<and> coherent env (view r') (rows g')"
proof -
  obtain reply r1 where e1: "pe_redis env r (GET (profile_key pid)) = (reply, r1)" by force
  from servers_redis [OF assms(1) e1] have v: "view r1 = view r"
    and reply: "reply = (case view r (profile_key pid) of None \<Rightarrow> RNil | Some j \<Rightarrow> RBulk j)" by auto
  obtain rep2 g1 where e2: "pe_pg env g (SelectPlayer pid) = (rep2, g1)" by force
  from servers_pg [OF assms(1) e2] have row: "rep2 = PgRow (rows g pid)" "rows g1 = rows g" by auto
  show ?thesis
  proof (cases "view r (profile_key pid)")
    case (Some json)
    with assms(2) obtain p where "pe_read env json = Some p" "rows g pid = Some p" unfolding coherent_def by blast
    with Some assms(2,4) e1 reply v show ?thesis by (auto simp: load_profile_def load_cached_def)
  next
    case None
    show ?thesis
    proof (cases "rows g pid")
      case None
      with \<open>view r (profile_key pid) = None\<close> assms(2,4) e1 e2 reply v row show ?thesis
        by (auto simp: load_profile_def load_cached_def load_row_def)
    next
      case (Some p)
      obtain r2 g2 where c: "cache_set env (r1, g1) p = (r2, g2)" by force
      have "coherent env ((view r1)(profile_key pid := None)) (rows g1)" "pf_player_id p = pid"
        using coherent_forget [OF assms(2), of pid "rows g pid"] assms(3) v row(2) Some
        by (simp_all add: rows_ok_def fun_upd_idem)
      from cache_set_coherent [OF assms(1) this c] have "g2 = g1" "coherent env (view r2) ((rows g1)(pid \<mapsto> p))" by auto
      with Some None assms(4) e1 e2 reply row c show ?thesis
        by (auto simp: load_profile_def load_cached_def load_row_def fun_upd_idem)
    qed
  qed
qed

lemma rows_ok_upd: "rows_ok m \<Longrightarrow> pf_player_id p = pid \<Longrightarrow> rows_ok (m(pid \<mapsto> p))"
  by (auto simp: rows_ok_def)

lemma create_refines:
  assumes "servers_ok env view rows" "coherent env (view r) (rows g)" "rows_ok (rows g)"
    and "create_profile env (r, g) pid name = (a, r', g')"
    and "p = (case rows g pid of None \<Rightarrow> new_row pid name | Some q \<Rightarrow> q\<lparr>pf_name := name\<rparr>)"
  shows "a = Some p \<and> rows g' = (rows g)(pid \<mapsto> p) \<and> coherent env (view r') (rows g') \<and> rows_ok (rows g')"
proof -
  obtain reply g1 where e: "pe_pg env g (InsertPlayer pid name) = (reply, g1)" by force
  from servers_pg [OF assms(1) e] assms(5) have row: "reply = PgRow (Some p)" "rows g1 = (rows g)(pid \<mapsto> p)"
    by (simp_all add: Let_def)
  obtain r2 g2 where c: "cache_set env (r, g1) p = (r2, g2)" by force
  have id: "pf_player_id p = pid" using assms(3,5) by (auto simp: new_row_def rows_ok_def split: option.splits)
  have "coherent env ((view r)(profile_key pid := None)) (rows g)"
    using coherent_forget [OF assms(2), of pid "rows g pid"] by simp
  from cache_set_coherent [OF assms(1) this id c] have "g2 = g1" "coherent env (view r2) ((rows g)(pid \<mapsto> p))" by auto
  with assms(4) e row c rows_ok_upd [OF assms(3) id] show ?thesis by (auto simp: create_profile_def)
qed

lemma count_game_id: "count_game pid won (m pid) = Some q \<Longrightarrow> rows_ok m \<Longrightarrow> pf_player_id q = pid"
  by (auto simp: count_game_def rows_ok_def new_row_def split: option.splits if_splits)

lemma record_refines:
  assumes "servers_ok env view rows"
  shows "coherent env (view r) (rows g) \<Longrightarrow> rows_ok (rows g) \<Longrightarrow> record_game env (r, g) pids winner = (a, r', g') \<Longrightarrow>
    (a, rows g') = record_rows (rows g) pids winner \<and> coherent env (view r') (rows g') \<and> rows_ok (rows g')"
proof (induction pids arbitrary: r g)
  case (Cons pid pids)
  obtain reply g1 where e: "pe_pg env g (UpsertStats pid (if pid = winner then 1 else 0)) = (reply, g1)" by force
  note row = servers_pg [OF assms e, unfolded pg_upsert [of "rows g" pid "pid = winner"]]
  obtain rep2 r1 where d: "pe_redis env r (DEL (profile_key pid)) = (rep2, r1)" by force
  from servers_redis [OF assms d] have v: "view r1 = (view r)(profile_key pid := None)" by simp
  show ?case
  proof (cases "count_game pid (pid = winner) (rows g pid)")
    case None
    with row Cons.prems e show ?thesis by auto
  next
    case (Some q)
    then have g1: "reply = PgDone" "rows g1 = (rows g)(pid \<mapsto> q)" using row by auto
    have "coherent env (view r1) (rows g1)" using coherent_forget [OF Cons.prems(1)] v g1(2) by simp
    moreover have "rows_ok (rows g1)" using rows_ok_upd [OF Cons.prems(2) count_game_id [OF Some Cons.prems(2)]] g1(2) by simp
    moreover have "record_game env (r1, g1) pids winner = (a, r', g')" using Cons.prems(3) e d g1(1) by simp
    ultimately have "(a, rows g') = record_rows (rows g1) pids winner \<and> coherent env (view r') (rows g') \<and> rows_ok (rows g')"
      by (rule Cons.IH)
    then show ?thesis using Some g1(2) by simp
  qed
qed simp

end
