(* ===== verification/Profile_Props.thy ===== *)
theory Profile_Props
  imports Profile
begin

text \<open>
  The properties of the profile store: alone it is its table of rows, whatever is cached; a load that is
  interleaved with a recorded game leaves an old record in the cache.
\<close>

section \<open>Refinement\<close>

lemma store_step_refines:
  assumes "servers_ok env view rows" "coherent env (view r) (rows g)" "rows_ok (rows g)"
    and "store_exec env (r, g) op = (a, r', g')"
  shows "store_spec (rows g) op = (a, rows g') \<and> coherent env (view r') (rows g') \<and> rows_ok (rows g')"
proof (cases op)
  case (LoadProfile pid)
  with assms(4) obtain p where "load_profile env (r, g) pid = (p, r', g')" "a = AProfile p"
    by (cases "load_profile env (r, g) pid") auto
  with load_refines [OF assms(1-3)] LoadProfile assms(3) show ?thesis by fastforce
next
  case (CreateProfileRow pid name)
  with assms(4) obtain p where "create_profile env (r, g) pid name = (p, r', g')" "a = AProfile p"
    by (cases "create_profile env (r, g) pid name") auto
  with create_refines [OF assms(1-3) _ refl] CreateProfileRow show ?thesis by (fastforce simp: Let_def)
next
  case (RecordResult pids winner)
  with assms(4) obtain b where b: "record_game env (r, g) pids winner = (b, r', g')" "a = ADone b"
    by (cases "record_game env (r, g) pids winner") auto
  from record_refines [OF assms(1-3) b(1)] have "record_rows (rows g) pids winner = (b, rows g')"
    "coherent env (view r') (rows g')" "rows_ok (rows g')" by simp_all
  with RecordResult b(2) show ?thesis by simp
qed


text \<open>A JSON text that can be read back: the three numbers and the name.\<close>

definition show_profile :: "profile \<Rightarrow> string" where
  "show_profile p = show_base 10 (unat (pf_player_id p)) @ '','' @ show_base 10 (unat (pf_games p)) @ '','' @
     show_base 10 (unat (pf_wins p)) @ '','' @ pf_name p"

definition cut :: "string \<Rightarrow> string \<times> string" where
  "cut s = (takeWhile (\<lambda>c. c \<noteq> CHR '','') s, tl (dropWhile (\<lambda>c. c \<noteq> CHR '','') s))"

definition read_profile :: "string \<Rightarrow> profile option" where
  "read_profile s =
     (case cut s of (a, t) \<Rightarrow> case cut t of (b, u) \<Rightarrow> case cut u of (c, name) \<Rightarrow>
        Some \<lparr>pf_player_id = word_of_nat (read_base 10 a), pf_name = name,
              pf_games = word_of_nat (read_base 10 b), pf_wins = word_of_nat (read_base 10 c)\<rparr>)"

lemma cut_show: "cut (show_base 10 n @ CHR '','' # s) = (show_base 10 n, s)"
proof -
  have "c \<noteq> CHR '',''" if "c \<in> set (show_base 10 n)" for c
    using show_base_10_digits [OF that] by auto
  then show ?thesis by (simp add: cut_def)
qed

lemma read_show_profile: "read_profile (show_profile p) = Some p"
  by (simp add: read_profile_def show_profile_def cut_show read_show_base)

definition demo_store :: "(string \<rightharpoonup> string, i64 \<rightharpoonup> profile) profile_env" where
  "demo_store = \<lparr>pe_redis = redis_spec, pe_pg = pg_spec, pe_show = Some \<circ> show_profile, pe_read = read_profile\<rparr>"

lemma demo_store_ok: "servers_ok demo_store id id"
  by (simp add: servers_ok_def demo_store_def read_show_profile)


section \<open>Interleaving\<close>

text \<open>
  A load that is interleaved with a recorded game leaves an old record: when the game is
  recorded after the load has read the row and before it fills the cache, the cache holds the
  record without the game, and the next load answers with it although the table has the game.
\<close>

lemma interleaved_load_is_stale:
  assumes "servers_ok env view rows" "rows_ok (rows g)"
    and "load_row env (r, g) pid = (Some p, s1)" "record_game env s1 [pid] winner = (True, s2)"
  shows "fst (load_profile env (cache_set env s2 p) pid) = Some p \<and>
    (\<exists>q. rows (snd s2) pid = Some q \<and> pf_games q = pf_games p + 1)"
proof -
  obtain rep1 g1 where e1: "pe_pg env g (SelectPlayer pid) = (rep1, g1)" by force
  from servers_pg [OF assms(1) e1] assms(3) e1 have p: "rows g pid = Some p" "rows g1 = rows g" "s1 = (r, g1)"
    by (auto simp: load_row_def split: pg_reply.splits)
  obtain reply g2 where e2: "pe_pg env g1 (UpsertStats pid (if pid = winner then 1 else 0)) = (reply, g2)" by force
  note row = servers_pg [OF assms(1) e2, unfolded pg_upsert [of "rows g1" pid "pid = winner"]]
  obtain r2 rep2 where d: "pe_redis env r (DEL (profile_key pid)) = (rep2, r2)" by force
  have s2: "s2 = (r2, g2)" "reply \<noteq> PgError" using assms(4) p(3) e2 d by (auto split: pg_reply.splits)
  then obtain q where "count_game pid (pid = winner) (Some p) = Some q" "rows g2 = (rows g)(pid \<mapsto> q)"
    using row p by (auto split: option.splits)
  then have q: "rows g2 pid = Some q \<and> pf_games q = pf_games p + 1"
    by (auto simp: count_game_def split: if_splits)
  obtain json where j: "pe_show env p = Some json" "pe_read env json = Some p"
    using servers_json [OF assms(1)] by blast
  obtain rep3 r3 where e3: "pe_redis env r2 (SETEX (profile_key pid) PROFILE_TTL_SECS json) = (rep3, r3)" by force
  obtain rep4 r4 where e4: "pe_redis env r3 (GET (profile_key pid)) = (rep4, r4)" by force
  have "view r3 = (view r2)(profile_key pid \<mapsto> json)" using servers_redis [OF assms(1) e3] by simp
  then have "rep4 = RBulk json" using servers_redis [OF assms(1) e4] by simp
  moreover have "pf_player_id p = pid" using assms(2) p(1) by (simp add: rows_ok_def)
  ultimately have "fst (load_profile env (cache_set env s2 p) pid) = Some p"
    using s2(1) j e3 e4 by (simp add: cache_set_def load_profile_def load_cached_def)
  with q s2(1) show ?thesis by auto
qed

lemma interleaved_load_is_stale_witness:
  "\<exists>p s2. p = \<lparr>pf_player_id = 5, pf_name = ''amy'', pf_games = 3, pf_wins = 1\<rparr> \<and>
     load_row demo_store (Map.empty, [5 \<mapsto> p]) 5 = (Some p, (Map.empty, [5 \<mapsto> p])) \<and>
     record_game demo_store (Map.empty, [5 \<mapsto> p]) [5] 5 = (True, s2) \<and>
     fst (load_profile demo_store (cache_set demo_store s2 p) 5) = Some p \<and>
     (\<exists>q. snd s2 5 = Some q \<and> pf_games q = 4)"
proof -
  define p where "p = \<lparr>pf_player_id = 5, pf_name = ''amy'', pf_games = 3, pf_wins = 1\<rparr>"
  have ok: "rows_ok (id [5 \<mapsto> p])" by (simp add: rows_ok_def p_def)
  have l: "load_row demo_store (Map.empty, [5 \<mapsto> p]) 5 = (Some p, (Map.empty, [5 \<mapsto> p]))"
    by (simp add: load_row_def demo_store_def)
  obtain s2 where r: "record_game demo_store (Map.empty, [5 \<mapsto> p]) [5] 5 = (True, s2)"
    by (simp add: demo_store_def p_def bigint_add_1)
  from interleaved_load_is_stale [OF demo_store_ok ok l r] l r show ?thesis
    unfolding p_def by (intro exI) simp
qed

end
