(* ===== verification/EndToEnd.thy ===== *)
theory EndToEnd
  imports Gateway_Routing Client Profile_Props Battle
begin

text \<open>
  Between the components: what the gateway hands to a service for a request, what a client makes of
  the frames and datagrams of the gateway, and the text a token becomes on the way.  The
  properties that span components are in the root theory.
\<close>

section \<open>The forwarded request\<close>

lemma not_forwards_mem: "\<not> forwards es \<Longrightarrow> Forward c q \<notin> set es"
  by (auto simp: forwards_def)

text \<open>The only request a successful start hands on is the client's, under the connection's number.\<close>

lemma begin_forwards:
  assumes "forward_begin env gw a f w = (Inr (Inr ()), gw', es)" "Forward c q \<in> set es"
  shows "q = \<lparr>fq_conn_id = so_conn_id (gw_objs gw a), fq_seq = f_seq f, fq_msg_id = f_msg_id f, fq_payload = f_payload f\<rparr>"
  using assms(1)
proof (rule begin_okE)
  fix s node g1 es1 g2 es2 g3 c'
  assume "pick_node env gw a f s = (Inr (Inr node), g1, es1)"
    "announce env g1 a (domain_of (f_msg_id f)) node = (Inr (), g2, es2)"
  note quiet = not_forwards_mem [OF pick_quiet [OF this(1)]] not_forwards_mem [OF announce_quiet [OF this(2)]]
  assume "es = es1 @ es2 @
       (case st_pending (gw_streams g3) (so_conn_id (gw_objs gw a), f_seq f) of None \<Rightarrow> [] | Some v \<Rightarrow> [EndWait v]) @
       [Forward c' \<lparr>fq_conn_id = so_conn_id (gw_objs gw a), fq_seq = f_seq f, fq_msg_id = f_msg_id f, fq_payload = f_payload f\<rparr>]"
  with assms(2) quiet show ?thesis by (auto split: option.splits)
qed

lemma known_domain_not_0: "service_for_domain (domain_of m) = Some s \<Longrightarrow> m \<noteq> 0"
  by (auto simp: service_for_domain_def domain_of_def msg_defs split: if_splits)

lemma begin_known: "forward_begin env gw a f w = (Inr (Inr ()), gw', es) \<Longrightarrow> f_msg_id f \<noteq> 0"
  by (erule begin_okE) (rule known_domain_not_0)

section \<open>The answer\<close>

text \<open>The response a reply becomes, and what the client's request returns of it.\<close>

definition answer_frame :: "forward_reply \<Rightarrow> frame" where
  "answer_frame rep =
     (if fr_code rep \<noteq> 0 then response_frame 0 (fr_seq rep) (fr_payload rep)
      else response_frame (fr_msg_id rep) (fr_seq rep) (fr_payload rep))"

lemma finish_replied:
  assumes "so_open (gw_objs gw a)" "fr_seq rep = f_seq f"
  shows "forward_finish gw a f (Replied rep) = (gw, [ToClient a (answer_frame rep)])"
  using assms by (simp add: forward_finish_def forward_end_def session_send_def answer_frame_def)

lemma reply_delivered:
  "st_pending st (fr_conn_id rep, fr_seq rep) = Some w \<Longrightarrow> fst (reply_arrives st rep) = Some (w, rep)"
  by (simp add: reply_arrives_def Let_def)

lemma answer_frame_fields [simp]:
  "f_ptype (answer_frame rep) = Response" "f_seq (answer_frame rep) = fr_seq rep"
  "f_payload (answer_frame rep) = fr_payload rep"
  by (simp_all add: answer_frame_def response_frame_def)

definition request_result :: "forward_reply \<Rightarrow> bytes + frame" where
  "request_result rep =
     (if fr_code rep = 0
      then Inr \<lparr>f_ptype = Response, f_msg_id = fr_msg_id rep, f_seq = fr_seq rep, f_payload = fr_payload rep\<rparr>
      else Inl (string_bytes ''server error: '' @ lossy (fr_payload rep)))"

lemma end_request_answer:
  "fr_msg_id rep \<noteq> 0 \<Longrightarrow> end_request (Answered (answer_frame rep)) = request_result rep"
  by (simp add: end_request_def request_result_def answer_frame_def response_frame_def)

section \<open>Pushes\<close>

text \<open>
  What a client makes of one effect of the gateway: a frame that is decoded and published, a
  datagram that is received, a packet out of KCP.
\<close>

definition publish :: "frame \<Rightarrow> (u32 \<times> bytes) option" where
  "publish f =
     (case fst (on_server_frame client_new f) of
        [Publish g] \<Rightarrow> Some (f_msg_id g, f_payload g)
      | _ \<Rightarrow> None)"

fun push_got :: "gw_effect \<Rightarrow> (u32 \<times> bytes) option" where
  "push_got (ToClient a f) =
     (case decode (encode f) of (Inr (Some f'), _) \<Rightarrow> publish f' | _ \<Rightarrow> None)"
| "push_got (ToUdp addr d) = map_option (\<lambda>(m, _, p). (m, p)) (udp_recv_push d)"
| "push_got (ToKcp k d) = map_option (\<lambda>(m, _, p). (m, p)) (kcp_recv_push d)"
| "push_got _ = None"

lemma publish_push_frame: "m \<noteq> SYS_CONN_ID \<Longrightarrow> publish (push_frame m p) = Some (m, p)"
  by (simp add: publish_def on_server_frame_def client_new_def push_frame_def)

lemma push_got_tcp:
  assumes "m \<noteq> SYS_CONN_ID" "length p \<le> unat MAX_PAYLOAD"
  shows "push_got (ToClient a (push_frame m p)) = Some (m, p)"
proof -
  have "length (f_payload (push_frame m p)) \<le> unat MAX_PAYLOAD" using assms(2) by (simp add: push_frame_def)
  from decode_encode [OF this, of "[]"] show ?thesis by (simp add: publish_push_frame [OF assms(1)])
qed

lemma push_msg_got:
  assumes "push_msg gw a kcp up m p u = (True, es)"
    and "m \<noteq> SYS_CONN_ID" "length p \<le> MAX_DATAGRAM - udp_HEADER_LEN"
  shows "\<exists>e. es = [e] \<and> push_got e = Some (m, p) \<and>
     (e = ToClient a (push_frame m p) \<or> (u \<and> (\<exists>addr. so_udp (gw_objs gw a) = Some addr \<and> e = ToUdp addr (push_datagram m 0 p))) \<or>
      (u \<and> (\<exists>k. gw_kcp gw (so_conn_id (gw_objs gw a)) = Some k \<and> e = ToKcp k (peer_packet (so_conn_id (gw_objs gw a)) m p))))"
proof -
  have "length p \<le> unat MAX_PAYLOAD" using assms(3) by (simp add: MAX_PAYLOAD_unat udp_consts)
  with assms show ?thesis
    by (auto simp: push_msg_def send_kcp_def send_udp_def session_send_def push_got_tcp
        udp_recv_push_datagram kcp_recv_push_packet simp del: push_got.simps(1) split: option.splits if_splits)
qed

text \<open>A push that is taken is the last request of the queue of its gateway's stream.\<close>

lemma push_via_queued:
  assumes "push_via p c m d u reply connects opens = (True, p')"
  shows "\<exists>s. pu_streams p' (gateway_id_of c) = Some s \<and>
    last (ps_queue (pu_objs p' s)) = \<lparr>pq_conn_id = c, pq_msg_id = m, pq_payload = d, pq_udp = u\<rparr>"
  using assms
  by (auto simp: push_via_def stream_for_def try_send_def Let_def split: option.splits prod.splits if_splits)

section \<open>Tokens\<close>

definition ascii :: "string \<Rightarrow> bool" where
  "ascii s \<longleftrightarrow> (\<forall>c\<in>set s. of_char c < (128 :: nat))"

lemma string_bytes_inject: "string_bytes s = string_bytes t \<longleftrightarrow> s = t"
proof -
  have "inj (of_char :: char \<Rightarrow> u8)"
  proof (rule injI)
    fix x y :: char
    assume "of_char x = (of_char y :: u8)"
    then have "(word_of_nat (of_char x) :: u8) = word_of_nat (of_char y)" by (simp only: of_nat_of_char)
    then have "(of_char x :: nat) mod 2 ^ 8 = of_char y mod 2 ^ 8" by (simp add: word_of_nat_eq_iff take_bit_eq_mod)
    then have "(of_char x :: nat) = of_char y" by simp
    then show "x = y" by simp
  qed
  then show ?thesis by (simp add: string_bytes_def inj_map_eq_map)
qed

lemma lossy_token: "ascii t \<Longrightarrow> lossy (string_bytes t) = string_bytes t"
proof (rule lossy_ascii)
  assume t: "ascii t"
  show "\<forall>b\<in>set (string_bytes t). b < 0x80"
  proof
    fix b assume "b \<in> set (string_bytes t)"
    then obtain c where c: "b = of_char c" "of_char c < (128 :: nat)"
      using t by (auto simp: string_bytes_def ascii_def)
    have "b = word_of_nat (of_char c)" unfolding c(1) by (rule of_nat_of_char [symmetric])
    then show "b < 0x80" using c(2) by (simp add: word_less_nat_alt unat_of_nat)
  qed
qed

section \<open>Concrete runs\<close>

definition demo_codec :: battle_codec where
  "demo_codec = \<lparr>bc_dec_join = (\<lambda>_. Inr ()), bc_dec_input = (\<lambda>_. Inr (Fin 0, Fin 0, 0)),
     bc_dec_resync = (\<lambda>_. Inr 0), bc_enc = (\<lambda>_. [7])\<rparr>"

definition demo_forwarded :: forward_request where
  "demo_forwarded = \<lparr>fq_conn_id = 0x01000000, fq_seq = 2, fq_msg_id = BATTLE_INPUT, fq_payload = [1, 2]\<rparr>"

lemma demo_begin_request:
  "begin_request (client_new\<lparr>cl_seq := 2\<rparr>) BATTLE_INPUT [1, 2] 9 =
     (Inr (demo_request 2), client_new\<lparr>cl_seq := 3, cl_responses := [2 \<mapsto> 9]\<rparr>)"
  by (simp add: begin_request_def client_new_def demo_request_def)

definition demo_started :: gateway where
  "demo_started = (set_obj authed_gw 0 (snd (mark_domain (gw_objs authed_gw 0) DOMAIN_BATTLE)))
     \<lparr>gw_disc := demo_disc'', gw_streams := snd (insert_pending demo_streams (0x01000000, 2) 4)\<rparr>"

lemma demo_started_begin:
  "forward_begin demo_env authed_gw 0 (demo_request 2) 4 =
     (Inr (Inr ()), demo_started, [NotifyConnected ''x:1'' 0x01000000, Forward 0 demo_forwarded])"
  using demo_begin [of authed_gw 0 2 4] by (simp add: session_new_def demo_started_def demo_forwarded_def)

lemma demo_started_fields [simp]:
  "st_pending (gw_streams demo_started) (0x01000000, 2) = Some 4" "so_open (gw_objs demo_started 0)"
  by (simp_all add: demo_started_def insert_pending_def set_obj_def mark_domain_def session_new_def)

lemma demo_reply:
  "battle_process demo_codec ([], []) (battle_app_new False ''n'') demo_forwarded =
     (Inr (reply_ok demo_forwarded [7]), battle_app_new False ''n'', [])"
  by (simp add: battle_process_def demo_forwarded_def demo_codec_def battle_input_def battle_app_new_def replying_def
      msg_defs)

text \<open>A service's first push to gateway 1, and a gateway that knows the client's UDP address.\<close>

lemma demo_push:
  "\<exists>pu'. push_via pusher_new 0x01000000 m p u (Some [gw_1]) (\<lambda>_. True) (\<lambda>_. True) = (True, pu') \<and> pu_streams pu' 1 = Some 0"
proof -
  have "gateway_id_of 0x01000000 = 1" by (simp add: gateway_id_of_def GATEWAY_ID_SHIFT_def)
  then show ?thesis
    by (simp add: push_via_def stream_for_def pu_channel_for_def pusher_new_def find_gw_1 try_send_def QUEUE_CAPACITY_def)
qed

definition demo_bound :: gateway where
  "demo_bound = set_obj authed_gw 0 (bind_udp (gw_objs authed_gw 0) ''c:7'')"

lemma demo_bound_push:
  "route_push demo_bound kcp True \<lparr>pq_conn_id = 0x01000000, pq_msg_id = m, pq_payload = p, pq_udp = True\<rparr> =
     (True, [ToUdp ''c:7'' (push_datagram m 0 p)])"
  by (simp add: route_push_def push_msg_def send_kcp_def send_udp_def demo_bound_def set_obj_def bind_udp_def
      authed_gw_def gateway_new_def)

end
