(* ===== verification/PushPath.thy ===== *)
theory PushPath
  imports EndToEnd
begin

text \<open>
  A service with its \<open>Pusher\<close> and the gateway that takes its pushes, as one system: the service
  pushes, the transport carries the requests of a stream to the gateway's \<open>push_stream\<close> task, the
  gateway's other tasks run in between.  The log has what was accepted into the queue of a stream
  and what became of it at the gateway.
\<close>

section \<open>The system\<close>

record push_path =
  pp_pusher :: pusher
  pp_gateway :: gw_sys

datatype path_event =
    PathPush u32 u32 bytes bool world     \<comment> \<open>connection, message, payload, whether over UDP\<close>
  | PathKick u32 world "bool option"
  | PathEnd u8 nat
  | PathTake nat bool bool                \<comment> \<open>a stream's next request reaches the gateway\<close>
  | PathGateway gw_event

datatype path_log =
    Accepted nat push_request
  | Passed nat push_request bool "gw_effect list"

definition path_push :: "push_path \<Rightarrow> u32 \<Rightarrow> u32 \<Rightarrow> bytes \<Rightarrow> bool \<Rightarrow> world \<Rightarrow> push_path \<times> path_log list" where
  "path_push s c m p udp w =
     (case w of (reply, connects, opens) \<Rightarrow>
        (case push_via (pp_pusher s) c m p udp reply connects opens of
           (ok, pu) \<Rightarrow>
             (s\<lparr>pp_pusher := pu\<rparr>,
              if ok then [Accepted (the (pu_streams pu (gateway_id_of c)))
                            \<lparr>pq_conn_id = c, pq_msg_id = m, pq_payload = p, pq_udp = udp\<rparr>]
              else [])))"

definition path_take :: "push_path \<Rightarrow> nat \<Rightarrow> bool \<Rightarrow> bool \<Rightarrow> push_path \<times> path_log list" where
  "path_take s k kcp_ok udp_up =
     (case ps_queue (pu_objs (pp_pusher s) k) of
        [] \<Rightarrow> (s, [])
      | req # _ \<Rightarrow>
          if ps_open (pu_objs (pp_pusher s) k)
          then (s\<lparr>pp_pusher := stream_takes (pp_pusher s) k\<rparr>,
                [case route_push (gs_gw (pp_gateway s)) kcp_ok udp_up req of (ok, es) \<Rightarrow> Passed k req ok es])
          else (s, []))"

fun path_step :: "push_path \<Rightarrow> path_event \<Rightarrow> push_path \<times> path_log list" where
  "path_step s (PathPush c m p udp w) = path_push s c m p udp w"
| "path_step s (PathKick c w k) = (s\<lparr>pp_pusher := pu_step (pp_pusher s) (PKick c w k)\<rparr>, [])"
| "path_step s (PathEnd gw k) = (s\<lparr>pp_pusher := stream_dies (pp_pusher s) gw k\<rparr>, [])"
| "path_step s (PathTake k kcp_ok udp_up) = path_take s k kcp_ok udp_up"
| "path_step s (PathGateway e) = (s\<lparr>pp_gateway := fst (gw_step (pp_gateway s) e)\<rparr>, [])"

fun path_run :: "push_path \<Rightarrow> path_event list \<Rightarrow> push_path \<times> path_log list" where
  "path_run s [] = (s, [])"
| "path_run s (e # es) =
     (case path_step s e of (s1, l1) \<Rightarrow> (case path_run s1 es of (s2, l2) \<Rightarrow> (s2, l1 @ l2)))"

definition path_start :: "gw_sys \<Rightarrow> push_path" where
  "path_start g = \<lparr>pp_pusher = pusher_new, pp_gateway = g\<rparr>"

section \<open>Its abstraction: one queue per stream\<close>

fun accepted :: "nat \<Rightarrow> path_log list \<Rightarrow> push_request list" where
  "accepted k [] = []"
| "accepted k (Accepted j r # l) = (if j = k then r # accepted k l else accepted k l)"
| "accepted k (Passed _ _ _ _ # l) = accepted k l"

fun passed :: "nat \<Rightarrow> path_log list \<Rightarrow> push_request list" where
  "passed k [] = []"
| "passed k (Passed j r _ _ # l) = (if j = k then r # passed k l else passed k l)"
| "passed k (Accepted _ _ # l) = passed k l"

lemma log_append [simp]:
  "accepted k (l @ l') = accepted k l @ accepted k l'" "passed k (l @ l') = passed k l @ passed k l'"
  by (induction l rule: accepted.induct) auto

definition queue_of :: "push_path \<Rightarrow> nat \<Rightarrow> push_request list" where
  "queue_of s k = ps_queue (pu_objs (pp_pusher s) k)"

text \<open>Streams in the table exist, and one that does not exist yet holds nothing.\<close>

definition path_ok :: "push_path \<Rightarrow> bool" where
  "path_ok s \<longleftrightarrow> pusher_ok (pp_pusher s) \<and> (\<forall>k\<ge>pu_next (pp_pusher s). queue_of s k = [])"

text \<open>One step puts what it accepts at the end of the queue and takes what it passes on from its front.\<close>

definition fifo_step :: "push_path \<Rightarrow> push_path \<Rightarrow> path_log list \<Rightarrow> bool" where
  "fifo_step s s' l \<longleftrightarrow> (\<forall>k. queue_of s k @ accepted k l = passed k l @ queue_of s' k)"

lemma push_fifo:
  assumes "path_ok s" "path_push s c m p udp w = (s', l)"
  shows "path_ok s' \<and> fifo_step s s' l"
proof -
  obtain reply connects opens where w: "w = (reply, connects, opens)" by (cases w)
  obtain res p1 where sf: "stream_for (pp_pusher s) c reply connects opens = (res, p1)" by force
  let ?r = "\<lparr>pq_conn_id = c, pq_msg_id = m, pq_payload = p, pq_udp = udp\<rparr>"
  from sf show ?thesis
  proof (cases rule: stream_for_cases)
    case (known k)
    then have "k < pu_next (pp_pusher s)" using assms(1) by (simp add: path_ok_def pusher_ok_def)
    with known show ?thesis
      using assms w sf
      by (auto simp: path_push_def push_via_def try_send_def path_ok_def pusher_ok_def queue_of_def fifo_step_def
          simp flip: not_less split: if_splits)
  next
    case none
    then show ?thesis
      using assms w sf by (auto simp: path_push_def push_via_def path_ok_def pusher_ok_def queue_of_def fifo_step_def)
  next
    case opened
    have "queue_of s (pu_next (pp_pusher s)) = []" using assms(1) by (simp add: path_ok_def)
    with opened show ?thesis
      using assms w sf
      by (auto simp: path_push_def push_via_def try_send_def path_ok_def pusher_ok_def queue_of_def fifo_step_def
          QUEUE_CAPACITY_def less_SucI split: if_splits)
  qed
qed

lemma kick_fifo:
  assumes "path_ok s"
  shows "path_ok (s\<lparr>pp_pusher := pu_step (pp_pusher s) (PKick c w k)\<rparr>) \<and>
    fifo_step s (s\<lparr>pp_pusher := pu_step (pp_pusher s) (PKick c w k)\<rparr>) []"
proof -
  obtain reply connects opens where w: "w = (reply, connects, opens)" by (cases w)
  obtain ch p1 where c: "pu_channel_for (pp_pusher s) c reply connects = (ch, p1)" by force
  with channel_for_streams [of "pp_pusher s" c reply connects] w assms show ?thesis
    by (auto simp: kick_def path_ok_def pusher_ok_def queue_of_def fifo_step_def split: option.splits)
qed

lemma take_fifo:
  assumes "path_ok s" "path_take s k kcp_ok udp_up = (s', l)"
  shows "path_ok s' \<and> fifo_step s s' l"
  using assms
  by (auto simp: path_take_def path_ok_def pusher_ok_def queue_of_def fifo_step_def stream_takes_def Let_def
      split: list.splits if_splits prod.splits)

lemma path_step_fifo:
  assumes "path_ok s" "path_step s e = (s', l)"
  shows "path_ok s' \<and> fifo_step s s' l"
proof (cases e)
  case (PathPush c m p udp w)
  then show ?thesis using push_fifo assms by simp
next
  case (PathKick c w k)
  then show ?thesis using kick_fifo [OF assms(1), of c w k] assms(2) by auto
next
  case (PathEnd gw k)
  then show ?thesis
    using assms by (auto simp: stream_dies_def Let_def path_ok_def pusher_ok_def queue_of_def fifo_step_def)
next
  case (PathTake k kcp_ok udp_up)
  then show ?thesis using take_fifo assms by simp
next
  case (PathGateway g)
  then show ?thesis using assms by (auto simp: path_ok_def queue_of_def fifo_step_def)
qed

lemma path_run_fifo:
  "path_ok s \<Longrightarrow> path_run s es = (s', l) \<Longrightarrow> path_ok s' \<and> fifo_step s s' l"
proof (induction es arbitrary: s l)
  case Nil
  then show ?case by (auto simp: fifo_step_def)
next
  case (Cons e es)
  obtain s1 l1 where e: "path_step s e = (s1, l1)" by force
  obtain l2 where es: "path_run s1 es = (s', l2)" and l: "l = l1 @ l2"
    using Cons.prems(2) e by (auto split: prod.splits)
  note st = path_step_fifo [OF Cons.prems(1) e]
  note ih = Cons.IH [OF conjunct1 [OF st] es]
  have "queue_of s k @ accepted k l = passed k l @ queue_of s' k" for k
  proof -
    have "queue_of s k @ accepted k l1 = passed k l1 @ queue_of s1 k" using st by (simp add: fifo_step_def)
    moreover have "queue_of s1 k @ accepted k l2 = passed k l2 @ queue_of s' k" using ih by (simp add: fifo_step_def)
    ultimately show ?thesis unfolding l by (simp flip: append_assoc) (simp add: append_assoc)
  qed
  with ih show ?case by (simp add: fifo_step_def)
qed

text \<open>What the gateway does with a request it takes.\<close>

definition pass_ok :: "path_log \<Rightarrow> bool" where
  "pass_ok x \<longleftrightarrow>
     (case x of
        Passed k r True es \<Rightarrow>
          (\<exists>e. es = [e] \<and> (pq_udp r \<or> (\<exists>a. e = ToClient a (push_frame (pq_msg_id r) (pq_payload r)))))
      | Passed k r False es \<Rightarrow> es = []
      | Accepted _ _ \<Rightarrow> True)"

lemma path_run_passes: "path_run s es = (s', l) \<Longrightarrow> x \<in> set l \<Longrightarrow> pass_ok x"
proof (induction es arbitrary: s l)
  case (Cons e es)
  obtain s1 l1 where e: "path_step s e = (s1, l1)" by force
  obtain l2 where es: "path_run s1 es = (s', l2)" and l: "l = l1 @ l2"
    using Cons.prems(1) e by (auto split: prod.splits)
  have "pass_ok x" if "x \<in> set l1"
    using e that
    by (cases e) (auto simp: path_push_def path_take_def route_push_def push_msg_def session_send_def send_kcp_def send_udp_def
          pass_ok_def
        split: prod.splits list.splits option.splits if_splits bool.splits)
  with Cons.IH [OF es] Cons.prems(2) show ?case unfolding l by auto
qed simp


text \<open>A service pushes twice to the first connection of a gateway; the gateway has taken one.\<close>

definition demo_path :: "path_event list" where
  "demo_path =
    (let w = (Some [\<lparr>ni_node_id = ''gw-1'', ni_addr = ''g:1'', ni_meta = gateway_meta 1\<rparr>], \<lambda>_. True, \<lambda>_. True)
     in [PathGateway GAccept, PathPush 0x01000000 BATTLE_FRAME_SYNC [5] False w,
         PathPush 0x01000000 BATTLE_FRAME_SYNC [6] False w, PathTake 0 True True])"


end
