(* ===== verification/Kcp_Props.thy ===== *)
theory Kcp_Props
  imports Kcp Gateway_Props
begin

text \<open>
  What holds of the KCP conversations of a gateway in every run: which address a conversation writes
  to, how many drivers it has and when they end, and what becomes of the pushes of a connection
  whose number somebody has opened a conversation for.
\<close>

section \<open>What the steps do to the table\<close>

lemma frame_kcp: "on_frame gw a c f = (x, gw', es) \<Longrightarrow> gw_kcp gw' = gw_kcp gw \<and> gw_next_arc gw' = gw_next_arc gw \<and> gw_id gw' = gw_id gw"
  by (auto simp: on_frame_def handle_resume_def handle_bind_session_def handle_auth_def Let_def set_obj_def
      split: ptype.splits if_splits prod.splits)

lemma packet_kcp: "handle_packet env gw src data = (r, gw', es) \<Longrightarrow> gw_kcp gw' = gw_kcp gw \<and> gw_next_arc gw' = gw_next_arc gw \<and> gw_id gw' = gw_id gw"
  by (auto simp: handle_packet_def same_clients_def set_obj_def split: option.splits dest!: forward_udp_same)

lemma notify_kcp:
  assumes "notify_disconnected env gw d c = (r, gw', es)"
  shows "gw_kcp gw' = gw_kcp gw \<and> gw_next_arc gw' = gw_next_arc gw \<and> gw_id gw' = gw_id gw"
proof -
  obtain q g1 where rf: "resolve_for env gw d c 0 = (q, g1)" by force
  show ?thesis
    using assms rf resolve_for_same [OF rf]
    by (auto simp: notify_disconnected_def same_clients_def split: sum.splits option.splits prod.splits)
qed

text \<open>Only the clean-up of a session takes a conversation out of the table.\<close>

lemma gw_step_kcp:
  fixes s :: gw_sys
  assumes "plain_event e"
  defines "gw \<equiv> gs_gw s" and "gw' \<equiv> gs_gw (fst (gw_step s e))"
  shows "gw_next_arc gw \<le> gw_next_arc gw' \<and> gw_id gw' = gw_id gw \<and>
    (gw_kcp gw' = gw_kcp gw \<or>
     (\<exists>a c. e = GGrace a c \<and> gw_sessions gw c = Some a \<and> gw_kcp gw' = (gw_kcp gw)(c := None)))"
proof (cases e)
  case (GFrame b k f)
  obtain x g fs where o: "on_frame (gs_gw s) b k f = (x, g, fs)" by (metis prod_cases3)
  then show ?thesis using frame_kcp [OF o] GFrame by (simp add: gw_def gw'_def)
next
  case (GStart i env)
  obtain b f where bf: "gs_tasks s ! i = (b, f)" by force
  obtain r g fs where fs: "forward_start env (gs_gw s) b f (gs_next_wait s) = (r, g, fs)" by (metis prod_cases3)
  then show ?thesis
    using GStart bf forward_start_same [OF fs] by (simp add: start_task_def same_clients_def gw_def gw'_def)
next
  case (GFinish i r)
  obtain b f w where bf: "gs_waits s ! i = (b, f, w)" by (metis prod_cases3)
  obtain g fs where fs: "forward_finish (gs_gw s) b f r = (g, fs)" by force
  then show ?thesis using GFinish bf forward_finish_same [OF fs] by (simp add: same_clients_def gw_def gw'_def)
next
  case (GNotify env d k)
  obtain r g fs where o: "notify_disconnected env (gs_gw s) d k = (r, g, fs)" by (metis prod_cases3)
  then show ?thesis using notify_kcp [OF o] GNotify by (simp add: gw_def gw'_def)
next
  case (GKick k r d)
  then show ?thesis by (auto simp: grpc_kick_def Let_def gw_def gw'_def split: option.splits)
next
  case (GGrace b k)
  then show ?thesis by (auto simp: grace_over_def gw_def gw'_def)
qed (use assms in \<open>auto simp: plain_event_def set_obj_def accept_session_def Let_def gw_def gw'_def\<close>)

section \<open>Conversations and their drivers\<close>

text \<open>A datagram of the conversation's number has come from the address.\<close>

definition heard :: "kcp_event list \<Rightarrow> u32 \<Rightarrow> sock_addr \<Rightarrow> bool" where
  "heard es c src \<longleftrightarrow>
     (\<exists>dg. KDatagram src dg \<in> set es \<and> classify_datagram (take (MAX_DATAGRAM * 2) dg) = KcpPacket c)"

fun task_heard :: "kcp_event list \<Rightarrow> dgram_task \<Rightarrow> bool" where
  "task_heard es (KcpTask c src data) = heard es c src"
| "task_heard es (PacketTask src data) = True"

definition drives :: "'k kcp_sys \<Rightarrow> u32 \<Rightarrow> nat \<Rightarrow> bool" where
  "drives s c k \<longleftrightarrow> (\<exists>d\<in>set (ks_drivers s). dr_conv d = c \<and> dr_arc d = k)"

definition kcp_inv :: "kcp_event list \<Rightarrow> 'k kcp_sys \<Rightarrow> bool" where
  "kcp_inv es s \<longleftrightarrow>
     (\<forall>c k. gw_kcp (ks_gw s) c = Some k \<longrightarrow> drives s c k) \<and>
     (\<forall>d\<in>set (ks_drivers s). dr_arc d < gw_next_arc (ks_gw s) \<and> kv_addr (ks_objs s (dr_arc d)) = dr_src d \<and>
        heard es (dr_conv d) (dr_src d)) \<and>
     distinct (map dr_arc (ks_drivers s)) \<and>
     (\<forall>t\<in>set (ks_tasks s). task_heard es t)"

lemma heard_mono: "heard es c src \<Longrightarrow> heard (es @ fs) c src"
  by (auto simp: heard_def)

lemma task_heard_mono: "task_heard es t \<Longrightarrow> task_heard (es @ fs) t"
  by (cases t) (auto intro: heard_mono)

lemma kv_addr_simps [simp]:
  "kv_addr (input_packet lib v data) = kv_addr v" "kv_addr (snd (send_packet lib v data)) = kv_addr v"
  "kv_addr (kcp_session_new lib cfg c src) = src"
  by (simp_all add: input_packet_def send_packet_def kcp_session_new_def split: prod.splits sum.splits)

lemma drive_addr: "drive lib ready n v = Some (ps, ws, v') \<Longrightarrow> kv_addr v' = kv_addr v \<and> (\<forall>w\<in>set ws. fst w = kv_addr v)"
  by (auto simp: drive_def udp_output_def split: prod.splits)

lemma open_conv_parts:
  assumes "open_conv lib cfg s c src = (a, s')"
  shows "a = gw_next_arc (ks_gw s)"
    "ks_gw s' = (ks_gw s)\<lparr>gw_kcp := (gw_kcp (ks_gw s))(c \<mapsto> a), gw_next_arc := Suc a\<rparr>"
    "ks_objs s' = (ks_objs s)(a := kcp_session_new lib cfg c src)"
    "ks_drivers s' = ks_drivers s @ [\<lparr>dr_conv = c, dr_arc = a, dr_src = src\<rparr>]" "ks_tasks s' = ks_tasks s"
  using assms by (auto simp: open_conv_def Let_def)

text \<open>A datagram is put into a conversation that is there, or into a new one.\<close>

lemma kcp_datagram_cases:
  obtains k where "gw_kcp (ks_gw s) c = Some k" "\<not> late"
      "kcp_datagram lib cfg late s c src data = s\<lparr>ks_objs := (ks_objs s)(k := input_packet lib (ks_objs s k) data)\<rparr>"
  | a s' where "open_conv lib cfg s c src = (a, s')" "late \<or> gw_kcp (ks_gw s) c = None"
      "kcp_datagram lib cfg late s c src data = s'\<lparr>ks_objs := (ks_objs s')(a := input_packet lib (ks_objs s' a) data)\<rparr>"
proof -
  obtain a s' where o: "open_conv lib cfg s c src = (a, s')" by force
  show thesis
  proof (cases "gw_kcp (ks_gw s) c")
    case None
    then show thesis using o that(2) by (simp add: kcp_datagram_def)
  next
    case (Some k)
    then show thesis using o that by (cases late) (simp_all add: kcp_datagram_def)
  qed
qed

lemma kcp_push_parts:
  "ks_gw (fst (snd (kcp_push lib s up req))) = ks_gw s"
  "ks_drivers (fst (snd (kcp_push lib s up req))) = ks_drivers s"
  "ks_tasks (fst (snd (kcp_push lib s up req))) = ks_tasks s"
  "kv_addr (ks_objs (fst (snd (kcp_push lib s up req))) k) = kv_addr (ks_objs s k)"
  by (auto simp: kcp_push_def send_packet_def Let_def split: prod.splits option.splits sum.splits)

lemma datagram_inv:
  assumes "kcp_inv es s" "heard es c src"
  shows "kcp_inv es (kcp_datagram lib cfg late s c src data)"
proof (rule kcp_datagram_cases [of s c late lib cfg src data])
  fix k assume "kcp_datagram lib cfg late s c src data = s\<lparr>ks_objs := (ks_objs s)(k := input_packet lib (ks_objs s k) data)\<rparr>"
  then show ?thesis using assms(1) by (auto simp: kcp_inv_def drives_def)
next
  fix a s' assume o: "open_conv lib cfg s c src = (a, s')"
    and k: "kcp_datagram lib cfg late s c src data = s'\<lparr>ks_objs := (ks_objs s')(a := input_packet lib (ks_objs s' a) data)\<rparr>"
  note p = open_conv_parts [OF o]
  have "\<forall>d\<in>set (ks_drivers s). dr_arc d < a" using assms(1) p(1) by (auto simp: kcp_inv_def)
  then have "\<forall>d\<in>set (ks_drivers s). dr_arc d \<noteq> a" "a \<notin> dr_arc ` set (ks_drivers s)" by auto
  then show ?thesis
    unfolding k using assms p by (auto simp: kcp_inv_def drives_def less_Suc_eq)
qed

lemma drivers_remove_inv:
  assumes "kcp_inv es s" "i < length (ks_drivers s)" "d = ks_drivers s ! i"
    and "gw_kcp (ks_gw s) (dr_conv d) \<noteq> Some (dr_arc d)"
  shows "kcp_inv es (s\<lparr>ks_drivers := remove_nth i (ks_drivers s)\<rparr>)"
proof -
  have m: "mset (ks_drivers s) = add_mset d (mset (remove_nth i (ks_drivers s)))"
    using mset_remove_nth [OF assms(2)] assms(3) by simp
  then have sub: "set (ks_drivers s) = insert d (set (remove_nth i (ks_drivers s)))"
    by (metis set_mset_add_mset_insert set_mset_mset)
  have "mset (map dr_arc (ks_drivers s)) = add_mset (dr_arc d) (mset (map dr_arc (remove_nth i (ks_drivers s))))"
    using m by simp
  moreover have "distinct (map dr_arc (ks_drivers s))" using assms(1) by (simp add: kcp_inv_def)
  ultimately have "distinct (map dr_arc (remove_nth i (ks_drivers s)))"
    by (metis distinct.simps(2) mset.simps(2) mset_eq_imp_distinct_iff)
  moreover have "drives (s\<lparr>ks_drivers := remove_nth i (ks_drivers s)\<rparr>) c k" if "gw_kcp (ks_gw s) c = Some k" for c k
  proof -
    from assms(1) that have "drives s c k" by (simp add: kcp_inv_def)
    then show ?thesis using sub assms(4) that by (auto simp: drives_def)
  qed
  ultimately show ?thesis using assms(1) sub by (auto simp: kcp_inv_def)
qed

lemma turn_inv:
  assumes "kcp_inv es s" "i < length (ks_drivers s)"
  shows "kcp_inv es (fst (driver_turn lib s i ready n))"
proof -
  define d where "d = ks_drivers s ! i"
  show ?thesis
  proof (cases "drive lib ready n (ks_objs s (dr_arc d))")
    case None
    then show ?thesis using assms(1) by (simp add: driver_turn_def d_def Let_def)
  next
    case (Some r)
    then obtain ps ws v where r: "drive lib ready n (ks_objs s (dr_arc d)) = Some (ps, ws, v)" by (cases r) auto
    define s1 where "s1 = s\<lparr>ks_objs := (ks_objs s)(dr_arc d := v), ks_tasks := ks_tasks s @ map (PacketTask (dr_src d)) ps\<rparr>"
    have i1: "kcp_inv es s1" using assms(1) drive_addr [OF r] by (auto simp: s1_def kcp_inv_def drives_def)
    show ?thesis
    proof (cases "gw_kcp (ks_gw s) (dr_conv d) = Some (dr_arc d)")
      case True
      then show ?thesis using i1 r by (simp add: driver_turn_def Let_def s1_def flip: d_def)
    next
      case False
      then have "kcp_inv es (s1\<lparr>ks_drivers := remove_nth i (ks_drivers s1)\<rparr>)"
        by (intro drivers_remove_inv [OF i1, where d = d]) (use assms(2) in \<open>simp_all add: s1_def d_def\<close>)
      then show ?thesis using False r by (simp add: driver_turn_def Let_def s1_def flip: d_def)
    qed
  qed
qed

lemma kcp_inv_mono: "kcp_inv es s \<Longrightarrow> kcp_inv (es @ fs) s"
  by (auto simp: kcp_inv_def intro: heard_mono task_heard_mono)

lemma set_gw_inv:
  assumes "kcp_inv es s" "gw_kcp gw \<subseteq>\<^sub>m gw_kcp (ks_gw s)" "gw_next_arc (ks_gw s) \<le> gw_next_arc gw"
    and "ks_gw s' = gw" "ks_objs s' = ks_objs s" "ks_drivers s' = ks_drivers s" "ks_tasks s' = ks_tasks s"
  shows "kcp_inv es s'"
proof -
  have "gw_kcp (ks_gw s) c = Some k" if "gw_kcp gw c = Some k" for c k
    using assms(2) that by (metis domI map_le_def)
  then show ?thesis using assms unfolding kcp_inv_def drives_def by (auto dest: order.strict_trans2)
qed

lemma kcp_step_inv:
  assumes "kcp_inv es s"
  shows "kcp_inv (es @ [e]) (fst (kcp_step lib cfg s e))"
proof -
  from assms have i: "kcp_inv (es @ [e]) s" by (rule kcp_inv_mono)
  show ?thesis
  proof (cases e)
    case (KGateway g)
    show ?thesis
    proof (cases "plain_event g")
      case True
      note k = gw_step_kcp [OF True, of "ks_sys s"]
      then have "gw_kcp (gs_gw (fst (gw_step (ks_sys s) g))) \<subseteq>\<^sub>m gw_kcp (ks_gw s)"
        by (auto simp: map_le_def ks_gw_def split: if_splits)
      from set_gw_inv [OF i this, of "s\<lparr>ks_sys := fst (gw_step (ks_sys s) g)\<rparr>"] k
      have "kcp_inv (es @ [e]) (s\<lparr>ks_sys := fst (gw_step (ks_sys s) g)\<rparr>)" by (simp add: ks_gw_def)
      with True KGateway show ?thesis by (simp add: case_prod_beta)
    qed (use KGateway i in simp)
  next
    case (KDatagram src dg)
    then have "heard (es @ [e]) c src" if "classify_datagram (take (MAX_DATAGRAM * 2) dg) = KcpPacket c" for c
      using that by (auto simp: heard_def)
    then show ?thesis
      using i KDatagram by (auto simp: udp_reader_def Let_def kcp_inv_def drives_def split: datagram.splits)
  next
    case (KRun j late env)
    show ?thesis
    proof (cases "j < length (ks_tasks s)")
      case True
      let ?s = "s\<lparr>ks_tasks := remove_nth j (ks_tasks s)\<rparr>"
      have it: "kcp_inv (es @ [e]) ?s"
        using i set_remove_nth_subset [of j "ks_tasks s"] by (auto simp: kcp_inv_def drives_def)
      have "kcp_inv (es @ [e]) (fst (run_task lib cfg late env ?s (ks_tasks s ! j)))"
      proof (cases "ks_tasks s ! j")
        case (PacketTask src data)
        obtain r g fs where h: "handle_packet env (ks_gw s) src data = (r, g, fs)" by (metis prod_cases3)
        with PacketTask show ?thesis
          using packet_kcp [OF h] set_gw_inv [OF it, of g "set_gw ?s g"] by (simp add: run_task_def)
      next
        case (KcpTask c src data)
        then have "heard (es @ [e]) c src" using i nth_mem [OF True] by (auto simp: kcp_inv_def)
        with KcpTask show ?thesis using datagram_inv [OF it] by (simp add: run_task_def)
      qed
      then show ?thesis using KRun True by simp
    qed (use KRun i in simp)
  next
    case (KTurn j ready n)
    then show ?thesis using i turn_inv [OF i] by simp
  next
    case (KPush up req)
    then show ?thesis using i kcp_push_parts [of lib s up req] by (auto simp: kcp_inv_def drives_def)
  qed
qed

lemma kcp_start_simps [simp]:
  "ks_gw (kcp_start gid secret has_dir none) = gateway_new gid secret has_dir"
  "ks_tasks (kcp_start gid secret has_dir none) = []" "ks_drivers (kcp_start gid secret has_dir none) = []"
  by (simp_all add: kcp_start_def ks_gw_def gw_start_def)

lemma gateway_new_simps [simp]:
  "gw_kcp (gateway_new gid secret has_dir) = Map.empty" "gw_sessions (gateway_new gid secret has_dir) = Map.empty"
  "gw_id (gateway_new gid secret has_dir) = gid" "gw_next_arc (gateway_new gid secret has_dir) = 0"
  by (simp_all add: gateway_new_def)

lemma kcp_start_inv: "kcp_inv [] (kcp_start gid secret has_dir none)"
  by (simp add: kcp_inv_def)

lemma kcp_inv_run:
  assumes "kcp_inv es s"
  shows "kcp_inv (es @ fs) (kcp_run lib cfg s fs)"
  using assms
proof (induction fs arbitrary: es s)
  case (Cons e fs)
  from Cons.IH [OF kcp_step_inv [OF Cons.prems, of e lib cfg]] show ?case by simp
qed simp

text \<open>No step moves a conversation to another address.\<close>

lemma kcp_step_pinned:
  assumes "k < gw_next_arc (ks_gw s)"
  shows "kv_addr (ks_objs (fst (kcp_step lib cfg s e)) k) = kv_addr (ks_objs s k) \<and>
    k < gw_next_arc (ks_gw (fst (kcp_step lib cfg s e)))"
proof (cases e)
  case (KGateway g)
  then show ?thesis
    using assms gw_step_kcp [of g "ks_sys s"] by (auto simp: ks_gw_def split: prod.splits)
next
  case (KRun j late env)
  show ?thesis
  proof (cases "j < length (ks_tasks s)")
    case True
    show ?thesis
    proof (cases "ks_tasks s ! j")
      case (PacketTask src data)
      obtain r g fs where h: "handle_packet env (ks_gw s) src data = (r, g, fs)" by (metis prod_cases3)
      then show ?thesis using KRun True PacketTask packet_kcp [OF h] assms by (simp add: run_task_def)
    next
      case (KcpTask c src data)
      let ?s = "s\<lparr>ks_tasks := remove_nth j (ks_tasks s)\<rparr>"
      have "kv_addr (ks_objs (kcp_datagram lib cfg late ?s c src data) k) = kv_addr (ks_objs s k) \<and>
          k < gw_next_arc (ks_gw (kcp_datagram lib cfg late ?s c src data))"
      proof (rule kcp_datagram_cases [of ?s c late lib cfg src data])
        fix a s' assume o: "open_conv lib cfg ?s c src = (a, s')"
          and d: "kcp_datagram lib cfg late ?s c src data = s'\<lparr>ks_objs := (ks_objs s')(a := input_packet lib (ks_objs s' a) data)\<rparr>"
        show ?thesis unfolding d using open_conv_parts [OF o] assms by simp
      qed (use assms in auto)
      then show ?thesis using KRun True KcpTask by (simp add: run_task_def)
    qed
  qed (use KRun assms in simp)
next
  case (KTurn j ready n)
  then show ?thesis
    using assms drive_addr by (fastforce simp: driver_turn_def Let_def split: option.splits)
qed (use assms kcp_push_parts [of lib s] in \<open>auto simp: udp_reader_def Let_def split: datagram.splits\<close>)

lemma kcp_run_pinned:
  "k < gw_next_arc (ks_gw s) \<Longrightarrow> kv_addr (ks_objs (kcp_run lib cfg s es) k) = kv_addr (ks_objs s k)"
proof (induction es arbitrary: s)
  case (Cons e es)
  note p = kcp_step_pinned [OF Cons.prems, of lib cfg e]
  from Cons.IH [OF conjunct2 [OF p]] p show ?case by simp
qed simp

section \<open>Numbers of this gateway\<close>

definition own_numbers :: "gateway \<Rightarrow> bool" where
  "own_numbers gw \<longleftrightarrow> (\<forall>c\<in>dom (gw_sessions gw). gateway_id_of c = gw_id gw)"

lemma own_fewer: "own_numbers gw \<Longrightarrow> dom (gw_sessions gw') \<subseteq> dom (gw_sessions gw) \<Longrightarrow> gw_id gw' = gw_id gw \<Longrightarrow> own_numbers gw'"
  unfolding own_numbers_def by (metis subsetD)

lemma frame_sessions:
  assumes "on_frame gw a c f = (x, gw', es)"
  shows "dom (gw_sessions gw') \<subseteq> dom (gw_sessions gw)"
proof (cases "f_msg_id f = SYS_RESUME")
  case True
  then show ?thesis
    using assms
    by (auto simp: on_frame_def handle_resume_def Let_def set_obj_def split: ptype.splits if_splits prod.splits)
qed (use not_resume_sessions [OF assms] in simp)

lemma gw_step_own:
  assumes "own_numbers (gs_gw s)" "plain_event e"
  shows "own_numbers (gs_gw (fst (gw_step s e)))"
proof (cases "e = GAccept")
  case True
  then show ?thesis using assms(1) by (auto simp: own_numbers_def accept_session_def Let_def)
next
  case no_accept: False
  note id = conjunct1 [OF conjunct2 [OF gw_step_kcp [OF assms(2), of s]]]
  have "dom (gw_sessions (gs_gw (fst (gw_step s e)))) \<subseteq> dom (gw_sessions (gs_gw s))"
  proof (cases e)
    case (GFrame b k f)
    obtain x g fs where o: "on_frame (gs_gw s) b k f = (x, g, fs)" by (metis prod_cases3)
    then show ?thesis using frame_sessions [OF o] GFrame by simp
  next
    case (GStart i env)
    obtain b f where bf: "gs_tasks s ! i = (b, f)" by force
    obtain r g fs where fs: "forward_start env (gs_gw s) b f (gs_next_wait s) = (r, g, fs)" by (metis prod_cases3)
    then show ?thesis using GStart bf forward_start_same [OF fs] by (simp add: start_task_def same_clients_def)
  next
    case (GFinish i r)
    obtain b f w where bf: "gs_waits s ! i = (b, f, w)" by (metis prod_cases3)
    obtain g fs where fs: "forward_finish (gs_gw s) b f r = (g, fs)" by force
    then show ?thesis using GFinish bf forward_finish_same [OF fs] by (simp add: same_clients_def)
  next
    case (GNotify env d k)
    obtain r g fs where o: "notify_disconnected env (gs_gw s) d k = (r, g, fs)" by (metis prod_cases3)
    then show ?thesis using notify_sessions [OF o] GNotify by simp
  next
    case (GKick k r d)
    then show ?thesis by (auto simp: grpc_kick_def Let_def split: option.splits)
  next
    case (GGrace b k)
    then show ?thesis by (auto simp: grace_over_def)
  qed (use assms no_accept in \<open>auto simp: plain_event_def set_obj_def\<close>)
  with own_fewer [OF assms(1)] id show ?thesis by blast
qed

lemma kcp_datagram_gw:
  "\<exists>m n. ks_gw (kcp_datagram lib cfg late s c src data) = (ks_gw s)\<lparr>gw_kcp := m, gw_next_arc := n\<rparr> \<and>
     (\<forall>k. gw_kcp (ks_gw s) k \<noteq> None \<longrightarrow> m k \<noteq> None)"
proof (rule kcp_datagram_cases [of s c late lib cfg src data])
  fix k assume "kcp_datagram lib cfg late s c src data = s\<lparr>ks_objs := (ks_objs s)(k := input_packet lib (ks_objs s k) data)\<rparr>"
  then show ?thesis by (intro exI [of _ "gw_kcp (ks_gw s)"] exI [of _ "gw_next_arc (ks_gw s)"]) simp
next
  fix a s' assume o: "open_conv lib cfg s c src = (a, s')"
    and "kcp_datagram lib cfg late s c src data = s'\<lparr>ks_objs := (ks_objs s')(a := input_packet lib (ks_objs s' a) data)\<rparr>"
  with open_conv_parts(2) [OF o] show ?thesis
    by (intro exI [of _ "(gw_kcp (ks_gw s))(c \<mapsto> a)"] exI [of _ "Suc a"]) simp
qed

text \<open>A step keeps the numbers, and a conversation of another gateway's number stays in the table.\<close>

lemma kcp_step_stray:
  fixes lib :: "'k kcp_lib" and cfg e
  assumes "own_numbers (ks_gw s)"
  defines "s' \<equiv> fst (kcp_step lib cfg s e)"
  shows "own_numbers (ks_gw s') \<and> gw_id (ks_gw s') = gw_id (ks_gw s) \<and>
    (\<forall>c. gateway_id_of c \<noteq> gw_id (ks_gw s) \<longrightarrow> gw_kcp (ks_gw s) c \<noteq> None \<longrightarrow> gw_kcp (ks_gw s') c \<noteq> None)"
proof (cases e)
  case (KGateway g)
  show ?thesis
  proof (cases "plain_event g")
    case True
    note k = gw_step_kcp [OF True, of "ks_sys s"]
    have "gw_kcp (gs_gw (fst (gw_step (ks_sys s) g))) c \<noteq> None"
      if "gateway_id_of c \<noteq> gw_id (ks_gw s)" "gw_kcp (ks_gw s) c \<noteq> None" for c
    proof -
      have "gw_sessions (ks_gw s) c = None" using that(1) assms(1) by (auto simp: own_numbers_def)
      then show ?thesis using k that(2) by (auto simp: ks_gw_def split: if_splits)
    qed
    then show ?thesis
      using KGateway True k gw_step_own [OF _ True, of "ks_sys s"] assms(1)
      by (simp add: s'_def ks_gw_def case_prod_beta)
  qed (use KGateway assms in simp)
next
  case (KRun j late env)
  show ?thesis
  proof (cases "j < length (ks_tasks s)")
    case True
    show ?thesis
    proof (cases "ks_tasks s ! j")
      case (PacketTask src data)
      obtain r g fs where h: "handle_packet env (ks_gw s) src data = (r, g, fs)" by (metis prod_cases3)
      have "own_numbers g" by (rule own_fewer [OF assms(1)]) (use packet_sessions [OF h] packet_kcp [OF h] in simp_all)
      then show ?thesis using KRun True PacketTask h packet_kcp [OF h] by (simp add: s'_def run_task_def)
    next
      case (KcpTask c src data)
      obtain m n where "ks_gw (kcp_datagram lib cfg late (s\<lparr>ks_tasks := remove_nth j (ks_tasks s)\<rparr>) c src data) =
          (ks_gw s)\<lparr>gw_kcp := m, gw_next_arc := n\<rparr>" "\<forall>k. gw_kcp (ks_gw s) k \<noteq> None \<longrightarrow> m k \<noteq> None"
        using kcp_datagram_gw [of lib cfg late "s\<lparr>ks_tasks := remove_nth j (ks_tasks s)\<rparr>" c src data] by auto
      then show ?thesis using KRun True KcpTask assms(1) by (simp add: s'_def run_task_def own_numbers_def)
    qed
  qed (use KRun assms in simp)
next
  case (KTurn j ready n)
  then show ?thesis using assms(1) by (simp add: s'_def driver_turn_def Let_def split: option.splits)
qed (use assms kcp_push_parts [of lib s] in \<open>auto simp: udp_reader_def Let_def split: datagram.splits\<close>)

lemma kcp_run_stray:
  assumes "own_numbers (ks_gw s)" "gateway_id_of c \<noteq> gw_id (ks_gw s)"
  shows "own_numbers (ks_gw (kcp_run lib cfg s es)) \<and> gw_id (ks_gw (kcp_run lib cfg s es)) = gw_id (ks_gw s) \<and>
    (gw_kcp (ks_gw s) c \<noteq> None \<longrightarrow> gw_kcp (ks_gw (kcp_run lib cfg s es)) c \<noteq> None)"
  using assms
proof (induction es arbitrary: s)
  case (Cons e es)
  note st = kcp_step_stray [OF Cons.prems(1), of lib cfg e]
  from st have o: "own_numbers (ks_gw (fst (kcp_step lib cfg s e)))" by blast
  from st Cons.prems(2) have i: "gateway_id_of c \<noteq> gw_id (ks_gw (fst (kcp_step lib cfg s e)))" by simp
  from Cons.IH [OF o i] st Cons.prems(2) show ?case by simp
qed simp

section \<open>A library\<close>

text \<open>The simplest library that behaves as documented: received messages and packets to send, in order.\<close>

definition demo_kcp :: "(bytes list \<times> bytes list) kcp_lib" where
  "demo_kcp = \<lparr>kl_new = (\<lambda>_. ([], [])), kl_nodelay = (\<lambda>_ _ _ _ k. k), kl_wndsize = (\<lambda>_ _ k. k),
     kl_send = (\<lambda>d (r, out). (Inr (length d), (r, out @ [d]))),
     kl_input = (\<lambda>d (r, out). (Inr (length d), (r @ [drop 4 d], out))),
     kl_update = (\<lambda>_ _ (r, out). (Inr (), out, (r, []))),
     kl_recv = (\<lambda>n (r, out). case r of
        [] \<Rightarrow> (Inl ''recv queue empty'', (r, out))
      | b # bs \<Rightarrow> if length b \<le> n then (Inr b, (bs, out)) else (Inl ''user buffer too small'', (r, out)))\<rparr>"

lemma demo_kcp_calls [simp]:
  "kl_new demo_kcp c = ([], [])" "kl_nodelay demo_kcp a i r n k = k" "kl_wndsize demo_kcp u v k = k"
  "kl_send demo_kcp d (r', out) = (Inr (length d), (r', out @ [d]))"
  "kl_input demo_kcp d (r', out) = (Inr (length d), (r' @ [drop 4 d], out))"
  "kl_update demo_kcp w m (r', out) = (Inr (), out, (r', []))"
  "kl_recv demo_kcp l ([], out) = (Inl ''recv queue empty'', ([], out))"
  "kl_recv demo_kcp l (b # bs, out) =
     (if length b \<le> l then (Inr b, (bs, out)) else (Inl ''user buffer too small'', (b # bs, out)))"
  by (simp_all add: demo_kcp_def)

definition demo_cfg :: kcp_cfg where
  "demo_cfg = \<lparr>kc_interval = 10, kc_resend = 2, kc_nc = True\<rparr>"

text \<open>A queue of messages that fit is emptied; one that does not fit stays, and all behind it.\<close>

lemma drain_demo:
  "\<forall>b\<in>set bs. length b \<le> RECV_BUFFER \<Longrightarrow> rest = [] \<or> RECV_BUFFER < length (hd rest) \<Longrightarrow>
   drain demo_kcp (bs @ rest, out) = Some (bs, (rest, out))"
proof (induction bs)
  case Nil
  then show ?case by (cases rest) (auto simp: drain.simps [of demo_kcp])
next
  case (Cons b bs)
  have "kl_recv demo_kcp RECV_BUFFER (b # bs @ rest, out) = (Inr b, (bs @ rest, out))"
    using Cons.prems by simp
  with Cons show ?case by (simp add: drain.simps [of demo_kcp "(b # bs @ rest, out)"])
qed

definition demo_none :: "nat \<Rightarrow> (bytes list \<times> bytes list) kcp_conv" where
  "demo_none = (\<lambda>_. \<lparr>kv_addr = [], kv_lib = ([], [])\<rparr>)"

text \<open>A stranger's datagram with the number \<open>0x01000000\<close>, before and after the connection is accepted.\<close>

definition demo_dgram :: bytes where
  "demo_dgram = [0, 0, 0, 1, 9]"

lemma demo_classify: "classify_datagram (take (MAX_DATAGRAM * 2) demo_dgram) = KcpPacket 0x01000000"
  by (simp add: demo_dgram_def classify_datagram_def udp_consts udp_MAGIC_def from_le_bytes_def from_be_bytes_def)

lemma demo_kcp_open:
  fixes s :: "(bytes list \<times> bytes list) kcp_sys"
  assumes "gw_kcp (ks_gw s) 0x01000000 = None" "ks_tasks s = []"
  shows "kcp_run demo_kcp demo_cfg s [KDatagram ''evil:1'' demo_dgram, KRun 0 False demo_env] =
    (set_gw s ((ks_gw s)\<lparr>gw_kcp := (gw_kcp (ks_gw s))(0x01000000 \<mapsto> gw_next_arc (ks_gw s)),
                         gw_next_arc := Suc (gw_next_arc (ks_gw s))\<rparr>))
      \<lparr>ks_objs := (ks_objs s)(gw_next_arc (ks_gw s) := \<lparr>kv_addr = ''evil:1'', kv_lib = ([[9]], [])\<rparr>),
       ks_drivers := ks_drivers s @ [\<lparr>dr_conv = 0x01000000, dr_arc = gw_next_arc (ks_gw s), dr_src = ''evil:1''\<rparr>],
       ks_tasks := []\<rparr>"
proof -
  have "udp_reader s ''evil:1'' demo_dgram = s\<lparr>ks_tasks := [KcpTask 0x01000000 ''evil:1'' demo_dgram]\<rparr>"
    using assms(2) demo_classify by (simp add: udp_reader_def Let_def) (simp add: demo_dgram_def udp_consts)
  then show ?thesis
    using assms
    by (simp add: run_task_def kcp_datagram_def open_conv_def Let_def remove_nth_def kcp_session_new_def
        input_packet_def demo_dgram_def set_gw_def ks_gw_def)
qed

section \<open>The driver's turn\<close>

lemma drain_returns:
  assumes "\<And>k b k'. kl_recv lib RECV_BUFFER k = (Inr b, k') \<Longrightarrow> queued k' < (queued k :: nat)"
  shows "\<exists>r. drain lib k = Some r"
proof (induction "queued k" arbitrary: k rule: less_induct)
  case less
  show ?case
  proof (cases "kl_recv lib RECV_BUFFER k")
    case (Pair r k')
    show ?thesis
    proof (cases r)
      case (Inl e)
      then show ?thesis using Pair by (simp add: drain.simps [of lib k])
    next
      case (Inr b)
      with Pair obtain bs k'' where "drain lib k' = Some (bs, k'')" using less assms by fastforce
      then show ?thesis using Pair Inr by (simp add: drain.simps [of lib k])
    qed
  qed
qed

text \<open>
  A turn of a KCP driver ends, so that the conversation's lock is released, if the library
  behaves as documented: every message it hands out leaves fewer queued.
\<close>

lemma driver_turn_ends:
  assumes "\<And>k b k'. kl_recv lib RECV_BUFFER k = (Inr b, k') \<Longrightarrow> queued k' < (queued k :: nat)"
  shows "\<exists>ps ws v'. drive lib ready millis v = Some (ps, ws, v')"
proof -
  obtain e ws k1 where u: "kl_update lib ready (now_ms millis) (kv_lib v) = (e, ws, k1)" by (metis prod_cases3)
  have "\<exists>r. drain lib k1 = Some r" by (rule drain_returns [where queued = queued]) (rule assms)
  then obtain r where "drain lib k1 = Some r" by blast
  then show ?thesis using u by (cases r) (simp add: drive_def)
qed

lemma demo_kcp_shrinks:
  "kl_recv demo_kcp RECV_BUFFER k = (Inr b, k') \<Longrightarrow> (length \<circ> fst) k' < (length \<circ> fst) k"
  by (cases k; cases "fst k") (auto simp: demo_kcp_def split: if_splits)

lemma driver_turn_ends_witness:
  "\<exists>ps ws v'. drive demo_kcp (\<lambda>_. True) 7 \<lparr>kv_addr = ''c:1'', kv_lib = ([[1], [2]], [[3]])\<rparr> = Some (ps, ws, v')"
  by (rule driver_turn_ends [where queued = "length \<circ> fst"]) (rule demo_kcp_shrinks)

text \<open>A driver whose conversation has left the table, or has been replaced, ends with its next turn.\<close>

lemma stale_driver_ends:
  assumes "i < length (ks_drivers s)" "d = ks_drivers s ! i" "gw_kcp (ks_gw s) (dr_conv d) \<noteq> Some (dr_arc d)"
    and "drive lib ready millis (ks_objs s (dr_arc d)) \<noteq> None"
  shows "ks_drivers (fst (kcp_step lib cfg s (KTurn i ready millis))) = remove_nth i (ks_drivers s)"
  using assms by (auto simp: driver_turn_def Let_def)

section \<open>Who owns a conversation\<close>

text \<open>
  C21: In every run of a gateway, a conversation in the table has exactly one driver; the address it
  writes to, and the address its packets are taken to come from, is one that a datagram with the
  conversation's number was received from, and no later event, such as a datagram of the
  same client from another address or a migration of the connection, ever changes it.
\<close>

theorem kcp_conversation_pinned:
  assumes "s = kcp_run lib cfg (kcp_start gid secret has_dir none) es" "gw_kcp (ks_gw s) c = Some k"
  shows "\<exists>src. filter (\<lambda>d. dr_arc d = k) (ks_drivers s) = [\<lparr>dr_conv = c, dr_arc = k, dr_src = src\<rparr>] \<and>
    heard es c src \<and> (\<forall>fs. kv_addr (ks_objs (kcp_run lib cfg s fs) k) = src)"
proof -
  have i: "kcp_inv es s" using kcp_inv_run [OF kcp_start_inv, where lib = lib and cfg = cfg and fs = es] assms(1) by simp
  then obtain d where d: "d \<in> set (ks_drivers s)" "dr_conv d = c" "dr_arc d = k"
    using assms(2) by (auto simp: kcp_inv_def drives_def)
  have dist: "distinct (map dr_arc (ks_drivers s))" using i by (simp add: kcp_inv_def)
  obtain us vs where uv: "ks_drivers s = us @ d # vs" using d(1) by (auto dest: split_list)
  have "filter (\<lambda>d. dr_arc d = k) us = []" "filter (\<lambda>d. dr_arc d = k) vs = []"
    using dist d(3) unfolding uv filter_empty_conv by (auto simp: image_iff)
  then have "filter (\<lambda>d. dr_arc d = k) (ks_drivers s) = [d]" using d(3) by (simp add: uv)
  moreover have "d = \<lparr>dr_conv = c, dr_arc = k, dr_src = dr_src d\<rparr>" using d(2,3) by (cases d) simp
  moreover have "heard es c (dr_src d)" "k < gw_next_arc (ks_gw s)" "kv_addr (ks_objs s k) = dr_src d"
    using i d by (auto simp: kcp_inv_def)
  ultimately show ?thesis using kcp_run_pinned by metis
qed

theorem kcp_conversation_pinned_witness:
  "\<exists>s k. s = kcp_run demo_kcp demo_cfg (kcp_start 1 [] False demo_none) [KDatagram ''evil:1'' demo_dgram, KRun 0 False demo_env] \<and>
     gw_kcp (ks_gw s) 0x01000000 = Some k \<and>
     (\<exists>src. filter (\<lambda>d. dr_arc d = k) (ks_drivers s) = [\<lparr>dr_conv = 0x01000000, dr_arc = k, dr_src = src\<rparr>] \<and>
       kv_addr (ks_objs (kcp_run demo_kcp demo_cfg s [KDatagram ''home:2'' demo_dgram, KRun 0 False demo_env]) k) = src)"
proof -
  let ?s = "kcp_run demo_kcp demo_cfg (kcp_start 1 [] False demo_none) [KDatagram ''evil:1'' demo_dgram, KRun 0 False demo_env]"
  have "gw_kcp (ks_gw (kcp_start 1 [] False demo_none)) 0x01000000 = None" "ks_tasks (kcp_start 1 [] False demo_none) = []"
    by simp_all
  from demo_kcp_open [OF this] have k: "gw_kcp (ks_gw ?s) 0x01000000 = Some 0" by simp
  from kcp_conversation_pinned [OF refl k] k show ?thesis by blast
qed

text \<open>
  A conversation under a number of another gateway, which any datagram can open, is never
  removed: whatever happens afterwards, the table has a conversation for the number, and a driver
  task runs for it.
\<close>

lemma stray_conversation_stays:
  assumes "s = kcp_run lib cfg (kcp_start gid secret has_dir none) es"
    and "gateway_id_of c \<noteq> gid" "gw_kcp (ks_gw s) c \<noteq> None"
    and "s' = kcp_run lib cfg s fs"
  shows "\<exists>k. gw_kcp (ks_gw s') c = Some k \<and> drives s' c k"
proof -
  have st: "own_numbers (ks_gw (kcp_start gid secret has_dir none))" "gw_id (ks_gw (kcp_start gid secret has_dir none)) = gid"
    by (simp_all add: own_numbers_def)
  have s: "own_numbers (ks_gw s)" "gw_id (ks_gw s) = gid"
    using kcp_run_stray [OF st(1), of c lib cfg es] assms(1,2) st(2) by simp_all
  have "gw_kcp (ks_gw s') c \<noteq> None"
    using kcp_run_stray [OF s(1), of c lib cfg fs] assms(2-4) s(2) by simp
  moreover have "kcp_inv (es @ fs) s'"
    using kcp_inv_run [OF kcp_start_inv, where lib = lib and cfg = cfg and fs = "es @ fs"] assms(1,4) by simp
  ultimately show ?thesis by (auto simp: kcp_inv_def)
qed

lemma stray_conversation_stays_witness:
  "\<exists>s' k. s' = kcp_run demo_kcp demo_cfg (kcp_start 2 [] False demo_none)
       [KDatagram ''evil:1'' demo_dgram, KRun 0 False demo_env, KGateway (GGrace 0 0x01000000), KTurn 0 (\<lambda>_. True) 7] \<and>
     gw_kcp (ks_gw s') 0x01000000 = Some k \<and> drives s' 0x01000000 k"
proof -
  let ?s = "kcp_run demo_kcp demo_cfg (kcp_start 2 [] False demo_none) [KDatagram ''evil:1'' demo_dgram, KRun 0 False demo_env]"
  have "gw_kcp (ks_gw (kcp_start 2 [] False demo_none)) 0x01000000 = None" "ks_tasks (kcp_start 2 [] False demo_none) = []"
    by simp_all
  from demo_kcp_open [OF this] have k: "gw_kcp (ks_gw ?s) 0x01000000 \<noteq> None" by simp
  have g: "gateway_id_of 0x01000000 \<noteq> 2" by (simp add: gateway_id_of_def GATEWAY_ID_SHIFT_def)
  from stray_conversation_stays [OF refl g k refl, of "[KGateway (GGrace 0 0x01000000), KTurn 0 (\<lambda>_. True) 7]"]
  show ?thesis by simp
qed

text \<open>
  Whoever sends the first KCP datagram with the number of a connection gets its pushes: as long
  as the conversation is in the table, every push of a service that prefers UDP and that the
  library takes is given to that conversation, whose packets go to the stranger's address, and
  nothing is sent to the client, authenticated or not.
\<close>

lemma kcp_datagram_takes_pushes:
  assumes "gw_kcp (ks_gw s) c = None" "classify_datagram (take (MAX_DATAGRAM * 2) dg) = KcpPacket c"
    and "s1 = kcp_run lib cfg s [KDatagram src dg, KRun (length (ks_tasks s)) late env]" "s2 = kcp_run lib cfg s1 fs"
    and "gw_kcp (ks_gw s2) c = gw_kcp (ks_gw s1) c"
    and "gw_sessions (ks_gw s2) c = Some a" "so_conn_id (gw_objs (ks_gw s2) a) = c"
    and "k = gw_next_arc (ks_gw s)" "fst (send_packet lib (ks_objs s2 k) (peer_packet c m p))"
    and "pr = kcp_push lib s2 up \<lparr>pq_conn_id = c, pq_msg_id = m, pq_payload = p, pq_udp = True\<rparr>"
  shows "fst pr \<and> snd (snd pr) = [Sent (ToKcp k (peer_packet c m p))] \<and> kv_addr (ks_objs (fst (snd pr)) k) = src"
proof -
  let ?data = "take (MAX_DATAGRAM * 2) dg"
  obtain a' s' where o: "open_conv lib cfg s c src = (a', s')" by force
  note parts = open_conv_parts [OF o]
  have s1: "s1 = kcp_datagram lib cfg late s c src ?data"
    using assms(2,3) by (simp add: udp_reader_def Let_def run_task_def remove_nth_def nth_append)
  also have "\<dots> = s'\<lparr>ks_objs := (ks_objs s')(k := input_packet lib (ks_objs s' k) ?data)\<rparr>"
    using assms(1,8) o parts(1) by (simp add: kcp_datagram_def)
  finally have s1': "s1 = s'\<lparr>ks_objs := (ks_objs s')(k := input_packet lib (ks_objs s' k) ?data)\<rparr>" .
  have k: "gw_kcp (ks_gw s1) c = Some k" "k < gw_next_arc (ks_gw s1)" "kv_addr (ks_objs s1 k) = src"
    using parts assms(8) by (simp_all add: s1')
  have kv: "kv_addr (ks_objs s2 k) = src" unfolding assms(4) using kcp_run_pinned [OF k(2)] k(3) by simp
  have k2: "gw_kcp (ks_gw s2) c = Some k" using assms(5) k(1) by simp
  obtain v where v: "send_packet lib (ks_objs s2 k) (peer_packet c m p) = (True, v)" using assms(9) by (metis prod.collapse)
  have "pr = (True, s2\<lparr>ks_objs := (ks_objs s2)(k := v)\<rparr>, [Sent (ToKcp k (peer_packet c m p))])"
    unfolding assms(10) using assms(6,7) k2 v
    by (simp add: kcp_push_def route_push_def push_msg_def send_kcp_def Let_def)
  then show ?thesis using kcp_push_parts(4) [of lib s2 up _ k] kv assms(10) by (metis fst_conv snd_conv)
qed

lemma kcp_datagram_takes_pushes_witness:
  "\<exists>s1 pr. s1 = kcp_run demo_kcp demo_cfg (kcp_run demo_kcp demo_cfg (kcp_start 1 ''pw'' False demo_none) [KGateway GAccept])
       [KDatagram ''evil:1'' demo_dgram, KRun 0 False demo_env] \<and>
     pr = kcp_push demo_kcp s1 True \<lparr>pq_conn_id = 0x01000000, pq_msg_id = BATTLE_FRAME_SYNC, pq_payload = [7], pq_udp = True\<rparr> \<and>
     snd (snd pr) = [Sent (ToKcp 1 (peer_packet 0x01000000 BATTLE_FRAME_SYNC [7]))] \<and>
     kv_addr (ks_objs (fst (snd pr)) 1) = ''evil:1''"
proof -
  let ?s = "kcp_run demo_kcp demo_cfg (kcp_start 1 ''pw'' False demo_none) [KGateway GAccept]"
  let ?s1 = "kcp_run demo_kcp demo_cfg ?s [KDatagram ''evil:1'' demo_dgram, KRun 0 False demo_env]"
  have gs: "gw_kcp (ks_gw ?s) 0x01000000 = None" "ks_tasks ?s = []" "gw_sessions (ks_gw ?s) 0x01000000 = Some 0"
    "so_conn_id (gw_objs (ks_gw ?s) 0) = 0x01000000" "gw_next_arc (ks_gw ?s) = 1"
    by (simp_all add: plain_event_def ks_gw_def kcp_start_def gw_start_def gw_simps demo_conn case_prod_beta)
  note op = demo_kcp_open [OF gs(1,2)]
  have l: "?s1 = kcp_run demo_kcp demo_cfg ?s [KDatagram ''evil:1'' demo_dgram, KRun (length (ks_tasks ?s)) False demo_env]"
    using gs(2) by simp
  have "gw_sessions (ks_gw ?s1) 0x01000000 = Some 0" "so_conn_id (gw_objs (ks_gw ?s1) 0) = 0x01000000"
    "fst (send_packet demo_kcp (ks_objs ?s1 1) (peer_packet 0x01000000 BATTLE_FRAME_SYNC [7]))"
    using gs unfolding op by (simp_all add: send_packet_def)
  from kcp_datagram_takes_pushes [OF gs(1) demo_classify l, where fs = "[]", OF kcp_run_simps(1) [symmetric] refl this(1,2)
      gs(5) [symmetric] this(3) refl, of True]
  show ?thesis by blast
qed

end
