(* ===== verification/UdpPath.thy ===== *)
theory UdpPath
  imports EndToEnd Kcp_Props
begin

text \<open>
  An input of a battle over UDP, from the client's \<open>UdpBattle::send_input\<close> through the gateway's
  socket and the task of the datagram to the battle service.
\<close>

lemma udp_input_classified:
  assumes "length (udp_input_packet c input) \<le> MAX_DATAGRAM * 2"
  shows "classify_datagram (take (MAX_DATAGRAM * 2) (udp_input_packet c input)) = RawUdp"
  using assms by (simp add: classify_datagram_def udp_input_packet_def peer_packet_def udp_MAGIC_def)

text \<open>The socket's task spawns one task for it, and that task is the packet's handler.\<close>

lemma datagram_task_run:
  assumes "classify_datagram (take (MAX_DATAGRAM * 2) dg) = RawUdp"
    and "handle_packet env (ks_gw s) src (take (MAX_DATAGRAM * 2) dg) = (r, gw', es)"
  shows "kcp_step lib cfg (fst (kcp_step lib cfg s (KDatagram src dg))) (KRun (length (ks_tasks s)) late env) =
    (set_gw s gw', map Sent es)"
proof -
  have "(s\<lparr>ks_tasks := ks_tasks s @ [t]\<rparr>)\<lparr>ks_tasks := remove_nth (length (ks_tasks s)) (ks_tasks s @ [t])\<rparr> = s" for t
    by (simp add: remove_nth_def)
  then show ?thesis
    using assms by (simp add: udp_reader_def Let_def nth_append run_task_def)
qed

lemma input_not_join: "BATTLE_INPUT \<noteq> BATTLE_JOIN"
  by (simp add: battle_msg_defs DOMAIN_BATTLE_def)


text \<open>The first connection of a gateway, in battle 1 as player 3.\<close>

definition demo_in_battle :: battle_app where
  "demo_in_battle = (battle_app_new False ''n'')
     \<lparr>ba_conn_battle := [0x01000000 \<mapsto> (1, 3)], ba_battles := [1 \<mapsto> battle_new 1]\<rparr>"

definition demo_udp_sys :: "(bytes list \<times> bytes list) kcp_sys" where
  "demo_udp_sys = set_gw (kcp_start 1 ''pw'' False demo_none) unauth_gw"


end
