(* ===== verification/Scenario.thy ===== *)
theory Scenario
  imports Card_Props Battle Room Client
begin

text \<open>
  The program logic of \<open>grimoire-sim/src/main.rs\<close>: the card scenario with its loop, the client-side
  prediction of the battle scenario, the counters of the stress test, the sampling and the
  percentiles of the load generator, and the texts that are printed.

  \<^item> A scenario talks to the services through their handlers; the way of a request through client
    and gateway is \<open>request_round_trip\<close> of the root theory.
  \<^item> Durations are nanoseconds.  \<open>cos\<close> and \<open>sin\<close> are parameters.
\<close>

section \<open>The card scenario\<close>

datatype demo_end = Winner u32 | GaveUp | Broken

text \<open>\<open>str::contains\<close>.\<close>

definition contains :: "string \<Rightarrow> string \<Rightarrow> bool" where
  "contains hay needle \<longleftrightarrow> list_ex (\<lambda>i. take (length needle) (drop i hay) = needle) [0 ..< Suc (length hay)]"

definition turn_of :: "card_game_state option \<Rightarrow> u32" where
  "turn_of state = (case state of Some st \<Rightarrow> cs_turn_player st | None \<Rightarrow> 0)"

text \<open>
  One round of the loop: the player whose turn the last state says plays the first card; without a
  card the turn is ended instead.  \<open>Broken\<close> is a request that gets no answer.
\<close>

definition demo_step :: "u32 \<Rightarrow> u32 \<Rightarrow> u32 \<Rightarrow> card_game_state option \<Rightarrow> card_app \<Rightarrow>
    (demo_end + card_game_state option) \<times> card_app" where
  "demo_step a b p1_id state app =
     (let c = (if turn_of state = p1_id then a else b)
      in case card_play app c 0 0 of
           (Inr (CardPlayResp ok detail st'), app1, _) \<Rightarrow>
             (if (case st' of Some st \<Rightarrow> cs_phase st = 1 | None \<Rightarrow> False)
              then (Inl (Winner (case st' of Some st \<Rightarrow> cs_winner st | None \<Rightarrow> 0)), app1)
              else if \<not> ok \<and> contains detail msg_bad_card
              then (case card_end_turn app1 c of
                      (Inl _, app2, _) \<Rightarrow> (Inl Broken, app2)
                    | (Inr r, app2, _) \<Rightarrow>
                        (Inr (case st' of Some s \<Rightarrow> Some s
                              | None \<Rightarrow> (case r of CardEndTurnResp _ (Some s) \<Rightarrow> Some s | _ \<Rightarrow> state)), app2))
              else (Inr (case st' of Some s \<Rightarrow> Some s | None \<Rightarrow> state), app1))
         | (_, app1, _) \<Rightarrow> (Inl Broken, app1))"

definition MAX_ROUNDS :: nat where "MAX_ROUNDS = 40"

function card_loop :: "nat \<Rightarrow> u32 \<Rightarrow> u32 \<Rightarrow> u32 \<Rightarrow> card_game_state option \<Rightarrow> card_app \<Rightarrow> demo_end \<times> card_app" where
  "card_loop guard a b p1_id state app =
     (case demo_step a b p1_id state app of
        (Inl e, app') \<Rightarrow> (e, app')
      | (Inr state', app') \<Rightarrow>
          if MAX_ROUNDS < guard + 1 then (GaveUp, app') else card_loop (guard + 1) a b p1_id state' app')"
  by pat_completeness auto
termination by (relation "measure (\<lambda>(guard, _). MAX_ROUNDS + 1 - guard)") auto

declare card_loop.simps [simp del]

text \<open>The whole duel: both start, then the loop, from the first player's and state of A's answer.\<close>

definition card_demo :: "card_app \<Rightarrow> u32 \<Rightarrow> card_env \<Rightarrow> u32 \<Rightarrow> card_env \<Rightarrow> demo_end \<times> card_app" where
  "card_demo app a env_a b env_b =
     (case card_start app a (fst env_a) (snd env_a) of
        (Inr (CardStartResp sa), app1, _) \<Rightarrow>
          (case card_start app1 b (fst env_b) (snd env_b) of
             (Inr (CardStartResp _), app2, _) \<Rightarrow>
               (case sa of
                  None \<Rightarrow> card_loop 0 a b 0 None app2
                | Some st \<Rightarrow> if cs_players st = [] then (Broken, app2)
                            else card_loop 0 a b (cv_player_id (hd (cs_players st))) sa app2)
           | (_, app2, _) \<Rightarrow> (Broken, app2))
      | (_, app1, _) \<Rightarrow> (Broken, app1))"

subsection \<open>What the loop does to a duel\<close>

definition duel_with :: "card_app \<Rightarrow> u32 \<Rightarrow> u32 \<Rightarrow> u32 \<Rightarrow> u32 \<Rightarrow> card_game_state option \<Rightarrow> bool" where
  "duel_with app gid a b p1_id state \<longleftrightarrow> card_inv app \<and>
     (\<exists>g p q st. ca_games app gid = Some g \<and> cg_phase g = 0 \<and> cg_players g = [p, q] \<and>
        gp_conn_id p = a \<and> gp_conn_id q = b \<and> gp_player_id p = p1_id \<and>
        state = Some st \<and> cs_turn_player st = gp_player_id ([p, q] ! cg_turn g))"

text \<open>The cards on both hands, and a number that every round makes smaller while there are any.\<close>

definition cards_left :: "card_app \<Rightarrow> u32 \<Rightarrow> nat" where
  "cards_left app gid =
     (case ca_games app gid of None \<Rightarrow> 0 | Some g \<Rightarrow> sum_list (map (\<lambda>p. length (gp_hand p)) (cg_players g)))"

definition rounds_left :: "card_app \<Rightarrow> u32 \<Rightarrow> nat" where
  "rounds_left app gid =
     2 * cards_left app gid +
     (case ca_games app gid of None \<Rightarrow> 0 | Some g \<Rightarrow> if gp_hand (cg_players g ! cg_turn g) = [] then 1 else 0)"

lemma view_for_fields:
  "view_for g i = Inr v \<Longrightarrow> cs_turn_player v = gp_player_id (cg_players g ! cg_turn g) \<and>
     cs_phase v = cg_phase g \<and> cs_winner v = cg_winner g"
  by (auto simp: view_for_def split: if_splits)

lemma contains_refl [simp]: "contains s s"
proof -
  have "0 \<in> set [0 ..< Suc (length s)]" "take (length s) (drop 0 s) = s" by simp_all
  then show ?thesis unfolding contains_def list_ex_iff by blast
qed

lemma play_empty_hand:
  assumes "ca_conn_game s c = Some (gid, idx)" "ca_games s gid = Some g" "cg_phase g = 0" "cg_turn g = idx"
    "idx < length (cg_players g)" "gp_hand (cg_players g ! idx) = []"
  shows "card_play s c 0 0 = (Inr (play_fail msg_bad_card), s, [])"
  using assms by (simp add: card_play_def play_checks_def)

lemma play_first_card:
  assumes inv: "card_inv s" and c: "ca_conn_game s c = Some (gid, idx)" and g: "ca_games s gid = Some g" "cg_phase g = 0"
    "cg_turn g = idx" "length (cg_players g) = 2" "idx < 2" "gp_hand (cg_players g ! idx) \<noteq> []"
  shows "\<exists>d v es. card_play s c 0 0 =
      (Inr (CardPlayResp True d (Some v)), put_game s gid (fst (play_move g idx 0 (1 - idx))), es) \<and>
      view_for (fst (play_move g idx 0 (1 - idx))) idx = Inr v"
  using inv
proof (cases rule: card_play_cases [where c = c and h = 0 and t = 0])
  case (refused d)
  have "duel_ok (cg_players g)" using card_invD [OF inv g(1)] g(2) by (simp add: game_ok_def playing_ok_def)
  moreover obtain p q where pq: "cg_players g = [p, q]" using g(4) by (auto simp: length_Suc_conv numeral_2_eq_2)
  ultimately have "gp_player_id p \<noteq> gp_player_id q" by simp
  note v = choose_victim_duel [OF pq this g(5), of 0]
  have "play_checks g idx 0 0 = Inr (Inr (1 - idx))" using g v by (simp add: play_checks_def)
  then show ?thesis
    using refused c g(1) by (auto simp: card_play_def play_fail_def Let_def split: prod.splits sum.splits)
next
  case (moved gid' idx' g' g'' played v pushes)
  then have "gid' = gid" "idx' = idx" "g' = g" using c g by simp_all
  with moved show ?thesis by auto
qed

lemma end_turn_passes:
  assumes "ca_conn_game s c = Some (gid, idx)" "ca_games s gid = Some g" "cg_phase g = 0" "cg_turn g = idx"
    "length (cg_players g) = 2" "idx < 2"
  defines "g' \<equiv> g\<lparr>cg_turn := 1 - idx\<rparr>"
  shows "\<exists>v es. card_end_turn s c = (Inr (CardEndTurnResp True (Some v)), put_game s gid g', es) \<and> view_for g' idx = Inr v"
proof -
  have t: "cg_turn g' < length (cg_players g')" using assms by simp
  then obtain v where v: "view_for g' idx = Inr v" using view_for_ok by blast
  obtain es where es: "push_snapshot (put_game s gid g') gid = Inr es"
    using push_snapshot_ok [of "put_game s gid g'" gid] t by auto
  have m: "(idx + 1) mod 2 = 1 - idx" using assms(6) by (auto simp: less_2_cases_iff)
  have ne: "cg_players g \<noteq> []" using assms(5) by auto
  show ?thesis
    using assms(1-5) ne v es m unfolding card_end_turn_def by (simp add: Let_def g'_def put_game_def)
qed

text \<open>One round: the game is won, or the turn has passed with a card fewer or with an empty hand.\<close>

lemma demo_step_duel:
  assumes "duel_with app gid a b p1 state"
  shows "(\<exists>w app' g'. demo_step a b p1 state app = (Inl (Winner w), app') \<and> ca_games app' gid = Some g' \<and>
        cg_phase g' = 1 \<and> cg_winner g' = w \<and> w \<in> gp_player_id ` set (cg_players g')) \<or>
    (\<exists>state' app'. demo_step a b p1 state app = (Inr state', app') \<and> duel_with app' gid a b p1 state' \<and>
        cards_left app' gid \<le> cards_left app gid \<and>
        (0 < cards_left app gid \<longrightarrow> rounds_left app' gid < rounds_left app gid))"
proof -
  from assms obtain g p q st where inv: "card_inv app" and g: "ca_games app gid = Some g" "cg_phase g = 0"
    and ps: "cg_players g = [p, q]" and ab: "gp_conn_id p = a" "gp_conn_id q = b" "gp_player_id p = p1"
    and st: "state = Some st" "cs_turn_player st = gp_player_id ([p, q] ! cg_turn g)"
    by (auto simp: duel_with_def)
  define i where "i = cg_turn g"
  define c where "c = (if i = 0 then a else b)"
  have ok: "playing_ok (ca_conn_game app) gid g" using card_invD [OF inv g(1)] g(2) by (simp add: game_ok_def)
  then have i: "i < 2" and seat: "seats (ca_conn_game app) gid [p, q]" and duel: "duel_ok [p, q]"
    by (simp_all add: playing_ok_def ps i_def)
  have hp: "gp_hp p \<noteq> 0" "gp_hp q \<noteq> 0" "gp_player_id p \<noteq> gp_player_id q" using duel by auto
  have c: "ca_conn_game app c = Some (gid, i)"
    using seat i ab by (auto simp: seats_def c_def less_2_cases_iff nth_Cons')
  have who: "(if turn_of state = p1 then a else b) = c"
    using st ab hp(3) i by (auto simp: turn_of_def c_def less_2_cases_iff simp flip: i_def)
  have len: "length (cg_players g) = 2" using ps by simp
  show ?thesis
  proof (cases "gp_hand (cg_players g ! i) = []")
    case True
    note empty = play_empty_hand [OF c g(1,2) i_def [symmetric] _ True]
    define g' where "g' = g\<lparr>cg_turn := 1 - i\<rparr>"
    obtain v es where v: "card_end_turn app c = (Inr (CardEndTurnResp True (Some v)), put_game app gid g', es)"
      "view_for g' i = Inr v"
      using end_turn_passes [OF c g(1,2) i_def [symmetric] len i] by (auto simp: g'_def)
    have step: "demo_step a b p1 state app = (Inr (Some v), put_game app gid g')"
      using empty i ps who v(1) by (simp add: demo_step_def play_fail_def Let_def)
    have "card_inv (put_game app gid g')" using card_end_turn_inv(1) [OF inv, of c] v(1) by simp
    then have d: "duel_with (put_game app gid g') gid a b p1 (Some v)"
      using view_for_fields [OF v(2)] g(2) ps ab by (simp add: duel_with_def g'_def)
    have "rounds_left (put_game app gid g') gid < rounds_left app gid" if "0 < cards_left app gid"
      using True that i ps by (auto simp: rounds_left_def cards_left_def g g'_def less_2_cases_iff simp flip: i_def)
    moreover have "cards_left (put_game app gid g') gid = cards_left app gid"
      by (simp add: cards_left_def g g'_def)
    ultimately show ?thesis using step d by (intro disjI2) auto
  next
    case False
    define g' where "g' = fst (play_move g i 0 (1 - i))"
    obtain d v es where pl: "card_play app c 0 0 = (Inr (CardPlayResp True d (Some v)), put_game app gid g', es)"
      and v: "view_for g' i = Inr v"
      using play_first_card [OF inv c g i_def [symmetric] len i False] by (auto simp: g'_def)
    have step: "demo_step a b p1 state app =
        (if cg_phase g' = 1 then Inl (Winner (cg_winner g')) else Inr (Some v), put_game app gid g')"
      using pl who view_for_fields [OF v] by (simp add: demo_step_def Let_def)
    have inv': "card_inv (put_game app gid g')" using card_play_inv(1) [OF inv, of c 0 0] pl by simp
    note mv = play_move_duel [OF ps g(2) hp]
    consider "i = 0" | "i = 1" using i by linarith
    then show ?thesis
    proof cases
      case 1
      then obtain x xs where h: "gp_hand p = x # xs" using False ps by (cases "gp_hand p") auto
      have g': "g' = (let q' = hit q x; g1 = g\<lparr>cg_players := [struck p 0, q']\<rparr>
         in if gp_hp q' = 0 then g1\<lparr>cg_phase := 1, cg_winner := gp_player_id p\<rparr> else g1\<lparr>cg_turn := 1\<rparr>)"
        using mv(1) [of 0] 1 h by (simp add: g'_def Let_def)
      show ?thesis
      proof (cases "gp_hp (hit q x) = 0")
        case True
        then show ?thesis using step by (intro disjI1) (simp add: g' Let_def)
      next
        case alive: False
        then have "duel_with (put_game app gid g') gid a b p1 (Some v)"
          using inv' view_for_fields [OF v] g(2) ab by (simp add: duel_with_def g' Let_def)
        moreover have "cards_left (put_game app gid g') gid \<le> cards_left app gid"
          "rounds_left (put_game app gid g') gid < rounds_left app gid"
          using alive h 1 ps by (simp_all add: cards_left_def rounds_left_def g g' Let_def remove_nth_def i_def)
        ultimately show ?thesis using step alive g(2) by (intro disjI2) (simp add: g' Let_def)
      qed
    next
      case 2
      then obtain x xs where h: "gp_hand q = x # xs" using False ps by (cases "gp_hand q") auto
      have g': "g' = (let p' = hit p x; g1 = g\<lparr>cg_players := [p', struck q 0]\<rparr>
         in if gp_hp p' = 0 then g1\<lparr>cg_phase := 1, cg_winner := gp_player_id q\<rparr> else g1\<lparr>cg_turn := 0\<rparr>)"
        using mv(2) [of 0] 2 h by (simp add: g'_def Let_def)
      show ?thesis
      proof (cases "gp_hp (hit p x) = 0")
        case True
        then show ?thesis using step by (intro disjI1) (simp add: g' Let_def)
      next
        case alive: False
        then have "duel_with (put_game app gid g') gid a b p1 (Some v)"
          using inv' view_for_fields [OF v] g(2) ab by (simp add: duel_with_def g' Let_def)
        moreover have "cards_left (put_game app gid g') gid \<le> cards_left app gid"
          "rounds_left (put_game app gid g') gid < rounds_left app gid"
          using alive h 2 ps by (simp_all add: cards_left_def rounds_left_def g g' Let_def remove_nth_def i_def)
        ultimately show ?thesis using step alive g(2) by (intro disjI2) (simp add: g' Let_def)
      qed
    qed
  qed
qed

text \<open>How the loop ends: somebody has won, or no cards are left and both players live.\<close>

definition demo_outcome :: "u32 \<Rightarrow> demo_end \<times> card_app \<Rightarrow> bool" where
  "demo_outcome gid r \<longleftrightarrow>
     (case r of
        (Winner w, app) \<Rightarrow> (case ca_games app gid of None \<Rightarrow> False
            | Some g \<Rightarrow> cg_phase g = PHASE_FINISHED \<and> cg_winner g = w \<and> w \<in> gp_player_id ` set (cg_players g))
      | (GaveUp, app) \<Rightarrow> (case ca_games app gid of None \<Rightarrow> False
            | Some g \<Rightarrow> cg_phase g = PHASE_PLAYING \<and> (\<forall>p\<in>set (cg_players g). gp_hand p = [] \<and> gp_hp p \<noteq> 0))
      | (Broken, _) \<Rightarrow> False)"

lemma duel_over:
  assumes "duel_with app gid a b p1 state" "cards_left app gid = 0"
  shows "demo_outcome gid (GaveUp, app)"
proof -
  from assms(1) obtain g p q where g: "card_inv app" "ca_games app gid = Some g" "cg_phase g = 0" "cg_players g = [p, q]"
    by (auto simp: duel_with_def)
  then have "duel_ok [p, q]" using card_invD [OF g(1,2)] by (simp add: game_ok_def playing_ok_def)
  then show ?thesis using g assms(2) by (auto simp: demo_outcome_def cards_left_def)
qed

lemma card_loop_duel:
  assumes "duel_with app gid a b p1 state" "guard \<le> MAX_ROUNDS"
    and "cards_left app gid = 0 \<or> rounds_left app gid \<le> MAX_ROUNDS + 1 - guard"
  shows "demo_outcome gid (card_loop guard a b p1 state app)"
  using assms
proof (induction guard a b p1 state app rule: card_loop.induct)
  case (1 guard a b p1 state app)
  from demo_step_duel [OF 1(2)] show ?case
  proof (elim disjE exE conjE)
    fix w app' g'
    assume "demo_step a b p1 state app = (Inl (Winner w), app')" "ca_games app' gid = Some g'" "cg_phase g' = 1"
      "cg_winner g' = w" "w \<in> gp_player_id ` set (cg_players g')"
    then show ?thesis by (simp add: card_loop.simps [of guard] demo_outcome_def)
  next
    fix state' app'
    assume s: "demo_step a b p1 state app = (Inr state', app')" "duel_with app' gid a b p1 state'"
      "cards_left app' gid \<le> cards_left app gid"
      "0 < cards_left app gid \<longrightarrow> rounds_left app' gid < rounds_left app gid"
    have less: "cards_left app' gid = 0 \<or> rounds_left app' gid \<le> MAX_ROUNDS + 1 - (guard + 1)"
      using 1(4) s(3,4) by linarith
    show ?thesis
    proof (cases "MAX_ROUNDS < guard + 1")
      case True
      with less have "cards_left app' gid = 0" by (auto simp: rounds_left_def)
      with duel_over [OF s(2)] True s(1) show ?thesis by (simp add: card_loop.simps [of guard])
    next
      case False
      then have "demo_outcome gid (card_loop (guard + 1) a b p1 state' app')"
        using 1(1) [OF s(1) [symmetric] refl] s(2) less by simp
      then show ?thesis using False s(1) by (simp add: card_loop.simps [of guard])
    qed
  qed
qed

section \<open>Prediction in the battle scenario\<close>

text \<open>
  The client's own position: one input moves it in the same arithmetic as the service, with the
  numbers written out.
\<close>

definition predict :: "f32 \<times> f32 \<Rightarrow> f32 \<times> f32 \<Rightarrow> f32 \<times> f32" where
  "predict p d =
     (let nrm = f32_sqrt (f32_add (f32_mul (fst d) (fst d)) (f32_mul (snd d) (snd d)));
          step = (\<lambda>c. f32_mul (f32_mul (f32_div c nrm) (Fin 8)) (round_f32 (1 / 20)))
      in if f32_less (round_f32 (1 / 1000000)) nrm
         then (f32_add (fst p) (step (fst d)), f32_add (snd p) (step (snd d)))
         else p)"

definition predicted_start :: "f32 \<times> f32" where
  "predicted_start = (Fin 25, Fin 50)"

text \<open>The inputs of a scenario: the angle grows by \<open>step\<close>, the client's frame number by one.\<close>

definition next_input :: "(f32 \<Rightarrow> f32) \<Rightarrow> (f32 \<Rightarrow> f32) \<Rightarrow> f32 \<Rightarrow> f32 \<times> u64 \<Rightarrow> (f32 \<times> f32 \<times> u64) \<times> f32 \<times> u64" where
  "next_input cosf sinf step tf =
     (let t = f32_add (fst tf) step; f = snd tf + 1 in ((cosf t, sinf t, f), t, f))"

fun inputs :: "(f32 \<Rightarrow> f32) \<Rightarrow> (f32 \<Rightarrow> f32) \<Rightarrow> f32 \<Rightarrow> f32 \<times> u64 \<Rightarrow> nat \<Rightarrow> (f32 \<times> f32 \<times> u64) list" where
  "inputs cosf sinf step tf 0 = []"
| "inputs cosf sinf step tf (Suc n) =
     (case next_input cosf sinf step tf of (i, tf') \<Rightarrow> i # inputs cosf sinf step tf' n)"

text \<open>The one resynchronisation the scenario asks for: which frame it says it has.\<close>

definition resync_request :: "bool \<Rightarrow> u64 \<Rightarrow> u64 option" where
  "resync_request resynced frame = (if \<not> resynced \<and> 15 \<le> frame then Some (saturating_sub frame 3) else None)"

section \<open>The stress test\<close>

definition stress_clients :: "nat \<Rightarrow> nat" where
  "stress_clients clients = (let n = max clients 2 in n - n mod 2)"

record stress =
  sx_frames :: u64
  sx_prev :: u64
  sx_gaps :: u64
  sx_sum_lat :: nat
  sx_min_int :: "nat option"     \<comment> \<open>\<open>Duration::MAX\<close> is \<open>None\<close>\<close>
  sx_max_int :: nat
  sx_last_recv :: nat

definition stress_new :: "nat \<Rightarrow> stress" where
  "stress_new now = \<lparr>sx_frames = 0, sx_prev = 0, sx_gaps = 0, sx_sum_lat = 0, sx_min_int = None, sx_max_int = 0,
                     sx_last_recv = now\<rparr>"

text \<open>A frame with the given number arrives at time \<open>t0\<close>.\<close>

definition stress_recv :: "stress \<Rightarrow> u64 \<times> nat \<Rightarrow> stress" where
  "stress_recv s fr =
     (case fr of (frame, t0) \<Rightarrow>
        let frames = sx_frames s + 1;
            gaps = (if sx_prev s \<noteq> 0 \<and> frame \<noteq> sx_prev s + 1 then sx_gaps s + 1 else sx_gaps s);
            s1 = s\<lparr>sx_frames := frames, sx_prev := frame, sx_gaps := gaps\<rparr>;
            iv = t0 - sx_last_recv s
        in (if 1 < frames
            then s1\<lparr>sx_sum_lat := sx_sum_lat s + iv,
                    sx_min_int := (case sx_min_int s of None \<Rightarrow> Some iv | Some m \<Rightarrow> Some (if iv < m then iv else m)),
                    sx_max_int := (if sx_max_int s < iv then iv else sx_max_int s)\<rparr>
            else s1)\<lparr>sx_last_recv := t0\<rparr>)"

text \<open>The totals over the clients: frames, gaps, latency, and the number of clients that ended.\<close>

definition stress_totals :: "(u64 \<times> u64 \<times> nat) option list \<Rightarrow> u64 \<times> u64 \<times> nat \<times> u64" where
  "stress_totals rs =
     foldl (\<lambda>(tf, tg, tl, cnt) r. case r of Some (f, g, l) \<Rightarrow> (tf + f, tg + g, tl + l, cnt + 1) | None \<Rightarrow> (tf, tg, tl, cnt))
       (0, 0, 0, 0) rs"

section \<open>The load generator\<close>

text \<open>One worker: an answer counts, and every hundredth one leaves its latency as a sample.\<close>

definition bench_answer :: "u64 \<times> nat list \<Rightarrow> bool \<times> nat \<Rightarrow> u64 \<times> nat list" where
  "bench_answer st r =
     (case (st, r) of ((n, lats), (ok, lat)) \<Rightarrow>
        if ok then (n + 1, if (n + 1) mod 100 = 0 then lats @ [lat] else lats) else (n, lats))"

text \<open>\<open>(len as f64) * q\<close>: the product rounded to 53 bits; \<open>len\<close> itself is exact below \<open>2 ^ 53\<close>.\<close>

definition mul_f64 :: "nat \<Rightarrow> rat \<Rightarrow> rat" where
  "mul_f64 n q =
     (let r = of_nat n * q; u = pow2 (exponent r - 52) in if r = 0 then 0 else of_int (half_even (r / u)) * u)"

definition percentile :: "nat list \<Rightarrow> rat \<Rightarrow> nat" where
  "percentile lats q =
     (if lats = [] then 0
      else let idx = nat \<lceil>mul_f64 (length lats) q\<rceil> in lats ! (max 1 (min idx (length lats)) - 1))"

definition p50 :: "nat list \<Rightarrow> nat" where
  "p50 lats = percentile (sort lats) (1 / 2)"

text \<open>The double next to \<open>0.99\<close>.\<close>

definition p99 :: "nat list \<Rightarrow> nat" where
  "p99 lats = percentile (sort lats) (4458563631096791 / 2 ^ 52)"

section \<open>What is printed\<close>

text \<open>\<open>{:.0}\<close>: the nearest integer, ties to even; a negative number keeps its sign.\<close>

definition fmt_f32 :: "f32 \<Rightarrow> string" where
  "fmt_f32 x =
     (case x of
        NaN \<Rightarrow> ''NaN''
      | Inf s \<Rightarrow> (if s then ''-inf'' else ''inf'')
      | Fin q \<Rightarrow> (if q < 0 then ''-'' else []) @ show_base 10 (nat (half_even \<bar>q\<bar>)))"

fun join_text :: "string \<Rightarrow> string list \<Rightarrow> string" where
  "join_text sep [] = []"
| "join_text sep [x] = x"
| "join_text sep (x # xs) = x @ sep @ join_text sep xs"

definition fmt_battle :: "battle_player list \<Rightarrow> string" where
  "fmt_battle ps =
     join_text '' '' (map (\<lambda>p. ''P'' @ fmt_u32 (vp_player_id p) @ ''@('' @ fmt_f32 (vp_x p) @ '','' @ fmt_f32 (vp_y p) @ '')'') ps)"

definition fmt_card_state :: "card_game_state option \<Rightarrow> string" where
  "fmt_card_state s =
     (case s of
        None \<Rightarrow> ''none''
      | Some g \<Rightarrow>
          ''game#'' @ fmt_u32 (cs_game_id g) @ '' phase='' @ fmt_u32 (cs_phase g) @ '' turn=P'' @ fmt_u32 (cs_turn_player g)
          @ '' winner='' @ fmt_u32 (cs_winner g)
          @ concat (map (\<lambda>p. '' [P'' @ fmt_u32 (cv_player_id p) @ '' hp='' @ fmt_u32 (cv_hp p) @ '' score=''
               @ fmt_u32 (cv_score p) @ '' hand'' @ fmt_u32 (cv_hand_count p) @ '']'') (cs_players g)))"

definition fmt_hand :: "card_game_state option \<Rightarrow> string" where
  "fmt_hand s =
     (case s of
        None \<Rightarrow> ''none''
      | Some st \<Rightarrow>
          (case find (\<lambda>p. cv_hand p \<noteq> []) (cs_players st) of
             None \<Rightarrow> []
           | Some p \<Rightarrow> join_text '', '' (map (\<lambda>c. cd_name c @ ''['' @ fmt_u32 (cd_power c) @ '']'') (cv_hand p))))"

text \<open>The generated decoders of the pushes.\<close>

record push_decoders =
  pd_state :: "bytes \<Rightarrow> string + (string \<times> u32 \<times> room_info option)"
  pd_chat :: "bytes \<Rightarrow> string + (string \<times> string)"
  pd_frame :: "bytes \<Rightarrow> string + (u64 \<times> battle_player list)"
  pd_card :: "bytes \<Rightarrow> string + card_game_state option"

text \<open>The line \<open>wait_pushes\<close> prints for a frame, if any.\<close>

definition push_line :: "push_decoders \<Rightarrow> string \<Rightarrow> frame \<Rightarrow> string option" where
  "push_line pd kind f =
     (let head = ''['' @ kind @ '']''
      in if f_msg_id f = ROOM_STATE_PUSH then
           (case pd_state pd (f_payload f) of
              Inr (event, actor, r) \<Rightarrow>
                Some (head @ '' push event='' @ event @ '' actor='' @ fmt_u32 actor @ '' room#''
                  @ fmt_u32 (case r of Some i \<Rightarrow> ri_room_id i | None \<Rightarrow> 0) @ '' members=''
                  @ show_base 10 (case r of Some i \<Rightarrow> length (ri_members i) | None \<Rightarrow> 0))
            | Inl _ \<Rightarrow> None)
         else if f_msg_id f = ROOM_CHAT_PUSH then
           (case pd_chat pd (f_payload f) of
              Inr (name, txt) \<Rightarrow> Some (head @ '' chat '' @ name @ '': '' @ txt) | Inl _ \<Rightarrow> None)
         else if f_msg_id f = BATTLE_FRAME_SYNC then
           (case pd_frame pd (f_payload f) of
              Inr (frame, ps) \<Rightarrow> Some (head @ '' frame#'' @ show_base 10 (unat frame) @ '': '' @ fmt_battle ps)
            | Inl _ \<Rightarrow> None)
         else if f_msg_id f = CARD_SNAPSHOT_PUSH then
           (case pd_card pd (f_payload f) of
              Inr s \<Rightarrow> Some (head @ '' card snapshot: '' @ fmt_card_state s) | Inl _ \<Rightarrow> None)
         else None)"

text \<open>\<open>wait_pushes\<close> over what the channel yields: a lag ends it, like the end of the channel.\<close>

fun wait_pushes :: "push_decoders \<Rightarrow> string \<Rightarrow> frame option list \<Rightarrow> string list" where
  "wait_pushes pd kind [] = []"
| "wait_pushes pd kind (None # fs) = []"
| "wait_pushes pd kind (Some f # fs) =
     (case push_line pd kind f of Some l \<Rightarrow> l # wait_pushes pd kind fs | None \<Rightarrow> wait_pushes pd kind fs)"

end
