(* ===== verification/Scenario_Props.thy ===== *)
theory Scenario_Props
  imports Scenario Battle_Props
begin

text \<open>
  What the scenarios of the test client rely on: the card scenario plays a duel to its end, the
  battle scenario's prediction agrees with the service, and the load generator's percentiles are
  order statistics of its samples.
\<close>

section \<open>The card scenario\<close>

definition no_waiting :: "card_app \<Rightarrow> bool" where
  "no_waiting app \<longleftrightarrow> (\<forall>gid g. ca_games app gid = Some g \<longrightarrow> cg_phase g = PHASE_PLAYING \<longrightarrow> is_full g)"

lemma find_waiting_none:
  assumes "no_waiting app"
  shows "find_waiting app it = None"
proof (cases "find_waiting app it")
  case (Some gid)
  then obtain g where "ca_games app gid = Some g" "cg_phase g = 0" "length (cg_players g) < 2"
    by (rule find_waiting_Some)
  moreover have "is_full g" using assms calculation unfolding no_waiting_def by simp
  ultimately have False by (simp add: is_full_def)
  then show ?thesis ..
qed

lemma find_waiting_only:
  assumes "ca_games app gid = Some g" "cg_phase g = PHASE_PLAYING" "\<not> is_full g" "gid \<in> set it"
    and "\<And>gid' g'. ca_games app gid' = Some g' \<Longrightarrow> cg_phase g' = PHASE_PLAYING \<Longrightarrow> gid' \<noteq> gid \<Longrightarrow> is_full g'"
  shows "find_waiting app it = Some gid"
proof -
  let ?P = "\<lambda>(gid, g). cg_phase g = PHASE_PLAYING \<and> \<not> is_full g"
  have "(gid, g) \<in> set (entries it (ca_games app))" using assms(1,4) by (simp add: set_entries)
  then have "find ?P (entries it (ca_games app)) \<noteq> None" using assms(2,3) by (auto simp: find_None_iff)
  then obtain e where e: "find ?P (entries it (ca_games app)) = Some e" by blast
  from find_SomeD [OF e] have m: "e \<in> set (entries it (ca_games app))" "?P e" by blast+
  obtain k h where kh: "e = (k, h)" by (cases e)
  with m have "ca_games app k = Some h" "cg_phase h = PHASE_PLAYING" "\<not> is_full h" by (auto simp: set_entries)
  with assms(5) have "k = gid" by blast
  then show ?thesis using e kh by (simp add: find_waiting_def)
qed

lemma card_demo_duel:
  assumes "card_inv app" "ca_conn_game app a = None" "ca_conn_game app b = None" "a \<noteq> b" "no_waiting app"
    and "mset (sh deck) = mset deck" "mset (sh' deck) = mset deck"
    and np: "ca_next_player app \<noteq> - 1" "ca_next_player app + 1 \<noteq> - 1"
    and "ca_next_game app \<in> set it'"
  shows "demo_outcome (ca_next_game app) (card_demo app a (it, sh) b (it', sh'))"
proof -
  let ?gid = "ca_next_game app" and ?p = "ca_next_player app"
  define g where "g = new_game ?gid a ?p sh"
  define app1 where "app1 = (seated app a ?gid 0 g)\<lparr>ca_next_game := ?gid + 1\<rparr>"
  define g' where "g' = add_player g b (?p + 1) sh'"
  obtain v where v: "view_for g 0 = Inr v" using view_for_ok [of g 0] by (auto simp: g_def new_game_def)
  have s1: "card_start app a it sh = (Inr (CardStartResp (Some v)), app1, start_directory app1 ?gid False)"
    using assms(2) v find_waiting_none [OF assms(5)] start_opens [of app a sh]
    by (simp add: card_start_def start_existing_def Let_def app1_def g_def)
  have i1: "card_inv app1" unfolding app1_def g_def using opened_inv [OF assms(1,2), where shuffle = sh] assms(6) np(1) by simp
  have p: "cg_players g = [new_player a ?p sh]" "cg_phase g = 0" "cg_turn g = 0" "cg_id g = ?gid"
    by (simp_all add: g_def new_game_def)
  have g1: "ca_games app1 ?gid = Some g" "ca_conn_game app1 b = None" "ca_next_player app1 = ?p + 1"
    using assms(3,4) by (simp_all add: app1_def)
  have fw: "find_waiting app1 it' = Some ?gid"
  proof (rule find_waiting_only [OF g1(1)])
    fix k h assume "ca_games app1 k = Some h" "cg_phase h = PHASE_PLAYING" "k \<noteq> ?gid"
    then show "is_full h" using assms(5) by (auto simp: app1_def no_waiting_def)
  qed (use assms(10) p in \<open>simp_all add: is_full_def\<close>)
  have "gp_conn_id (new_player a ?p sh) \<noteq> b" using assms(4) by (simp add: new_player_def)
  from start_joins [OF g1(1) p(1,3) this, of sh'] obtain w es where
    "start_enter app1 b (Some ?gid) sh' = (Inr (CardStartResp (Some w)), seated app1 b ?gid 1 g', es)"
    by (auto simp: Let_def g1(3) g'_def)
  then have s2: "card_start app1 b it' sh' = (Inr (CardStartResp (Some w)), seated app1 b ?gid 1 g', es)"
    using g1(2) fw by (simp add: card_start_def start_existing_def)
  have i2: "card_inv (seated app1 b ?gid 1 g')"
    unfolding g'_def using joined_inv [OF i1 g1(2) _ _ g1(1) p(2,1), where shuffle = sh'] assms(7) np(2) g1(3) by simp
  have g': "cg_players g' = [new_player a ?p sh, new_player b (?p + 1) sh']" "cg_phase g' = 0" "cg_turn g' = 0"
    using p by (simp_all add: g'_def add_player_def)
  have vp: "cs_players v = [player_view 0 (0, new_player a ?p sh)]" "cs_turn_player v = ?p"
    using v p by (auto simp: view_for_def new_player_def)
  have "duel_with (seated app1 b ?gid 1 g') ?gid a b ?p (Some v)"
    using i2 g' vp(2) by (simp add: duel_with_def new_player_def)
  moreover have "rounds_left (seated app1 b ?gid 1 g') ?gid \<le> MAX_ROUNDS + 1"
  proof -
    have "length (deal_hand s) \<le> 3" for s by (simp add: deal_hand_def)
    then have "cards_left (seated app1 b ?gid 1 g') ?gid \<le> 6"
      using g' by (simp add: cards_left_def new_player_def) (metis add_le_mono numeral_Bit0)
    then show ?thesis by (simp add: rounds_left_def MAX_ROUNDS_def)
  qed
  ultimately have "demo_outcome ?gid (card_loop 0 a b ?p (Some v) (seated app1 b ?gid 1 g'))"
    by (intro card_loop_duel) auto
  moreover have "cv_player_id (player_view 0 (0, new_player a ?p sh)) = ?p"
    by (simp add: player_view_def new_player_def)
  ultimately show ?thesis using s1 s2 vp(1) by (simp add: card_demo_def)
qed



section \<open>Prediction\<close>

lemma predict_frame_dt: "round_f32 (1 / 20) = frame_dt"
  by (simp add: frame_dt_def FRAME_RATE_def)

text \<open>One move of the service is the prediction, clamped to the field.\<close>

lemma clamp_in_field: "in_field x \<Longrightarrow> f32_clamp x (Fin 0) (Fin 100) = x"
  by (auto simp: in_field_def f32_clamp_def Let_def split: f32.splits)

lemma move_is_prediction:
  assumes "in_field (fst (predict (bp_x p, bp_y p) (dx, dy)))" "in_field (snd (predict (bp_x p, bp_y p) (dx, dy)))"
  shows "(bp_x (move_player p dx dy), bp_y (move_player p dx dy)) = predict (bp_x p, bp_y p) (dx, dy)"
  using assms
  by (auto simp: move_player_def predict_def Let_def axis_step_def predict_frame_dt SPEED_def MIN_NORM_def FIELD_def
      clamp_in_field split: if_splits)

definition predicted_in_field :: "f32 \<times> f32 \<Rightarrow> (f32 \<times> f32) list \<Rightarrow> bool" where
  "predicted_in_field pos ds \<longleftrightarrow>
     (\<forall>k\<le>length ds. in_field (fst (foldl predict pos (take k ds))) \<and> in_field (snd (foldl predict pos (take k ds))))"

lemma predicted_in_field_Cons: "predicted_in_field pos (d # ds) \<Longrightarrow> predicted_in_field (predict pos d) ds"
  unfolding predicted_in_field_def by (metis Suc_le_mono foldl_Cons length_Cons take_Suc_Cons)

lemma predicted_in_field_append:
  assumes a: "predicted_in_field pos (ds @ es)"
  shows "predicted_in_field pos ds \<and> predicted_in_field (foldl predict pos ds) es"
proof
  have "in_field (fst (foldl predict pos (take k ds))) \<and> in_field (snd (foldl predict pos (take k ds)))"
    if "k \<le> length ds" for k
    using a [unfolded predicted_in_field_def, rule_format, of k] that by simp
  then show "predicted_in_field pos ds" by (simp add: predicted_in_field_def)
  have "in_field (fst (foldl predict (foldl predict pos ds) (take k es))) \<and>
      in_field (snd (foldl predict (foldl predict pos ds) (take k es)))" if "k \<le> length es" for k
    using a [unfolded predicted_in_field_def, rule_format, of "length ds + k"] that by simp
  then show "predicted_in_field (foldl predict pos ds) es" by (simp add: predicted_in_field_def)
qed

lemma moves_are_predictions:
  "predicted_in_field (bp_x p, bp_y p) (map snd is) \<Longrightarrow>
   (bp_x (fold (\<lambda>(_, dx, dy) p. move_player p dx dy) is p), bp_y (fold (\<lambda>(_, dx, dy) p. move_player p dx dy) is p))
     = foldl predict (bp_x p, bp_y p) (map snd is)"
proof (induction "is" arbitrary: p)
  case (Cons i "is")
  obtain q dx dy where i: "i = (q, dx, dy)" by (metis prod_cases3)
  have "in_field (fst (predict (bp_x p, bp_y p) (dx, dy))) \<and> in_field (snd (predict (bp_x p, bp_y p) (dx, dy)))"
    using Cons.prems unfolding predicted_in_field_def i by (auto dest!: spec [of _ 1])
  then have m: "(bp_x (move_player p dx dy), bp_y (move_player p dx dy)) = predict (bp_x p, bp_y p) (dx, dy)"
    using move_is_prediction by blast
  have "predicted_in_field (predict (bp_x p, bp_y p) (dx, dy)) (map snd is)"
    using predicted_in_field_Cons Cons.prems i by simp
  then show ?case using Cons.IH [of "move_player p dx dy"] m by (simp add: i)
qed simp

text \<open>The inputs of a player that wait in a battle's queue for the next frames, in order.\<close>

definition frame_moves :: "battle \<Rightarrow> u32 \<Rightarrow> nat \<Rightarrow> (f32 \<times> f32) list" where
  "frame_moves b pid i =
     (case bt_pending b (bt_frame b + word_of_nat i) of
        None \<Rightarrow> [] | Some is \<Rightarrow> map snd (filter (\<lambda>i. fst i = pid) is))"

definition queued_moves :: "battle \<Rightarrow> u32 \<Rightarrow> nat \<Rightarrow> (f32 \<times> f32) list" where
  "queued_moves b pid n = concat (map (frame_moves b pid) [0 ..< n])"

lemma queued_moves_tick:
  assumes "Suc n < 2 ^ 64"
  shows "queued_moves b pid (Suc n) = frame_moves b pid 0 @ queued_moves (tick_frame b it) pid n"
proof -
  have "frame_moves b pid (Suc i) = frame_moves (tick_frame b it) pid i" if "i < n" for i
  proof -
    have "(word_of_nat (Suc i) :: u64) \<noteq> 0"
      using assms that by (simp add: word_unat_eq_iff unat_of_nat del: of_nat_Suc)
    then have "bt_frame b + word_of_nat (Suc i) \<noteq> bt_frame b" by simp
    then show ?thesis by (simp add: frame_moves_def tick_keeps_pending algebra_simps)
  qed
  then have "map (frame_moves b pid) (map Suc [0 ..< n]) = map (frame_moves (tick_frame b it) pid) [0 ..< n]" by simp
  then show ?thesis by (simp add: queued_moves_def upt_conv_Cons map_Suc_upt del: upt_Suc map_map)
qed

lemma tick_moves:
  assumes "map_of (bt_players b) pid = Some p" "predicted_in_field (bp_x p, bp_y p) (frame_moves b pid 0)"
  shows "\<exists>p'. map_of (bt_players (tick_frame b it)) pid = Some p' \<and>
    (bp_x p', bp_y p') = foldl predict (bp_x p, bp_y p) (frame_moves b pid 0)"
proof (cases "bt_pending b (bt_frame b)")
  case None
  then show ?thesis using assms(1) by (simp add: tick_frame_def Let_def frame_moves_def)
next
  case (Some "is")
  then show ?thesis
    using tick_player [OF Some, of it pid] moves_are_predictions [of p "filter (\<lambda>i. fst i = pid) is"] assms
    by (simp add: frame_moves_def)
qed

text \<open>
  C40: The client's prediction is the service's movement: over any number of frames, a player is
  where predicting the inputs queued for it puts it, whatever the other players do, as long
  as no predicted position leaves the field; the spawn of the first player is where the
  prediction starts.
\<close>

theorem prediction_matches_server:
  assumes "map_of (bt_players b) pid = Some p" "length its < 2 ^ 64"
    and "predicted_in_field (bp_x p, bp_y p) (queued_moves b pid (length its))"
  shows "\<exists>p'. map_of (bt_players (foldl tick_frame b its)) pid = Some p' \<and>
    (bp_x p', bp_y p') = foldl predict (bp_x p, bp_y p) (queued_moves b pid (length its)) \<and>
    (bt_players b0 = [] \<longrightarrow> (\<exists>q. map_of (bt_players (battle_add_player b0 r)) (bp_player_id r) = Some q \<and>
       (bp_x q, bp_y q) = predicted_start))"
proof -
  have "\<exists>p'. map_of (bt_players (foldl tick_frame b its)) pid = Some p' \<and>
    (bp_x p', bp_y p') = foldl predict (bp_x p, bp_y p) (queued_moves b pid (length its))"
    using assms
  proof (induction its arbitrary: b p)
    case Nil
    then show ?case by (simp add: queued_moves_def)
  next
    case (Cons it its)
    have q: "queued_moves b pid (length (it # its)) = frame_moves b pid 0 @ queued_moves (tick_frame b it) pid (length its)"
      using queued_moves_tick [of "length its" b pid it] Cons.prems(2) by simp
    note in_f = predicted_in_field_append [OF Cons.prems(3) [unfolded q]]
    obtain p1 where p1: "map_of (bt_players (tick_frame b it)) pid = Some p1"
      "(bp_x p1, bp_y p1) = foldl predict (bp_x p, bp_y p) (frame_moves b pid 0)"
      using tick_moves [OF Cons.prems(1)] in_f by blast
    show ?case
      using Cons.IH [OF p1(1)] Cons.prems(2) in_f unfolding p1(2) q by simp
  qed
  then show ?thesis by (auto simp: battle_add_player_def predicted_start_def)
qed

lemma f32_values':
  "round_f32 50 = Fin 50" "round_f32 0 = Fin 0"
  using round_f32_eval [of 5 50 "50 * 2 ^ 18" "50 * 2 ^ 18"]
  by (simp_all add: pow2_def quantum_def) (simp add: round_f32_def)

lemma predict_right:
  "predict (Fin x, Fin 50) (Fin 1, Fin 0) = (round_f32 (x + 13421773 / 33554432), Fin 50)"
  by (simp add: predict_def Let_def f32_values f32_values' sqrt_pos_1 predict_frame_dt frame_dt_value MIN_NORM_value
      flip: MIN_NORM_def)

theorem prediction_matches_server_witness:
  "\<exists>b p'. b = demo_battle\<lparr>bt_frame := 5, bt_pending := [6 \<mapsto> [(1, Fin 1, Fin 0), (2, Fin 0, Fin 1), (1, Fin 1, Fin 0)]]\<rparr> \<and>
     map_of (bt_players (foldl tick_frame b [[1, 2], [2, 1]])) 1 = Some p' \<and>
     (bp_x p', bp_y p') = (Fin (6763315 / 262144), Fin 50)"
proof -
  let ?b = "demo_battle\<lparr>bt_frame := 5, bt_pending := [6 \<mapsto> [(1, Fin 1, Fin 0), (2, Fin 0, Fin 1), (1, Fin 1, Fin 0)]]\<rparr>"
  let ?p = "\<lparr>bp_player_id = 1, bp_x = Fin 25, bp_y = Fin 50, bp_conn_id = 7\<rparr>"
  let ?ds = "[(Fin 1, Fin 0), (Fin 1, Fin 0)]"
  have p: "map_of (bt_players ?b) 1 = Some ?p" by (simp add: demo_battle_def)
  have q: "queued_moves ?b 1 (length [[1, 2], [2, 1 :: u32]]) = ?ds"
    by (simp add: queued_moves_def frame_moves_def)
  have one: "predict (Fin 25, Fin 50) (Fin 1, Fin 0) = (Fin (13316915 / 524288), Fin 50)"
    and two: "predict (Fin (13316915 / 524288), Fin 50) (Fin 1, Fin 0) = (Fin (6763315 / 262144), Fin 50)"
    using f32_sums by (simp_all add: predict_right)
  have "predicted_in_field (bp_x ?p, bp_y ?p) ?ds"
    unfolding predicted_in_field_def
    by (auto simp: le_Suc_eq in_field_def one two)
  then have in_f: "predicted_in_field (bp_x ?p, bp_y ?p) (queued_moves ?b 1 (length [[1, 2], [2, 1 :: u32]]))"
    by (simp only: q)
  from prediction_matches_server [OF p _ in_f, of "battle_new 1" ?p]
  show ?thesis unfolding q using one two by (auto simp: battle_new_def)
qed

section \<open>The load generator\<close>

lemma percentile_sample: "lats \<noteq> [] \<Longrightarrow> percentile lats q \<in> set lats"
proof -
  assume "lats \<noteq> []"
  then have "0 < length lats" by simp
  then have "max 1 (min i (length lats)) - 1 < length lats" for i by (auto simp: max_def min_def)
  then show ?thesis using \<open>lats \<noteq> []\<close> by (simp add: percentile_def Let_def)
qed

text \<open>Half of a length below \<open>2 ^ 53\<close> is exact.\<close>

lemma mul_f64_half:
  assumes "n < 2 ^ 53"
  shows "mul_f64 n (1 / 2) = of_nat n / 2"
proof (cases "n = 0")
  case False
  define r :: rat where "r = of_nat n / 2"
  define e where "e = exponent r"
  have r: "0 < r" using False by (simp add: r_def)
  have "(of_nat n :: rat) < of_nat (2 ^ 53)" using assms by (simp only: of_nat_less_iff)
  then have "r < pow2 52" by (simp add: r_def pow2_def)
  moreover have "pow2 e \<le> r" using exponent_bounds(1) [OF r] by (simp add: e_def)
  ultimately have "pow2 e < pow2 52" by linarith
  then have "e < 52" using pow2_mono [of 52 e] by linarith
  then obtain k where k: "52 - e = int (Suc k)" by (metis add.commute diff_gt_0_iff_gt int_nat_eq less_imp_le of_nat_Suc zero_less_imp_eq_int Suc_pred)
  have "pow2 ((e - 52) + int (Suc k)) = 2 ^ Suc k * pow2 (e - 52)" by (rule pow2_add)
  moreover have "(e - 52) + int (Suc k) = 0" using k by simp
  ultimately have u: "1 = 2 ^ Suc k * pow2 (e - 52)" by (simp add: pow2_def)
  then have "r = of_int (int n * 2 ^ k) * pow2 (e - 52)" by (simp add: r_def)
  then have "half_even (r / pow2 (e - 52)) = int n * 2 ^ k"
    by (metis half_even_int nonzero_mult_div_cancel_right pow2_pos less_irrefl)
  moreover have "of_nat n * (1 / 2) = r" by (simp add: r_def)
  ultimately have "mul_f64 n (1 / 2) = of_int (int n * 2 ^ k) * pow2 (e - 52)"
    using r by (simp only: mul_f64_def Let_def flip: e_def) simp
  then show ?thesis using \<open>r = of_int (int n * 2 ^ k) * pow2 (e - 52)\<close> by (simp only: r_def)
qed (simp add: mul_f64_def)

text \<open>In a sorted list, the elements up to an index are at most the one there, the others at least.\<close>

lemma sorted_counts:
  assumes "sorted xs" "k < length xs"
  shows "Suc k \<le> length (filter (\<lambda>x. x \<le> xs ! k) xs)" "length xs - k \<le> length (filter (\<lambda>x. xs ! k \<le> x) xs)"
proof -
  have split: "xs = take k xs @ drop k xs" "xs = take (Suc k) xs @ drop (Suc k) xs" by simp_all
  have "filter (\<lambda>x. x \<le> xs ! k) (take (Suc k) xs) = take (Suc k) xs"
    by (rule filter_True) (use assms in \<open>auto simp: in_set_conv_nth sorted_iff_nth_mono\<close>)
  moreover have "length (filter (\<lambda>x. x \<le> xs ! k) xs) =
      length (filter (\<lambda>x. x \<le> xs ! k) (take (Suc k) xs)) + length (filter (\<lambda>x. x \<le> xs ! k) (drop (Suc k) xs))"
    by (metis filter_append length_append split(2))
  ultimately show "Suc k \<le> length (filter (\<lambda>x. x \<le> xs ! k) xs)" using assms(2) by simp
  have "filter (\<lambda>x. xs ! k \<le> x) (drop k xs) = drop k xs"
    by (rule filter_True) (use assms in \<open>auto simp: in_set_conv_nth sorted_iff_nth_mono\<close>)
  moreover have "length (filter (\<lambda>x. xs ! k \<le> x) xs) =
      length (filter (\<lambda>x. xs ! k \<le> x) (take k xs)) + length (filter (\<lambda>x. xs ! k \<le> x) (drop k xs))"
    by (metis filter_append length_append split(1))
  ultimately show "length xs - k \<le> length (filter (\<lambda>x. xs ! k \<le> x) xs)" by simp
qed

text \<open>The reported \<open>p50\<close> is a median of the samples: at least half of them are no larger, half no smaller.\<close>

lemma p50_is_median:
  assumes "lats \<noteq> []" "length lats < 2 ^ 53"
  shows "length lats \<le> 2 * length (filter (\<lambda>x. x \<le> p50 lats) lats) \<and>
    length lats \<le> 2 * length (filter (\<lambda>x. p50 lats \<le> x) lats)"
proof -
  define n where "n = length lats"
  define k where "k = (n + 1) div 2 - 1"
  have n: "0 < n" using assms(1) by (simp add: n_def)
  have "\<lceil>of_nat n / 2 :: rat\<rceil> = int ((n + 1) div 2)"
  proof (rule ceiling_unique)
    have "n \<le> 2 * ((n + 1) div 2)" "2 * ((n + 1) div 2) \<le> n + 1" by linarith+
    then have "(of_nat n :: rat) \<le> of_nat (2 * ((n + 1) div 2))" "(of_nat (2 * ((n + 1) div 2)) :: rat) \<le> of_nat (n + 1)"
      by (simp_all only: of_nat_le_iff)
    then show "of_int (int ((n + 1) div 2)) - 1 < (of_nat n / 2 :: rat)" "of_nat n / 2 \<le> (of_int (int ((n + 1) div 2)) :: rat)"
      by simp_all
  qed
  then have idx: "nat \<lceil>mul_f64 (length (sort lats)) (1 / 2)\<rceil> = (n + 1) div 2"
    using mul_f64_half [of n] assms(2) by (simp only: n_def length_sort nat_int)
  have "max 1 (min ((n + 1) div 2) n) - 1 = k" using n by (simp add: k_def)
  moreover have "sort lats \<noteq> []" using assms(1) by (metis length_0_conv length_sort)
  ultimately have p: "p50 lats = sort lats ! k" using idx by (simp add: p50_def percentile_def Let_def n_def)
  have "k < n" using n unfolding k_def by linarith
  then have "k < length (sort lats)" by (simp add: n_def)
  note counts = sorted_counts [OF sorted_sort this]
  have "length (filter P (sort lats)) = length (filter P lats)" for P
    by (metis filter_sort length_sort)
  with counts have "Suc k \<le> length (filter (\<lambda>x. x \<le> p50 lats) lats)" "n - k \<le> length (filter (\<lambda>x. p50 lats \<le> x) lats)"
    by (simp_all add: p n_def)
  moreover have "n \<le> 2 * Suc k" "n \<le> 2 * (n - k)" using n by (simp_all add: k_def)
  ultimately show ?thesis unfolding n_def by (meson le_trans mult_le_mono2)
qed

text \<open>A worker leaves a sample for every hundred answers.\<close>

lemma bench_samples:
  assumes "foldl bench_answer (0, []) rs = (n, lats)" "length rs < 2 ^ 64"
  shows "unat n = length (filter fst rs) \<and> length lats = unat n div 100"
  using assms
proof (induction rs arbitrary: n lats rule: rev_induct)
  case (snoc r rs)
  obtain m ls where s: "foldl bench_answer (0, []) rs = (m, ls)" by force
  with snoc have m: "unat m = length (filter fst rs)" "length ls = unat m div 100" by auto
  obtain ok lat where r: "r = (ok, lat)" by force
  have st: "bench_answer (m, ls) (ok, lat) = (n, lats)" using snoc.prems(1) s r by simp
  show ?case
  proof (cases ok)
    case True
    have "unat m < 2 ^ 64 - 1" using m(1) snoc.prems(2) length_filter_le [of fst rs] unfolding m(1) by (simp del: length_filter_le)
    then have top: "m \<noteq> - 1" by (auto simp: unsigned_minus_1_eq_mask mask_eq_exp_minus_1)
    have "(m + 1) mod 100 = 0 \<longleftrightarrow> Suc (unat m) mod 100 = 0"
      by (simp add: word_unat_eq_iff unat_mod unat_inc [OF top])
    then show ?thesis
      using st r True m unat_inc [OF top] by (auto simp: bench_answer_def div_Suc split: if_splits)
  qed (use st r m in \<open>auto simp: bench_answer_def\<close>)
qed simp

text \<open>Frames that arrive in order without a gap are counted without one.\<close>

lemma stress_no_gaps:
  assumes "map fst frs = map (\<lambda>i. f + word_of_nat i) [1 ..< Suc (length frs)]" "sx_prev s = f"
  shows "sx_gaps (foldl stress_recv s frs) = sx_gaps s"
  using assms
proof (induction frs arbitrary: s f)
  case (Cons fr frs)
  obtain g t where fr: "fr = (g, t)" by force
  have g: "g = f + 1" and rest: "map fst frs = map (\<lambda>i. (f + 1) + word_of_nat i) [1 ..< Suc (length frs)]"
    using Cons.prems(1) by (simp_all add: fr upt_conv_Cons map_Suc_upt [symmetric] o_def add.assoc del: upt_Suc)
  have "sx_prev (stress_recv s (g, t)) = f + 1" "sx_gaps (stress_recv s (g, t)) = sx_gaps s"
    using g Cons.prems(2) by (auto simp: stress_recv_def Let_def)
  with Cons.IH [OF rest] show ?case by (simp add: fr)
qed simp

end
