(* ===== verification/Migration.thy ===== *)
theory Migration
  imports Room_Props EndToEnd
begin

text \<open>
  The migration scenario of \<open>grimoire-sim/src/main.rs\<close> (\<open>room_migrate_demo\<close>): a client of the room
  service loses its connection, connects again, and resumes the old number at the gateway while
  its session is in its grace period.  \<open>away\<close> is whatever happens at the service in between:
  requests and disconnects of the others, time, clean-up tasks.
\<close>

section \<open>While a connection is away\<close>

fun caller :: "room_call \<Rightarrow> u32" where
  "caller (CallLogin pr c name) = c"
| "caller (CallCreate c name capacity) = c"
| "caller (CallJoin c room_id) = c"
| "caller (CallLeave c) = c"
| "caller (CallChat c txt) = c"
| "caller (CallConnected c) = c"

inductive away_step :: "u32 \<Rightarrow> room_sys \<Rightarrow> room_push effect list \<Rightarrow> room_sys \<Rightarrow> bool" for c where
  other_call: "caller call \<noteq> c \<Longrightarrow> room_call_step (rs_app s) call = (a, es) \<Longrightarrow> away_step c s es (s\<lparr>rs_app := a\<rparr>)"
| other_lost: "c' \<noteq> c \<Longrightarrow> room_player_disconnected (rs_app s) c' = ((r, a, es), t) \<Longrightarrow>
    away_step c s es (s\<lparr>rs_app := a,
      rs_tasks := (case t of None \<Rightarrow> rs_tasks s
                   | Some (k, gen) \<Rightarrow> (rs_now s + GRACE_SECS, k, gen) # rs_tasks s)\<rparr>)"
| second: "away_step c s [] (s\<lparr>rs_now := Suc (rs_now s)\<rparr>)"
| clean_up: "(d, k, gen) \<in> set (rs_tasks s) \<Longrightarrow> d \<le> rs_now s \<Longrightarrow>
    expire_session (rs_app s) k gen = (r, a, es) \<Longrightarrow>
    away_step c s es (s\<lparr>rs_app := a, rs_tasks := remove1 (d, k, gen) (rs_tasks s)\<rparr>)"

inductive away :: "u32 \<Rightarrow> room_sys \<Rightarrow> nat \<Rightarrow> room_sys \<Rightarrow> bool" for c s0 where
  gone: "away c s0 0 s0"
| more: "away c s0 m s \<Longrightarrow> away_step c s es s' \<Longrightarrow> away c s0 (Suc m) s'"

lemma away_step_room: "away_step c s es s' \<Longrightarrow> room_step s es s'"
  by (induction rule: away_step.induct) (blast intro: room_step.intros)+

lemma away_run: "away c s0 m s \<Longrightarrow> \<exists>es. room_run s0 m es s"
proof (induction rule: away.induct)
  case (more m s es s')
  then show ?case using away_step_room room_run.step by blast
qed (blast intro: room_run.start)

text \<open>Nobody else's request touches the player or its pending removal.\<close>

lemma set_online_other:
  "c' \<noteq> c \<Longrightarrow> ra_players (set_online a c' b) c = ra_players a c"
  by (simp add: set_online_players split: option.splits)

lemma other_call_keeps:
  assumes "caller call \<noteq> c"
  shows "ra_players (fst (room_call_step a call)) c = ra_players a c \<and> ra_pending (fst (room_call_step a call)) c = ra_pending a c"
proof (cases call)
  case (CallLogin pr k name)
  then show ?thesis using assms room_login_next [of a pr k name]
    by (auto simp: set_online_other cancel_removal_def split: option.splits)
next
  case (CallCreate k name cap)
  then show ?thesis using assms by (cases rule: create_room_cases [of a k name cap]) auto
next
  case (CallJoin k r)
  then show ?thesis using assms by (cases rule: join_room_cases [of a k r]) (auto simp: join_and_tell_def)
next
  case (CallLeave k)
  then show ?thesis using assms by (cases rule: leave_room_cases [of a k]) auto
next
  case (CallChat k body)
  then show ?thesis by (simp add: room_chat_def)
next
  case (CallConnected k)
  then show ?thesis using assms by (simp add: room_player_connected_def set_online_other cancel_removal_def)
qed

lemma other_lost_keeps:
  assumes "k \<noteq> c" "room_player_disconnected a k = ((r, a', es), t)"
  shows "ra_players a' c = ra_players a c \<and> ra_pending a' c = ra_pending a c \<and> (\<forall>k' gen. t = Some (k', gen) \<longrightarrow> k' = k)"
  using assms
  by (auto simp: room_player_disconnected_def mark_disconnected_def Let_def set_online_other
      split: option.splits prod.splits)

lemma other_expired_keeps:
  assumes "k \<noteq> c" "expire_session a k gen = (r, a', es)"
  shows "ra_players a' c = ra_players a c \<and> ra_pending a' c = ra_pending a c"
  using assms(2) by (cases rule: expire_session_cases [of a k gen]) (use assms in \<open>auto simp: cancel_removal_def\<close>)

definition waits_until :: "nat \<Rightarrow> u32 \<Rightarrow> rplayer \<Rightarrow> room_sys \<Rightarrow> bool" where
  "waits_until due c p s \<longleftrightarrow> ra_players (rs_app s) c = Some p \<and>
     (\<forall>(d, k, gen)\<in>set (rs_tasks s). k = c \<longrightarrow> due \<le> d)"

lemma away_step_waits:
  assumes "away_step c s es s'" "waits_until due c p s" "rs_now s < due"
  shows "waits_until due c p s'"
  using assms(1)
proof (cases rule: away_step.cases)
  case (other_call call a)
  then show ?thesis using other_call_keeps [of call c "rs_app s"] assms(2) by (simp add: waits_until_def)
next
  case (other_lost k r a t)
  then show ?thesis using other_lost_keeps [OF other_lost(2,3)] assms(2)
    by (auto simp: waits_until_def split: option.splits)
next
  case (clean_up d k gen r a)
  have "k \<noteq> c" using clean_up(2,3) assms(2,3) by (auto simp: waits_until_def)
  then show ?thesis
    using other_expired_keeps [OF _ clean_up(4)] assms(2) clean_up(1)
    by (auto simp: waits_until_def dest: notin_set_remove1)
qed (use assms(2) in \<open>simp add: waits_until_def\<close>)

lemma away_now: "away_step c s es s' \<Longrightarrow> rs_now s \<le> rs_now s'"
  by (induction rule: away_step.induct) auto

lemma away_waits:
  assumes "away c s0 m s" "waits_until due c p s0" "rs_now s < due"
  shows "waits_until due c p s"
  using assms
proof (induction rule: away.induct)
  case (more m s es s')
  then have "rs_now s < due" using away_now by (meson le_less_trans)
  with more show ?case using away_step_waits by blast
qed

section \<open>Coming back\<close>

lemma login_back:
  assumes "room_inv a" "ra_players a c = Some (p\<lparr>rp_online := False\<rparr>)" "rp_online p"
    and "a' = a \<or> a' = next_state (room_player_connected a c)"
  shows "\<exists>games wins a4 es. room_login a' pr c name = (Inr (RoomLoginResp (rp_player_id p) (rp_name p) games wins), a4, es) \<and>
    ra_players a4 c = Some p \<and> ra_pending a4 c = None \<and>
    (rp_room_id p \<noteq> 0 \<longrightarrow> (\<exists>r. ra_rooms a4 (rp_room_id p) = Some r \<and> (rp_player_id p, c) \<in> crew r))"
proof -
  have inv': "room_inv a'" using assms(1,2,4) resume_inv [OF assms(1), of c] by (auto simp: room_player_connected_def)
  obtain q where q: "ra_players a' c = Some q" "q\<lparr>rp_online := True\<rparr> = p"
    using assms(2-4) by (cases p) (auto simp: room_player_connected_def set_online_players cancel_removal_def)
  let ?a4 = "set_online (cancel_removal a' c) c True"
  have inv4: "room_inv ?a4" by (rule resume_inv [OF inv'])
  have p4: "ra_players ?a4 c = Some p" using q by (simp add: set_online_players cancel_removal_def)
  obtain games wins es where st: "stats_of ?a4 pr (uint (rp_player_id q)) = ((games, wins), es)" by (metis prod.collapse)
  have "room_login a' pr c name = (Inr (RoomLoginResp (rp_player_id q) (rp_name q) games wins), ?a4, es)"
    using q st by (simp add: room_login_def Let_def)
  moreover have "rp_player_id q = rp_player_id p" "rp_name q = rp_name p" using q(2) by auto
  moreover have "ra_pending ?a4 c = None" by (simp add: cancel_removal_def)
  moreover have "\<exists>r. ra_rooms ?a4 (rp_room_id p) = Some r \<and> (rp_player_id p, c) \<in> crew r" if "rp_room_id p \<noteq> 0"
    using room_invD(1) [OF inv4 p4] that by (auto simp: player_ok_def member_of_def split: option.splits)
  ultimately show ?thesis using p4 by auto
qed


text \<open>A wall of seconds.\<close>

lemma away_seconds: "away c s m (s\<lparr>rs_now := rs_now s + m\<rparr>)"
proof (induction m)
  case (Suc m)
  from away.more [OF Suc away_step.second] show ?case by simp
qed (simp add: away.gone)

definition demo_room_codec :: room_codec where
  "demo_room_codec = \<lparr>rc_dec_login = (\<lambda>_. Inr ''A''), rc_dec_create = (\<lambda>_. Inl []), rc_dec_join = (\<lambda>_. Inl []),
     rc_dec_chat = (\<lambda>_. Inl []), rc_enc = (\<lambda>_. [1])\<rparr>"


end
