(* ===== verification/RoomScenario.thy ===== *)
theory RoomScenario
  imports Room_Props
begin

text \<open>
  The lobby scenarios of \<open>grimoire-sim/src/main.rs\<close>: \<open>room_demo\<close> and \<open>room_migrate_demo\<close>, as the
  requests they make of the room service, in order, with what they take from the answers.  A request
  that is refused, or whose handler panics, ends the scenario (\<open>None\<close>).
\<close>

section \<open>Texts\<close>

definition name_ming :: string where "name_ming = utf8 [0xE5, 0xB0, 0x8F, 0xE6, 0x98, 0x8E]"
definition name_hong :: string where "name_hong = utf8 [0xE5, 0xB0, 0x8F, 0xE7, 0xBA, 0xA2]"
definition name_room :: string where "name_room = utf8 [0xE5, 0xBC, 0x80, 0xE9, 0xBB, 0x91, 0xE6, 0x88, 0xBF]"
definition text_hello :: string where
  "text_hello = utf8 [0xE5, 0xA4, 0xA7, 0xE5, 0xAE, 0xB6, 0xE5, 0xA5, 0xBD, 0xE5, 0x95, 0x8A]"

section \<open>Requests\<close>

definition ask_login :: "profiles \<Rightarrow> room_app \<Rightarrow> u32 \<Rightarrow> string \<Rightarrow> (u32 \<times> room_app) option" where
  "ask_login pr app conn name =
     (case room_login app pr conn name of
        (Inr (RoomLoginResp player_id _ _ _), app', _) \<Rightarrow> Some (player_id, app') | _ \<Rightarrow> None)"

definition ask_create :: "room_app \<Rightarrow> u32 \<Rightarrow> string \<Rightarrow> u32 \<Rightarrow> (u32 \<times> room_app) option" where
  "ask_create app conn name capacity =
     (case create_room app conn name capacity of
        (Inr (Some (RoomCreateResp room_id)), app', _) \<Rightarrow> Some (room_id, app') | _ \<Rightarrow> None)"

definition ask_join :: "room_app \<Rightarrow> u32 \<Rightarrow> u32 \<Rightarrow> (room_info option \<times> room_app) option" where
  "ask_join app conn room_id =
     (case join_and_tell app conn room_id of
        (Inr (Some (RoomJoinResp r)), app', _) \<Rightarrow> Some (r, app') | _ \<Rightarrow> None)"

definition ask_list :: "room_app \<Rightarrow> u32 list \<Rightarrow> room_info list" where
  "ask_list app it = (case list_rooms app it of RoomListResp rs \<Rightarrow> rs | _ \<Rightarrow> [])"

text \<open>Both scenarios begin alike: A logs in and creates a room, B logs in and joins it.\<close>

definition gather :: "profiles \<Rightarrow> room_app \<Rightarrow> u32 \<Rightarrow> u32 \<Rightarrow> (u32 \<times> u32 \<times> u32 \<times> room_info option \<times> room_app) option" where
  "gather pr app a b =
     Option.bind (ask_login pr app a name_ming) (\<lambda>(pa, app1).
     Option.bind (ask_create app1 a name_room 8) (\<lambda>(room_id, app2).
     Option.bind (ask_login pr app2 b name_hong) (\<lambda>(pb, app3).
     Option.bind (ask_join app3 b room_id) (\<lambda>(joined, app4). Some (pa, pb, room_id, joined, app4)))))"

text \<open>\<open>room_demo\<close>: then A says hello and lists the rooms.\<close>

definition room_demo :: "profiles \<Rightarrow> u32 list \<Rightarrow> room_app \<Rightarrow> u32 \<Rightarrow> u32 \<Rightarrow>
    (room_info option \<times> room_info list \<times> room_push effect list) option" where
  "room_demo pr it app a b =
     Option.bind (gather pr app a b) (\<lambda>(pa, pb, room_id, joined, app4).
       case room_chat app4 a text_hello of
         (Inr RoomChatResp, app5, es) \<Rightarrow> Some (joined, ask_list app5 it, es)
       | _ \<Rightarrow> None)"

text \<open>
  \<open>room_migrate_demo\<close>: A's connection ends; a new one resumes its number within a second.  The gateway
  announces the resumed number before it forwards the login.  The scenario's two assertions are the result:
  the same player number, and two members in the room.
\<close>

definition room_migrate_demo :: "profiles \<Rightarrow> u32 list \<Rightarrow> room_app \<Rightarrow> u32 \<Rightarrow> u32 \<Rightarrow> (bool \<times> bool) option" where
  "room_migrate_demo pr it app a b =
     Option.bind (gather pr app a b) (\<lambda>(pa, pb, room_id, joined, app4).
       let app5 = next_state (fst (room_player_disconnected app4 a));
           app6 = next_state (room_player_connected app5 a)
       in Option.bind (ask_login pr app6 a name_ming) (\<lambda>(pa', app7).
            Option.bind (find (\<lambda>r. ri_room_id r = room_id) (ask_list app7 it)) (\<lambda>rs.
              Some (pa' = pa, length (ri_members rs) = 2))))"

section \<open>What they reach\<close>

definition ming :: "u32 \<Rightarrow> u32 \<Rightarrow> u32 \<Rightarrow> rplayer" where
  "ming a p r = \<lparr>rp_conn_id = a, rp_player_id = p, rp_name = name_ming, rp_room_id = r, rp_online = True\<rparr>"

definition hong :: "u32 \<Rightarrow> u32 \<Rightarrow> u32 \<Rightarrow> rplayer" where
  "hong b p r = \<lparr>rp_conn_id = b, rp_player_id = p, rp_name = name_hong, rp_room_id = r, rp_online = True\<rparr>"

text \<open>The room of the two, with the members as they were when they came in.\<close>

definition two_room :: "u32 \<Rightarrow> u32 \<Rightarrow> u32 \<Rightarrow> u32 \<Rightarrow> room" where
  "two_room a b p r =
     \<lparr>rm_id = r, rm_name = name_room, rm_capacity = 8, rm_members = [ming a p 0, hong b (p + 1) 0]\<rparr>"

lemma names_not_empty: "name_room \<noteq> []"
  by (simp add: name_room_def utf8_def)

lemma login_new:
  assumes "ra_players app c = None"
  shows "ask_login pr app c name = Some (ra_next_player app,
    app\<lparr>ra_next_player := ra_next_player app + 1, ra_players := (ra_players app)(c \<mapsto>
      \<lparr>rp_conn_id = c, rp_player_id = ra_next_player app, rp_name = name, rp_room_id = 0, rp_online = True\<rparr>)\<rparr>)"
  using assms by (simp add: ask_login_def room_login_def Let_def split: prod.splits)

lemma login_again:
  assumes "ra_players app c = Some p"
  shows "ask_login pr app c name = Some (rp_player_id p, set_online (cancel_removal app c) c True)"
  using assms by (simp add: ask_login_def room_login_def Let_def split: prod.splits)

lemma gather_result:
  assumes "ra_players app a = None" "ra_players app b = None" "a \<noteq> b" "ra_next_room app \<noteq> 0"
  defines "p \<equiv> ra_next_player app" and "r \<equiv> ra_next_room app"
  shows "\<exists>app'. gather pr app a b = Some (p, p + 1, r, Some (info (two_room a b p r)), app') \<and>
    ra_players app' = (ra_players app)(a \<mapsto> ming a p r, b \<mapsto> hong b (p + 1) r) \<and>
    ra_rooms app' = (ra_rooms app)(r \<mapsto> two_room a b p r)"
  using assms names_not_empty
  by (simp add: gather_def login_new ask_create_def create_room_def set_room_id_def ask_join_def join_and_tell_def
      join_room_def Let_def clamp_capacity_def ming_def hong_def two_room_def broadcast_to_def fun_upd_twist)

lemma in_list: "k \<in> set it \<Longrightarrow> ra_rooms app k = Some r \<Longrightarrow> info r \<in> set (ask_list app it)"
  unfolding ask_list_def list_rooms_def by (force simp: set_entries)

text \<open>
  The lobby scenario gathers its players.  Against the room service in any state it can reach, with
  two connections that have no player yet, every request is answered: B's join shows a room of eight with
  exactly the two players, A's message is pushed to exactly the two connections under A's
  name, and the list A asks for has that room.
\<close>

lemma room_demo_gathers:
  assumes "room_reach (room_new st sd nd) n es s" "n < 2 ^ 32 - 1" "app = rs_app s"
    and "ra_players app a = None" "ra_players app b = None" "a \<noteq> b" "ra_next_room app \<in> set it"
  shows "\<exists>rs p r. room_demo pr it app a b = Some (Some r, rs,
      [PushTcp a ROOM_CHAT_PUSH (RoomChatPush (ri_room_id r) p name_ming text_hello),
       PushTcp b ROOM_CHAT_PUSH (RoomChatPush (ri_room_id r) p name_ming text_hello)]) \<and>
    ri_members r = [(p, name_ming), (p + 1, name_hong)] \<and> ri_capacity r = 8 \<and> r \<in> set rs"
proof -
  let ?p = "ra_next_player app" and ?r = "ra_next_room app"
  have "ra_next_room app \<noteq> 0" using reach_room_inv [OF assms(1,2)] assms(3) by (auto simp: room_inv_def)
  from gather_result [OF assms(4-6) this, of pr] obtain app' where
    g: "gather pr app a b = Some (?p, ?p + 1, ?r, Some (info (two_room a b ?p ?r)), app')"
    and ps: "ra_players app' = (ra_players app)(a \<mapsto> ming a ?p ?r, b \<mapsto> hong b (?p + 1) ?r)"
    and rs: "ra_rooms app' = (ra_rooms app)(?r \<mapsto> two_room a b ?p ?r)" by blast
  have "info (two_room a b ?p ?r) \<in> set (ask_list app' it)"
    by (rule in_list [OF assms(7)]) (simp add: rs)
  then show ?thesis
    using assms(6)
    by (intro exI [of _ "ask_list app' it"] exI [of _ ?p] exI [of _ "info (two_room a b ?p ?r)"])
      (simp add: room_demo_def g room_chat_def ps rs ming_def hong_def two_room_def info_def)
qed

lemma room_demo_gathers_witness:
  "\<exists>rs p r. room_demo no_profiles [1] (room_new False True ''n'') 7 9 = Some (Some r, rs,
      [PushTcp 7 ROOM_CHAT_PUSH (RoomChatPush (ri_room_id r) p name_ming text_hello),
       PushTcp 9 ROOM_CHAT_PUSH (RoomChatPush (ri_room_id r) p name_ming text_hello)]) \<and>
    ri_members r = [(p, name_ming), (p + 1, name_hong)] \<and> ri_capacity r = 8 \<and> r \<in> set rs"
  using room_demo_gathers [where st = False and sd = True and nd = "''n''" and a = 7 and b = 9 and it = "[1]" and pr = no_profiles,
      OF room_run.start _ refl]
  by (simp add: room_new_def)

text \<open>The number of a room and how many members it has: a change of an online flag keeps both.\<close>

definition shape :: "room_app \<Rightarrow> u32 \<Rightarrow> (u32 \<times> nat) option" where
  "shape app k = map_option (\<lambda>r. (rm_id r, length (rm_members r))) (ra_rooms app k)"

lemma shape_online [simp]: "shape (set_online app c b) = shape app"
  by (rule ext) (auto simp: shape_def set_online_def Let_def set_member_online_same split: option.splits)

lemma shape_fields [simp]:
  "shape (cancel_removal app c) = shape app" "shape (app\<lparr>ra_pending := m\<rparr>) = shape app"
  by (auto simp: shape_def cancel_removal_def)

lemma shape_events:
  "shape (next_state (fst (room_player_disconnected app c))) = shape app"
  "shape (next_state (room_player_connected app c)) = shape app"
  by (auto simp: room_player_disconnected_def room_player_connected_def mark_disconnected_def Let_def
      split: option.splits)

lemma player_events:
  assumes "ra_players app c = Some p"
  shows "\<exists>b. ra_players (next_state (room_player_connected (next_state (fst (room_player_disconnected app c))) c)) c
    = Some (p\<lparr>rp_online := b\<rparr>)"
  using assms
  by (auto simp: room_player_disconnected_def room_player_connected_def mark_disconnected_def Let_def cancel_removal_def
      set_online_players split: option.splits)

text \<open>Looking a room up by its number in a list of rooms that are kept under their numbers.\<close>

lemma find_room:
  assumes "k \<in> set it" "shape app k = Some (k, n)" "\<And>j i m. shape app j = Some (i, m) \<Longrightarrow> i = j"
  shows "\<exists>r. find (\<lambda>r. ri_room_id r = k) (ask_list app it) = Some r \<and> length (ri_members r) = n"
proof -
  obtain x where x: "ra_rooms app k = Some x" "rm_id x = k" using assms(2) by (auto simp: shape_def)
  have "info x \<in> set (ask_list app it)" "ri_room_id (info x) = k"
    using in_list [OF assms(1) x(1)] x(2) by (simp_all add: info_def)
  then obtain r where r: "find (\<lambda>r. ri_room_id r = k) (ask_list app it) = Some r"
    by (metis (mono_tags, lifting) find_None_iff option.exhaust)
  from find_SomeD [OF r] obtain j y where y: "ra_rooms app j = Some y" "r = info y" "rm_id y = k"
    by (auto simp: ask_list_def list_rooms_def info_def set_entries)
  then have "j = k" using assms(3) [of j k] by (auto simp: shape_def)
  with y r assms(2) show ?thesis by (simp add: shape_def info_def)
qed

text \<open>
  The migration scenario's assertions hold: against the room service in any state it can reach, A
  has the same player number after its connection was lost and resumed, and its room has two members.
\<close>

lemma room_migrate_demo_passes:
  assumes "room_reach (room_new st sd nd) n es s" "n < 2 ^ 32 - 1" "app = rs_app s"
    and "ra_players app a = None" "ra_players app b = None" "a \<noteq> b" "ra_next_room app \<in> set it"
  shows "room_migrate_demo pr it app a b = Some (True, True)"
proof -
  let ?p = "ra_next_player app" and ?r = "ra_next_room app"
  have inv: "room_inv app" using reach_room_inv [OF assms(1,2)] assms(3) by simp
  then have "ra_next_room app \<noteq> 0" by (auto simp: room_inv_def)
  from gather_result [OF assms(4-6) this, of pr] obtain app' where
    g: "gather pr app a b = Some (?p, ?p + 1, ?r, Some (info (two_room a b ?p ?r)), app')"
    and ps: "ra_players app' = (ra_players app)(a \<mapsto> ming a ?p ?r, b \<mapsto> hong b (?p + 1) ?r)"
    and rs: "ra_rooms app' = (ra_rooms app)(?r \<mapsto> two_room a b ?p ?r)" by blast
  let ?app6 = "next_state (room_player_connected (next_state (fst (room_player_disconnected app' a))) a)"
  let ?app7 = "set_online (cancel_removal ?app6 a) a True"
  have "ra_players app' a = Some (ming a ?p ?r)" using ps assms(6) by simp
  from player_events [OF this] obtain f where "ra_players ?app6 a = Some ((ming a ?p ?r)\<lparr>rp_online := f\<rparr>)" by blast
  from login_again [OF this, of pr name_ming] have login: "ask_login pr ?app6 a name_ming = Some (?p, ?app7)"
    by (simp add: ming_def)
  have sh: "shape ?app7 = shape app'" by (simp add: shape_events)
  have "shape ?app7 ?r = Some (?r, 2)" unfolding sh by (simp add: shape_def rs two_room_def)
  moreover have "i = j" if "shape ?app7 j = Some (i, m)" for i j m
    using that room_invD(2) [OF inv, of j] unfolding sh
    by (auto simp: shape_def rs two_room_def room_ok_def split: if_splits)
  ultimately obtain r where "find (\<lambda>r. ri_room_id r = ?r) (ask_list ?app7 it) = Some r" "length (ri_members r) = 2"
    using find_room [OF assms(7), of ?app7 2] by blast
  with login show ?thesis by (simp add: room_migrate_demo_def g Let_def)
qed

lemma room_migrate_demo_passes_witness:
  "room_migrate_demo no_profiles [1] (room_new False True ''n'') 7 9 = Some (True, True)"
  using room_migrate_demo_passes [where st = False and sd = True and nd = "''n''" and a = 7 and b = 9 and it = "[1]" and pr = no_profiles,
      OF room_run.start _ refl]
  by (simp add: room_new_def)

end
