(* ===== verification/Connection.thy ===== *)
theory Connection
  imports EndToEnd
begin

text \<open>
  One TCP connection as a whole: the tasks that write and read it on both sides
  (\<open>Client::connect_with\<close> and \<open>start_heartbeat\<close> of \<open>grimoire-sim/src/client.rs\<close>, \<open>accept_and_serve\<close> of
  \<open>grimoire-gateway/src/session.rs\<close>), with the client's requests and the other tasks of the gateway
  in between.

  \<^item> A \<open>pipe\<close> is one direction: the channel of the writing task, the bytes on the way, the buffer of
    the reading task.  The bound of the channel only makes senders wait, so the queue has none.
  \<^item> \<open>link_step\<close> is one event of the connection.  Its log has the frames that were put into a channel
    and those that were taken from the stream on the other side, in order.
\<close>

section \<open>One direction\<close>

record pipe =
  pi_queue :: "frame list"
  pi_writing :: bool           \<comment> \<open>the task that writes has not ended\<close>
  pi_wire :: bytes
  pi_buf :: bytes
  pi_reading :: bool           \<comment> \<open>the task that reads has not ended\<close>

definition pipe_new :: pipe where
  "pipe_new = \<lparr>pi_queue = [], pi_writing = True, pi_wire = [], pi_buf = [], pi_reading = True\<rparr>"

definition pipe_put :: "frame \<Rightarrow> pipe \<Rightarrow> bool \<times> pipe" where
  "pipe_put f p = (if pi_writing p then (True, p\<lparr>pi_queue := pi_queue p @ [f]\<rparr>) else (False, p))"

text \<open>
  One turn of a writing task.  \<open>None\<close>: the transport takes the frame; \<open>Some k\<close>: it fails after \<open>k\<close>
  bytes, and the task ends with what is left in its channel.
\<close>

definition writer_turn :: "nat option \<Rightarrow> pipe \<Rightarrow> pipe" where
  "writer_turn fails p =
     (if \<not> pi_writing p then p
      else case pi_queue p of
             [] \<Rightarrow> p
           | f # fs \<Rightarrow>
               (case fails of
                  None \<Rightarrow> p\<lparr>pi_queue := fs, pi_wire := pi_wire p @ encode f\<rparr>
                | Some k \<Rightarrow> p\<lparr>pi_queue := [], pi_wire := pi_wire p @ take k (encode f), pi_writing := False\<rparr>))"

text \<open>The next \<open>n\<close> bytes arrive: the frames the decoder delivers of them; an error ends the reader.\<close>

definition reader_turn :: "nat \<Rightarrow> pipe \<Rightarrow> frame list \<times> pipe" where
  "reader_turn n p =
     (if \<not> pi_reading p then ([], p)
      else case Net.drain decode (pi_buf p @ take n (pi_wire p)) of
             (fs, e, rest) \<Rightarrow> (fs, p\<lparr>pi_wire := drop n (pi_wire p), pi_buf := rest, pi_reading := (e = None)\<rparr>))"

section \<open>Both sides\<close>

record link =
  lk_client :: client
  lk_up :: pipe
  lk_sys :: gw_sys
  lk_arc :: nat
  lk_conn :: u32
  lk_serving :: bool           \<comment> \<open>the read loop of the session runs\<close>
  lk_down :: pipe

datatype link_event =
    CRequest u32 bytes nat     \<comment> \<open>a request of the client: message, payload, the number of its channel\<close>
  | CBeat
  | CWrites "nat option"
  | CReads nat
  | CEof
  | GReads nat
  | GWrites "nat option"
  | GEof
  | GOther gw_event            \<comment> \<open>another task of the gateway\<close>

datatype link_log =
    SentUp frame | GotUp frame | SentDown frame | GotDown frame
  | Gave client_effect
  | ClosedSession "(u32 \<times> u32) list"   \<comment> \<open>the read loop has ended; the notices it spawns\<close>

text \<open>The frames of the gateway for this session go into its channel, as long as that is open.\<close>

fun put_down :: "nat \<Rightarrow> gw_effect list \<Rightarrow> pipe \<Rightarrow> pipe \<times> link_log list" where
  "put_down a [] p = (p, [])"
| "put_down a (ToClient b f # es) p =
     (if b = a \<and> pi_writing p
      then (case put_down a es (snd (pipe_put f p)) of (p', l) \<Rightarrow> (p', SentDown f # l))
      else put_down a es p)"
| "put_down a (_ # es) p = put_down a es p"

text \<open>\<open>accept_and_serve\<close>: the session with its welcome frame, before the first byte is read.\<close>

definition link_start :: "gw_sys \<Rightarrow> link \<times> link_log list" where
  "link_start s =
     (case accept_session (gs_gw s) of
        ((a, c), gw', es) \<Rightarrow>
          (case put_down a es pipe_new of
             (p, l) \<Rightarrow> (\<lparr>lk_client = client_new, lk_up = pipe_new, lk_sys = s\<lparr>gs_gw := gw'\<rparr>, lk_arc = a, lk_conn = c,
                        lk_serving = True, lk_down = p\<rparr>, l)))"

text \<open>The client's reader over what one turn delivers.\<close>

fun client_takes :: "client \<Rightarrow> frame list \<Rightarrow> link_log list \<times> client" where
  "client_takes cl [] = ([], cl)"
| "client_takes cl (f # fs) =
     (if cl_reading cl
      then (case on_server_frame cl f of
              (es, cl1) \<Rightarrow> (case client_takes cl1 fs of (l, cl2) \<Rightarrow> (GotDown f # map Gave es @ l, cl2)))
      else ([], cl))"

text \<open>The read loop of the session over what one turn delivers; \<open>False\<close> when it ends.\<close>

fun serve_frames :: "gw_sys \<Rightarrow> nat \<Rightarrow> u32 \<Rightarrow> frame list \<Rightarrow> (bool \<times> frame list) \<times> gw_sys \<times> gw_effect list" where
  "serve_frames s a c [] = ((True, []), s, [])"
| "serve_frames s a c (f # fs) =
     (case gw_step s (GFrame a c f) of
        (s1, es) \<Rightarrow>
          if fst (on_frame (gs_gw s) a c f) = Break then ((False, [f]), s1, es)
          else (case serve_frames s1 a c fs of ((on, got), s2, es') \<Rightarrow> ((on, f # got), s2, es @ es')))"

definition close_link :: "link \<Rightarrow> link \<times> link_log list" where
  "close_link k =
     (k\<lparr>lk_serving := False, lk_up := (lk_up k)\<lparr>pi_reading := False\<rparr>\<rparr>,
      [ClosedSession (close_notices (gs_gw (lk_sys k)) (lk_arc k) (lk_conn k))])"

definition gateway_reads :: "link \<Rightarrow> nat \<Rightarrow> link \<times> link_log list" where
  "gateway_reads k n =
     (if \<not> lk_serving k then (k, [])
      else case reader_turn n (lk_up k) of
        (fs, up) \<Rightarrow>
          (case serve_frames (lk_sys k) (lk_arc k) (lk_conn k) fs of
             ((on, got), s', es) \<Rightarrow>
               (case put_down (lk_arc k) es (lk_down k) of
                  (down, l) \<Rightarrow>
                    let k' = k\<lparr>lk_up := up, lk_sys := s', lk_down := down\<rparr>
                    in if on \<and> pi_reading up then (k', map GotUp got @ l)
                       else (case close_link k' of (k'', l') \<Rightarrow> (k'', map GotUp got @ l @ l')))))"

definition client_reads :: "link \<Rightarrow> nat \<Rightarrow> link \<times> link_log list" where
  "client_reads k n =
     (case reader_turn n (lk_down k) of
        (fs, down) \<Rightarrow>
          (case client_takes (lk_client k) fs of
             (l, cl) \<Rightarrow>
               let on = cl_reading cl \<and> pi_reading down
               in (k\<lparr>lk_client := cl\<lparr>cl_reading := on\<rparr>, lk_down := down\<lparr>pi_reading := on\<rparr>\<rparr>, l)))"

text \<open>\<open>start_heartbeat\<close>: every five seconds, until the channel is closed.\<close>

definition CLIENT_BEAT_SECS :: nat where "CLIENT_BEAT_SECS = 5"

definition client_beat :: "link \<Rightarrow> link \<times> link_log list" where
  "client_beat k =
     (case pipe_put heartbeat_frame (lk_up k) of
        (True, up) \<Rightarrow> (k\<lparr>lk_up := up\<rparr>, [SentUp heartbeat_frame])
      | (False, _) \<Rightarrow> (k, []))"

definition client_requests :: "link \<Rightarrow> u32 \<Rightarrow> bytes \<Rightarrow> nat \<Rightarrow> link \<times> link_log list" where
  "client_requests k m p w =
     (case begin_request (lk_client k) m p w of
        (Inl _, cl) \<Rightarrow> (k\<lparr>lk_client := cl\<rparr>, [])
      | (Inr f, cl) \<Rightarrow> (k\<lparr>lk_client := cl, lk_up := snd (pipe_put f (lk_up k))\<rparr>, [SentUp f]))"

definition client_writes :: "link \<Rightarrow> nat option \<Rightarrow> link" where
  "client_writes k fails =
     (let up = writer_turn fails (lk_up k)
      in k\<lparr>lk_up := up, lk_client := (lk_client k)\<lparr>cl_open := pi_writing up\<rparr>\<rparr>)"

definition session_writes :: "link \<Rightarrow> nat option \<Rightarrow> link" where
  "session_writes k fails =
     (let down = writer_turn fails (lk_down k)
      in k\<lparr>lk_down := down, lk_sys := (if pi_writing down then lk_sys k else fst (gw_step (lk_sys k) (GGone (lk_arc k))))\<rparr>)"

fun link_step :: "link \<Rightarrow> link_event \<Rightarrow> link \<times> link_log list" where
  "link_step k (CRequest m p w) = client_requests k m p w"
| "link_step k CBeat = client_beat k"
| "link_step k (CWrites fails) = (client_writes k fails, [])"
| "link_step k (CReads n) = client_reads k n"
| "link_step k CEof =
     (k\<lparr>lk_client := (lk_client k)\<lparr>cl_reading := False\<rparr>, lk_down := (lk_down k)\<lparr>pi_reading := False\<rparr>\<rparr>, [])"
| "link_step k (GReads n) = gateway_reads k n"
| "link_step k (GWrites fails) = (session_writes k fails, [])"
| "link_step k GEof = (if lk_serving k then close_link k else (k, []))"
| "link_step k (GOther e) =
     (case gw_step (lk_sys k) e of
        (s', es) \<Rightarrow>
          (case put_down (lk_arc k) es (lk_down k) of (down, l) \<Rightarrow> (k\<lparr>lk_sys := s', lk_down := down\<rparr>, l)))"

fun link_run :: "link \<Rightarrow> link_event list \<Rightarrow> link \<times> link_log list" where
  "link_run k [] = (k, [])"
| "link_run k (e # es) =
     (case link_step k e of (k1, l1) \<Rightarrow> (case link_run k1 es of (k2, l2) \<Rightarrow> (k2, l1 @ l2)))"

section \<open>A direction is a queue\<close>

fun sent_up :: "link_log list \<Rightarrow> frame list" where
  "sent_up [] = []" | "sent_up (SentUp f # l) = f # sent_up l" | "sent_up (_ # l) = sent_up l"

fun got_up :: "link_log list \<Rightarrow> frame list" where
  "got_up [] = []" | "got_up (GotUp f # l) = f # got_up l" | "got_up (_ # l) = got_up l"

fun sent_down :: "link_log list \<Rightarrow> frame list" where
  "sent_down [] = []" | "sent_down (SentDown f # l) = f # sent_down l" | "sent_down (_ # l) = sent_down l"

fun got_down :: "link_log list \<Rightarrow> frame list" where
  "got_down [] = []" | "got_down (GotDown f # l) = f # got_down l" | "got_down (_ # l) = got_down l"

lemma log_parts [simp]:
  "sent_up (l @ l') = sent_up l @ sent_up l'" "got_up (l @ l') = got_up l @ got_up l'"
  "sent_down (l @ l') = sent_down l @ sent_down l'" "got_down (l @ l') = got_down l @ got_down l'"
  by (induction l rule: sent_up.induct) auto

lemma log_got [simp]:
  "got_up (map GotUp fs) = fs" "sent_up (map GotUp fs) = []" "sent_down (map GotUp fs) = []" "got_down (map GotUp fs) = []"
  by (induction fs) auto

lemma log_gave [simp]:
  "got_up (map Gave es) = []" "sent_up (map Gave es) = []" "sent_down (map Gave es) = []" "got_down (map Gave es) = []"
  by (induction es) auto

abbreviation fits :: "frame \<Rightarrow> bool" where
  "fits f \<equiv> length (f_payload f) \<le> unat MAX_PAYLOAD"

text \<open>
  What was put in, and what was taken from it: \<open>fl\<close> are the frames on the way.  After a failed write
  only a part of them may still come; after the reader has ended nothing is taken any more.
\<close>

definition pipe_carries :: "pipe \<Rightarrow> frame list \<Rightarrow> frame list \<Rightarrow> bool" where
  "pipe_carries p sent got \<longleftrightarrow>
     (if pi_reading p
      then \<exists>fl. prefix (pi_buf p @ pi_wire p) (tcp.all_enc fl) \<and>
        (if pi_writing p then sent = got @ fl @ pi_queue p \<and> pi_buf p @ pi_wire p = tcp.all_enc fl
         else prefix (got @ fl) sent)
      else prefix got sent)"

lemma all_enc_append: "tcp.all_enc (xs @ ys) = tcp.all_enc xs @ tcp.all_enc ys"
  by (simp add: tcp.all_enc_def)

lemma carries_prefix: "pipe_carries p sent got \<Longrightarrow> prefix got sent"
  by (auto simp: pipe_carries_def prefix_def split: if_splits)

lemma prefix_part: "prefix xs ys \<Longrightarrow> prefix (g @ ys) s \<Longrightarrow> prefix (g @ xs) s"
  by (auto simp: prefix_def)

lemma carries_closed: "pipe_carries p sent got \<Longrightarrow> pipe_carries (p\<lparr>pi_reading := False\<rparr>) sent got"
  using carries_prefix by (simp add: pipe_carries_def)

lemma carries_put:
  "pipe_carries p sent got \<Longrightarrow> pi_writing p \<Longrightarrow> pipe_carries (snd (pipe_put f p)) (sent @ [f]) got"
  by (auto simp: pipe_carries_def pipe_put_def prefix_def split: if_splits)

lemma carries_write:
  assumes "pipe_carries p sent got"
  shows "pipe_carries (writer_turn fails p) sent got"
proof (cases "pi_reading p \<and> pi_writing p \<and> pi_queue p \<noteq> []")
  case False
  then show ?thesis
    using assms carries_prefix [OF assms]
    by (auto simp: pipe_carries_def writer_turn_def split: list.splits option.splits)
next
  case True
  then obtain f fs where q: "pi_queue p = f # fs" by (cases "pi_queue p") auto
  obtain fl where fl: "sent = got @ fl @ f # fs" "pi_buf p @ pi_wire p = tcp.all_enc fl"
    using assms True q by (auto simp: pipe_carries_def)
  have "tcp.all_enc (fl @ [f]) = pi_buf p @ pi_wire p @ encode f" by (simp add: all_enc_append fl(2) [symmetric])
  then show ?thesis
    using True q fl(1)
    by (cases fails)
      (auto simp: pipe_carries_def writer_turn_def intro!: exI [of _ "fl @ [f]"]
        intro: take_is_prefix)
qed

text \<open>One turn of a reader takes the next frames, whole, and leaves the rest on the way.\<close>

lemma carries_read:
  assumes "pipe_carries p sent got" "\<forall>f\<in>set sent. fits f" "reader_turn n p = (fs, p')"
  shows "prefix (got @ fs) sent" "pi_reading p' = pi_reading p" "pi_writing p' = pi_writing p"
    "pipe_carries p' sent (got @ fs)"
proof -
  have "prefix (got @ fs) sent \<and> pi_reading p' = pi_reading p \<and> pi_writing p' = pi_writing p \<and> pipe_carries p' sent (got @ fs)"
  proof (cases "pi_reading p")
    case False
    then show ?thesis using assms carries_prefix [OF assms(1)] by (auto simp: reader_turn_def)
  next
    case True
    then obtain fl where fl: "prefix (pi_buf p @ pi_wire p) (tcp.all_enc fl)"
      "if pi_writing p then sent = got @ fl @ pi_queue p \<and> pi_buf p @ pi_wire p = tcp.all_enc fl else prefix (got @ fl) sent"
      using assms(1) by (auto simp: pipe_carries_def)
    have ok: "\<forall>f\<in>set fl. fits f" using fl(2) assms(2) by (auto simp: prefix_def split: if_splits)
    have w: "pi_buf p @ pi_wire p = (pi_buf p @ take n (pi_wire p)) @ drop n (pi_wire p)" by simp
    then have "prefix (pi_buf p @ take n (pi_wire p)) (tcp.all_enc fl)"
      using fl(1) by (metis append_prefixD)
    from tcp.drain_prefix [OF ok this] obtain ms1 ms2 rest where
      d: "fl = ms1 @ ms2" "pi_buf p @ take n (pi_wire p) = tcp.all_enc ms1 @ rest"
        "Net.drain decode (pi_buf p @ take n (pi_wire p)) = (ms1, None, rest)" by blast
    have r: "fs = ms1" "p' = p\<lparr>pi_wire := drop n (pi_wire p), pi_buf := rest\<rparr>"
      using assms(3) True d(3) by (auto simp: reader_turn_def)
    have b: "pi_buf p @ pi_wire p = tcp.all_enc ms1 @ rest @ drop n (pi_wire p)" using w d(2) by simp
    then have "prefix (rest @ drop n (pi_wire p)) (tcp.all_enc ms2)" using fl(1) d(1) by (simp add: all_enc_append)
    moreover have "pi_buf p @ pi_wire p = tcp.all_enc fl \<Longrightarrow> rest @ drop n (pi_wire p) = tcp.all_enc ms2"
      using b d(1) by (simp add: all_enc_append)
    ultimately show ?thesis
      using True fl(2) d(1) r by (cases "pi_writing p") (auto simp: pipe_carries_def prefix_def)
  qed
  then show "prefix (got @ fs) sent" "pi_reading p' = pi_reading p" "pi_writing p' = pi_writing p"
    "pipe_carries p' sent (got @ fs)" by simp_all
qed

section \<open>The connection is two queues\<close>

definition link_ok :: "link \<Rightarrow> link_log list \<Rightarrow> bool" where
  "link_ok k l \<longleftrightarrow> pipe_carries (lk_up k) (sent_up l) (got_up l) \<and> pipe_carries (lk_down k) (sent_down l) (got_down l) \<and>
     cl_open (lk_client k) = pi_writing (lk_up k) \<and> cl_reading (lk_client k) = pi_reading (lk_down k) \<and>
     lk_serving k = pi_reading (lk_up k)"

definition log_fits :: "link_log list \<Rightarrow> bool" where
  "log_fits l \<longleftrightarrow> (\<forall>f\<in>set (sent_up l) \<union> set (sent_down l). fits f)"

lemma log_fits_append: "log_fits (l @ l') \<longleftrightarrow> log_fits l \<and> log_fits l'"
  by (auto simp: log_fits_def)

lemma put_down_carries:
  "put_down a es p = (p', l) \<Longrightarrow> pipe_carries p sent got \<Longrightarrow>
   pipe_carries p' (sent @ sent_down l) got \<and> sent_up l = [] \<and> got_up l = [] \<and> got_down l = [] \<and>
   pi_reading p' = pi_reading p \<and> pi_writing p' = pi_writing p"
proof (induction a es p arbitrary: p' l sent rule: put_down.induct)
  case (2 a b f es p)
  show ?case
  proof (cases "b = a \<and> pi_writing p")
    case True
    obtain p1 l1 where r: "put_down a es (snd (pipe_put f p)) = (p1, l1)" by force
    have "pipe_carries (snd (pipe_put f p)) (sent @ [f]) got" using carries_put 2(4) True by blast
    from 2(1) [OF True r this] 2(3) True r show ?thesis by (auto simp: pipe_put_def)
  next
    case False
    then show ?thesis using 2(2-4) by auto
  qed
qed auto

lemma put_down_start: "put_down a es p = (p', l) \<Longrightarrow> pi_queue p' = pi_queue p @ sent_down l"
proof (induction a es p arbitrary: p' l rule: put_down.induct)
  case (2 a b f es p)
  then show ?case by (cases "b = a \<and> pi_writing p") (auto simp: pipe_put_def split: prod.splits)
qed auto

lemma client_takes_log:
  "client_takes cl fs = (l, cl') \<Longrightarrow> sent_up l = [] \<and> got_up l = [] \<and> sent_down l = [] \<and> prefix (got_down l) fs \<and>
     (cl_reading cl' \<longrightarrow> got_down l = fs) \<and> cl_open cl' = cl_open cl"
proof (induction cl fs arbitrary: l cl' rule: client_takes.induct)
  case (2 cl f fs)
  obtain es cl1 where s: "on_server_frame cl f = (es, cl1)" by force
  obtain l1 cl2 where r: "client_takes cl1 fs = (l1, cl2)" by force
  have "cl_open cl1 = cl_open cl" using s by (auto simp: on_server_frame_def split: ptype.splits if_splits option.splits)
  then show ?case using 2 s r by (auto split: if_splits)
qed auto

lemma serve_frames_got:
  "serve_frames s a c fs = ((on, got), s', es) \<Longrightarrow> prefix got fs \<and> (on \<longrightarrow> got = fs)"
proof (induction s a c fs arbitrary: on got s' es rule: serve_frames.induct)
  case (2 s a c f fs)
  then show ?case by (auto split: prod.splits if_splits)
qed auto

lemma reads_ok:
  assumes "link_ok k l0" "gateway_reads k n = (k', l)" "log_fits l0"
  shows "link_ok k' (l0 @ l)"
proof (cases "lk_serving k")
  case False
  then show ?thesis using assms by (auto simp: gateway_reads_def)
next
  case True
  obtain fs up where r: "reader_turn n (lk_up k) = (fs, up)" by force
  obtain on got s' es where s: "serve_frames (lk_sys k) (lk_arc k) (lk_conn k) fs = ((on, got), s', es)"
    by (metis surj_pair)
  obtain down ld where d: "put_down (lk_arc k) es (lk_down k) = (down, ld)" by force
  have c: "pipe_carries (lk_up k) (sent_up l0) (got_up l0)" "pipe_carries (lk_down k) (sent_down l0) (got_down l0)"
    "pi_reading (lk_up k)" using assms(1) True by (simp_all add: link_ok_def)
  have fit: "\<forall>f\<in>set (sent_up l0). fits f" using assms(3) by (simp add: log_fits_def)
  note rd = carries_read [OF c(1) fit r]
  note pd = put_down_carries [OF d c(2)]
  have got: "prefix (got_up l0 @ got) (sent_up l0)" "on \<Longrightarrow> got = fs"
    using serve_frames_got [OF s] prefix_part [OF _ rd(1)] by auto
  have up: "pi_reading up" using rd(2) c(3) by simp
  show ?thesis
    using assms(1,2) True r s d rd pd got up
    by (cases on) (auto simp: gateway_reads_def link_ok_def close_link_def pipe_carries_def [of "up\<lparr>pi_reading := False\<rparr>"])
qed

lemma client_reads_ok:
  assumes "link_ok k l0" "client_reads k n = (k', l)" "log_fits l0"
  shows "link_ok k' (l0 @ l)"
proof -
  obtain fs down where r: "reader_turn n (lk_down k) = (fs, down)" by force
  obtain lt cl where t: "client_takes (lk_client k) fs = (lt, cl)" by force
  have c: "pipe_carries (lk_down k) (sent_down l0) (got_down l0)" using assms(1) by (simp add: link_ok_def)
  have fit: "\<forall>f\<in>set (sent_down l0). fits f" using assms(3) by (simp add: log_fits_def)
  note rd = carries_read [OF c fit r]
  note tk = client_takes_log [OF t]
  have got: "prefix (got_down l0 @ got_down lt) (sent_down l0)"
    using tk prefix_part [OF _ rd(1)] by blast
  show ?thesis
    using assms(1,2) r t rd tk got
    by (cases "cl_reading cl \<and> pi_reading down")
      (auto simp: client_reads_def link_ok_def pipe_carries_def [of "down\<lparr>pi_reading := False\<rparr>"])
qed

lemma link_step_ok:
  assumes ok: "link_ok k l0" and s: "link_step k e = (k', l)" and fit: "log_fits l0"
  shows "link_ok k' (l0 @ l)"
proof (cases e)
  case (CRequest m p w)
  with ok s show ?thesis
    using carries_put [of "lk_up k" "sent_up l0" "got_up l0"]
    by (auto simp: client_requests_def begin_request_def link_ok_def pipe_put_def Let_def split: if_splits)
next
  case CBeat
  with ok s show ?thesis
    using carries_put [of "lk_up k" "sent_up l0" "got_up l0" heartbeat_frame]
    by (auto simp: client_beat_def link_ok_def pipe_put_def split: if_splits)
next
  case (CWrites fails)
  moreover have "pi_reading (writer_turn fails p) = pi_reading p" for p
    by (simp add: writer_turn_def split: list.splits option.splits)
  ultimately show ?thesis using ok s carries_write by (auto simp: client_writes_def link_ok_def Let_def)
next
  case (GWrites fails)
  moreover have "pi_reading (writer_turn fails p) = pi_reading p" for p
    by (simp add: writer_turn_def split: list.splits option.splits)
  ultimately show ?thesis using ok s carries_write by (auto simp: session_writes_def link_ok_def Let_def)
next
  case (CReads n)
  then show ?thesis using client_reads_ok [OF ok _ fit] s by simp
next
  case (GReads n)
  then show ?thesis using reads_ok [OF ok _ fit] s by simp
next
  case CEof
  then show ?thesis using ok s carries_closed by (auto simp: link_ok_def)
next
  case GEof
  then show ?thesis using ok s carries_closed by (auto simp: link_ok_def close_link_def split: if_splits)
next
  case (GOther g)
  then show ?thesis
    using ok s put_down_carries [of "lk_arc k" _ "lk_down k"] by (fastforce simp: link_ok_def split: prod.splits)
qed

lemma link_run_ok:
  "link_ok k l0 \<Longrightarrow> link_run k es = (k', l) \<Longrightarrow> log_fits (l0 @ l) \<Longrightarrow> link_ok k' (l0 @ l)"
proof (induction es arbitrary: k l0 l k')
  case (Cons e es)
  obtain k1 l1 where s: "link_step k e = (k1, l1)" by force
  obtain k2 l2 where r: "link_run k1 es = (k2, l2)" by force
  have "link_ok k1 (l0 @ l1)" using link_step_ok [OF Cons.prems(1) s] Cons.prems(3) by (simp add: log_fits_append)
  from Cons.IH [OF this r] Cons.prems s r show ?case by simp
qed simp

lemma accept_effects:
  "accept_session gw = ((a, c), gw', es) \<Longrightarrow> es = [ToClient a (push_frame SYS_CONN_ID (be_bytes c))]"
  by (auto simp: accept_session_def Let_def session_send_def session_new_def)

lemma link_start_log:
  assumes "link_start s = (k, l)"
  shows "l = [SentDown (push_frame SYS_CONN_ID (be_bytes (lk_conn k)))]" "link_ok k l"
  using assms
  by (auto simp: link_start_def pipe_put_def pipe_new_def link_ok_def pipe_carries_def client_new_def
      dest!: accept_effects split: prod.splits intro: exI [of _ "[]"])

text \<open>A connection after \<open>accept_and_serve\<close> and \<open>connect_with\<close> on which the events have happened.\<close>

definition link_reach :: "gw_sys \<Rightarrow> link_event list \<Rightarrow> link \<Rightarrow> link_log list \<Rightarrow> bool" where
  "link_reach s es k l \<longleftrightarrow>
     (case link_start s of (k0, l0) \<Rightarrow> (case link_run k0 es of (k', l') \<Rightarrow> k = k' \<and> l = l0 @ l'))"

lemma link_reach_ok:
  assumes "link_reach s es k l" "log_fits l"
  shows "link_ok k l"
proof -
  obtain k0 l0 where s: "link_start s = (k0, l0)" by force
  obtain k' l' where r: "link_run k0 es = (k', l')" by force
  from link_run_ok [OF link_start_log(2) [OF s] r] assms s r show ?thesis by (simp add: link_reach_def)
qed

lemma step_conn: "link_step k e = (k', l) \<Longrightarrow> lk_conn k' = lk_conn k"
  by (cases e)
    (auto simp: client_requests_def client_beat_def client_writes_def session_writes_def client_reads_def gateway_reads_def
      close_link_def Let_def split: if_splits prod.splits sum.splits bool.splits)

lemma run_conn: "link_run k es = (k', l) \<Longrightarrow> lk_conn k' = lk_conn k"
  by (induction es arbitrary: k l) (auto split: prod.splits dest: step_conn)

lemma link_first:
  assumes "link_reach s es k l"
  shows "\<exists>fs. sent_down l = push_frame SYS_CONN_ID (be_bytes (lk_conn k)) # fs"
proof -
  obtain k0 l0 where s: "link_start s = (k0, l0)" by force
  obtain k' l' where r: "link_run k0 es = (k', l')" by force
  show ?thesis using assms link_start_log(1) [OF s] run_conn [OF r] s r by (simp add: link_reach_def)
qed

lemma all_enc_nil: "tcp.all_enc fl = [] \<longleftrightarrow> fl = []"
  by (cases fl) (simp_all add: encode_cons)

lemma carries_all:
  assumes "pipe_carries p sent got" "pi_reading p" "pi_writing p" "pi_queue p = []" "pi_buf p @ pi_wire p = []"
  shows "got = sent"
proof -
  obtain fl where "sent = got @ fl" "[] = tcp.all_enc fl" using assms by (auto simp: pipe_carries_def)
  then show ?thesis using all_enc_nil [of fl] by simp
qed

text \<open>Nothing of a direction is in its channel or on the way, and its two tasks run.\<close>

definition pipe_idle :: "pipe \<Rightarrow> bool" where
  "pipe_idle p \<longleftrightarrow> pi_reading p \<and> pi_writing p \<and> pi_queue p = [] \<and> pi_buf p = [] \<and> pi_wire p = []"

lemma carries_idle: "pipe_carries p sent got \<Longrightarrow> pipe_idle p \<Longrightarrow> got = sent"
  using carries_all by (simp add: pipe_idle_def)

text \<open>
  C22: A connection is a queue in each direction.  Whatever order the tasks of client and gateway run
  in, however the transport cuts the bytes and wherever it fails: the session handles a prefix of the
  frames the client has put into its channel, and the client a prefix of those the gateway has
  sent it, in order, each once, the first of them the number of the connection; and when nothing is
  left in the channel or on the way of a direction whose two tasks run, everything has arrived.
\<close>

theorem link_is_fifo:
  assumes "link_reach s es k l" "log_fits l"
  shows "prefix (got_up l) (sent_up l) \<and> prefix (got_down l) (sent_down l) \<and>
    hd (sent_down l) = push_frame SYS_CONN_ID (be_bytes (lk_conn k)) \<and>
    (pipe_idle (lk_up k) \<longrightarrow> got_up l = sent_up l) \<and> (pipe_idle (lk_down k) \<longrightarrow> got_down l = sent_down l)"
proof -
  have up: "pipe_carries (lk_up k) (sent_up l) (got_up l)" and down: "pipe_carries (lk_down k) (sent_down l) (got_down l)"
    using link_reach_ok [OF assms] by (simp_all add: link_ok_def)
  from link_first [OF assms(1)] show ?thesis
    using carries_prefix [OF up] carries_prefix [OF down] carries_idle [OF up] carries_idle [OF down] by auto
qed

section \<open>A run\<close>


lemma read_whole: "fits f \<Longrightarrow> Net.drain decode (encode f) = ([f], None, [])"
  using tcp.drain_message [of f "[]"] by (simp add: Net.drain.simps [of decode "[]"] tcp.dec_nil)

lemma read_short: "length b < HEADER_LEN \<Longrightarrow> Net.drain decode b = ([], None, b)"
  by (simp add: Net.drain.simps [of decode b] decode_def)

definition demo_welcome :: frame where
  "demo_welcome = push_frame SYS_CONN_ID (be_bytes 0x01000000)"

lemma demo_welcome_fields:
  "fits demo_welcome" "fits heartbeat_frame" "length (encode demo_welcome) = 20" "length (encode heartbeat_frame) = 16"
  "f_ptype demo_welcome = Push" "f_msg_id demo_welcome = SYS_CONN_ID" "f_payload demo_welcome = [1, 0, 0, 0]"
  "f_ptype heartbeat_frame = Heartbeat" "f_payload heartbeat_frame = []"
  by (simp_all add: demo_welcome_def push_frame_def encode_cons be_bytes_def heartbeat_frame_def MAX_PAYLOAD_unat)

lemmas demo_reads = read_whole [OF demo_welcome_fields(1)] read_whole [OF demo_welcome_fields(2)]

definition demo_served :: gw_sys where
  "demo_served = fst (gw_step (gw_start 1 '''' False) GAccept)"

definition demo_link :: "client \<Rightarrow> pipe \<Rightarrow> pipe \<Rightarrow> link" where
  "demo_link cl up down =
     \<lparr>lk_client = cl, lk_up = up, lk_sys = demo_served, lk_arc = 0,
      lk_conn = 0x01000000, lk_serving = True, lk_down = down\<rparr>"

definition demo_client :: client where
  "demo_client = client_new\<lparr>cl_conn_id := 0x01000000\<rparr>"

lemma demo_steps:
  "link_start (gw_start 1 '''' False) = (demo_link client_new pipe_new (pipe_new\<lparr>pi_queue := [demo_welcome]\<rparr>), [SentDown demo_welcome])"
  "link_step (demo_link client_new pipe_new (pipe_new\<lparr>pi_queue := [demo_welcome]\<rparr>)) (GWrites None) =
     (demo_link client_new pipe_new (pipe_new\<lparr>pi_wire := encode demo_welcome\<rparr>), [])"
  "link_step (demo_link client_new pipe_new (pipe_new\<lparr>pi_wire := encode demo_welcome\<rparr>)) (CReads 5) =
     (demo_link client_new pipe_new (pipe_new\<lparr>pi_buf := take 5 (encode demo_welcome), pi_wire := drop 5 (encode demo_welcome)\<rparr>), [])"
  "link_step (demo_link client_new pipe_new
       (pipe_new\<lparr>pi_buf := take 5 (encode demo_welcome), pi_wire := drop 5 (encode demo_welcome)\<rparr>)) (CReads 99) =
     (demo_link demo_client pipe_new pipe_new, [GotDown demo_welcome])"
  "link_step (demo_link demo_client pipe_new pipe_new) CBeat =
     (demo_link demo_client (pipe_new\<lparr>pi_queue := [heartbeat_frame]\<rparr>) pipe_new, [SentUp heartbeat_frame])"
  "link_step (demo_link demo_client (pipe_new\<lparr>pi_queue := [heartbeat_frame]\<rparr>) pipe_new) (CWrites None) =
     (demo_link demo_client (pipe_new\<lparr>pi_wire := encode heartbeat_frame\<rparr>) pipe_new, [])"
  "link_step (demo_link demo_client (pipe_new\<lparr>pi_wire := encode heartbeat_frame\<rparr>) pipe_new) (GReads 99) =
     (demo_link demo_client pipe_new (pipe_new\<lparr>pi_queue := [heartbeat_frame]\<rparr>), [GotUp heartbeat_frame, SentDown heartbeat_frame])"
  apply (simp add: link_start_def demo_served_def demo_link_def gw_start_def gw_simps pipe_put_def pipe_new_def conn_make_def GATEWAY_ID_SHIFT_def
    LOCAL_MASK_def demo_welcome_def)
  apply (simp add: session_writes_def demo_link_def writer_turn_def pipe_new_def)
  apply (simp add: client_reads_def demo_link_def reader_turn_def pipe_new_def read_short demo_welcome_fields net_consts client_new_def)
  apply (simp add: client_reads_def demo_link_def reader_turn_def pipe_new_def net_consts demo_reads demo_welcome_fields demo_client_def client_new_def
    on_server_frame_def from_be_bytes_def)
  apply (simp add: client_beat_def demo_link_def pipe_put_def pipe_new_def)
  apply (simp add: client_writes_def demo_link_def writer_turn_def pipe_new_def demo_client_def client_new_def)
  apply (simp add: gateway_reads_def demo_link_def reader_turn_def pipe_new_def net_consts demo_reads demo_welcome_fields on_frame_def demo_served_def gw_start_def gw_simps pipe_put_def
   heartbeat_frame_def[symmetric])
  done

theorem link_is_fifo_witness:
  "\<exists>k l. link_reach (gw_start 1 '''' False) [GWrites None, CReads 5, CReads 99, CBeat, CWrites None, GReads 99] k l \<and>
     pipe_idle (lk_up k) \<and> sent_up l = [heartbeat_frame] \<and> got_up l = [heartbeat_frame] \<and>
     prefix [demo_welcome] (sent_down l) \<and> prefix (got_down l) (sent_down l)"
proof -
  let ?k = "demo_link demo_client pipe_new (pipe_new\<lparr>pi_queue := [heartbeat_frame]\<rparr>)"
  let ?l = "[SentDown demo_welcome, GotDown demo_welcome, SentUp heartbeat_frame, GotUp heartbeat_frame, SentDown heartbeat_frame]"
  have r: "link_reach (gw_start 1 '''' False) [GWrites None, CReads 5, CReads 99, CBeat, CWrites None, GReads 99] ?k ?l"
    unfolding link_reach_def by (simp only: demo_steps link_run.simps prod.case append.simps simp_thms)
  moreover have "log_fits ?l" by (simp add: log_fits_def demo_welcome_fields heartbeat_frame_def MAX_PAYLOAD_unat)
  moreover have "pipe_idle (lk_up ?k)" by (simp add: pipe_idle_def demo_link_def pipe_new_def)
  ultimately show ?thesis
    using link_is_fifo [OF r] by (intro exI [of _ ?k] exI [of _ ?l]) simp
qed
section \<open>After the end of a reader\<close>

text \<open>
  When the client's reader has ended (a kick, a migration, an error), its requests still go out, but
  none that waits or comes later is answered: each one runs into its time limit.
\<close>

fun is_gave :: "link_log \<Rightarrow> bool" where
  "is_gave (Gave _) = True" | "is_gave _ = False"

lemma put_down_not_gave: "put_down a es p = (p', l) \<Longrightarrow> \<forall>x\<in>set l. \<not> is_gave x"
  by (induction a es p arbitrary: p' l rule: put_down.induct) (auto split: if_splits prod.splits)

lemma client_takes_ended: "\<not> cl_reading cl \<Longrightarrow> client_takes cl fs = ([], cl)"
  by (cases fs) simp_all

lemma ended_step:
  assumes "\<not> cl_reading (lk_client k)" "link_step k e = (k', l)"
  shows "\<not> cl_reading (lk_client k') \<and> (\<forall>x\<in>set l. \<not> is_gave x)"
  using assms put_down_not_gave client_takes_ended
  by (cases e)
    (fastforce simp: client_requests_def begin_request_def client_beat_def client_writes_def session_writes_def client_reads_def
      gateway_reads_def close_link_def Let_def split: if_splits prod.splits sum.splits bool.splits)+

lemma ended_client_gets_nothing:
  "\<not> cl_reading (lk_client k) \<Longrightarrow> link_run k es = (k', l) \<Longrightarrow> \<forall>x\<in>set l. \<not> is_gave x"
proof (induction es arbitrary: k l k')
  case (Cons e es)
  obtain k1 l1 where s: "link_step k e = (k1, l1)" by force
  with ended_step [OF Cons.prems(1) s] Cons show ?case by (fastforce split: prod.splits)
qed simp

lemma ended_client_still_sends:
  "cl_open (lk_client k) \<Longrightarrow> \<exists>f. snd (link_step k (CRequest m p w)) = [SentUp f] \<and> f_payload f = p"
  by (simp add: client_requests_def begin_request_def Let_def)

end
