(* ===== verification/SimMain.thy ===== *)
theory SimMain
  imports Scenario RoomScenario Client
begin

text \<open>
  The rest of \<open>grimoire-sim/src/main.rs\<close>: the arguments, the choice of the scenario, \<open>connect\<close>, the
  scenario that holds its connection, and the workers of the load generator.

  \<^item> Dialling a gateway, over TCP or TLS, is a parameter (\<open>dial\<close>), and so is what the gateway answers to the token.
  \<^item> Times are numbers: seconds in the arguments, microseconds for the pace of a worker, nanoseconds for latencies.
\<close>

section \<open>Arguments\<close>

record sim_args =
  sm_gateway :: string
  sm_gateway_b :: string
  sm_udp_gateway :: string
  sm_udp_gateway_b :: string
  sm_mode :: string
  sm_clients :: nat
  sm_duration :: u64
  sm_rps :: u64
  sm_pipeline :: u32
  sm_kcp_interval :: int
  sm_kcp_resend :: int
  sm_tls :: bool
  sm_auth_token :: string

definition sim_args_default :: sim_args where
  "sim_args_default =
     \<lparr>sm_gateway = ''127.0.0.1:9000'', sm_gateway_b = ''127.0.0.1:9000'', sm_udp_gateway = ''127.0.0.1:9020'',
      sm_udp_gateway_b = ''127.0.0.1:9020'', sm_mode = ''room'', sm_clients = 100, sm_duration = 5, sm_rps = 0,
      sm_pipeline = 1, sm_kcp_interval = 10, sm_kcp_resend = 2, sm_tls = False, sm_auth_token = []\<rparr>"

datatype sim_mode =
    RoomDemo | RoomMigrateDemo | RoomHoldDemo | BattleDemo | BattleUdpDemo | BattleKcpDemo | BattleStressDemo | CardDemo | Bench

definition mode_of :: "sim_args \<Rightarrow> string + sim_mode" where
  "mode_of args =
     (let md = sm_mode args
      in if md = ''room'' then Inr RoomDemo
         else if md = ''room-migrate'' then Inr RoomMigrateDemo
         else if md = ''room-hold'' then Inr RoomHoldDemo
         else if md = ''battle'' then Inr BattleDemo
         else if md = ''battle-udp'' then Inr BattleUdpDemo
         else if md = ''battle-kcp'' then Inr BattleKcpDemo
         else if md = ''battle-stress'' then Inr BattleStressDemo
         else if md = ''card'' then Inr CardDemo
         else if md = ''bench'' then Inr Bench
         else Inl (''unknown mode: '' @ md))"

section \<open>Connecting\<close>

text \<open>\<open>connect_with\<close> as the scenarios use it: an address, a label and whether to use TLS.\<close>

type_synonym dial = "string \<Rightarrow> u32 \<Rightarrow> bool \<Rightarrow> bytes + client"

definition connect_plain :: "dial \<Rightarrow> string \<Rightarrow> u32 \<Rightarrow> bytes + client" where
  "connect_plain dial gw label = dial gw label False"

text \<open>\<open>connect\<close> of the scenarios, with the frames it sends; its reader has taken the request of an answer away.\<close>

definition sim_connect :: "dial \<Rightarrow> (frame \<Rightarrow> answer) \<Rightarrow> sim_args \<Rightarrow> string \<Rightarrow> u32 \<Rightarrow> (bytes + client) \<times> frame list" where
  "sim_connect dial reply args gw label =
     (case dial gw label (sm_tls args) of
        Inl e \<Rightarrow> (Inl e, [])
      | Inr c \<Rightarrow>
          if sm_auth_token args = [] then (Inr c, [])
          else (case auth_begin c (sm_auth_token args) 0 of
                  (Inl e, _) \<Rightarrow> (Inl e, [])
                | (Inr f, c') \<Rightarrow>
                    (case auth_end (reply f) of
                       Inl e \<Rightarrow> (Inl e, [f])
                     | Inr _ \<Rightarrow> (Inr (c'\<lparr>cl_responses := (cl_responses c')(f_seq f := None)\<rparr>), [f]))))"

text \<open>Two scenario clients; the first error ends the scenario.\<close>

definition connect_two :: "dial \<Rightarrow> (frame \<Rightarrow> answer) \<Rightarrow> sim_args \<Rightarrow> (bytes + client \<times> client) \<times> frame list" where
  "connect_two dial reply args =
     (case sim_connect dial reply args (sm_gateway args) 1 of
        (Inl e, fs) \<Rightarrow> (Inl e, fs)
      | (Inr a, fs) \<Rightarrow>
          (case sim_connect dial reply args (sm_gateway_b args) 2 of
             (Inl e, gs) \<Rightarrow> (Inl e, fs @ gs)
           | (Inr b, gs) \<Rightarrow> (Inr (a, b), fs @ gs)))"

lemma connect_without_token:
  "sm_auth_token args = [] \<Longrightarrow> sim_connect dial reply args gw label = (dial gw label (sm_tls args), [])"
  by (simp add: sim_connect_def split: sum.splits)

lemma connect_sends_token:
  assumes "dial gw label (sm_tls args) = Inr c" "sm_auth_token args \<noteq> []" "cl_open c"
  shows "\<exists>f. snd (sim_connect dial reply args gw label) = [f] \<and> f_msg_id f = SYS_AUTH \<and> f_payload f = string_bytes (sm_auth_token args) \<and>
    ((\<exists>c'. fst (sim_connect dial reply args gw label) = Inr c' \<and> cl_responses c' = (cl_responses c)(cl_seq c := None)) \<longleftrightarrow>
     auth_end (reply f) = Inr ())"
  using assms by (auto simp: sim_connect_def auth_begin_def begin_request_def Let_def split: sum.splits)

section \<open>Holding a connection\<close>

text \<open>
  \<open>room_hold_demo\<close>: log in, create a room, and say something every second.  \<open>others\<close> is what happens
  to the service in the second before; a chat that gets no answer is printed, and the loop goes on.
\<close>

definition name_hold :: string where
  "name_hold = utf8 [0xE6, 0x8C, 0x81, 0xE4, 0xB9, 0x85, 0xE6, 0x88, 0xBF]"

fun hold_chats :: "(nat \<Rightarrow> room_app \<Rightarrow> room_app) \<Rightarrow> u32 \<Rightarrow> nat list \<Rightarrow> room_app \<Rightarrow>
    (bool \<times> room_push effect list) list \<times> room_app" where
  "hold_chats others conn [] app = ([], app)"
| "hold_chats others conn (i # is) app =
     (case room_chat (others i app) conn (''tick'' @ show_base 10 i) of
        (r, app', es) \<Rightarrow>
          (case hold_chats others conn is app' of (cs, app'') \<Rightarrow> ((\<not> panics r, es) # cs, app'')))"

definition room_hold_demo :: "profiles \<Rightarrow> (nat \<Rightarrow> room_app \<Rightarrow> room_app) \<Rightarrow> sim_args \<Rightarrow> room_app \<Rightarrow> u32 \<Rightarrow>
    (u32 \<times> (bool \<times> room_push effect list) list \<times> room_app) option" where
  "room_hold_demo pr others args app conn =
     Option.bind (ask_login pr app conn name_ming) (\<lambda>(_, app1).
     Option.bind (ask_create app1 conn name_hold 8) (\<lambda>(room_id, app2).
       case hold_chats others conn [0..<unat (sm_duration args)] app2 of (cs, app3) \<Rightarrow> Some (room_id, cs, app3)))"

lemma hold_chats_alone:
  assumes "ra_players app c = Some p" "ra_rooms app (rp_room_id p) = Some r" "rm_members r = [m]"
  shows "hold_chats (\<lambda>_. id) c is app =
    (map (\<lambda>i. (True, [PushTcp (rp_conn_id m) ROOM_CHAT_PUSH (RoomChatPush (rm_id r) (rp_player_id p) (rp_name p) (''tick'' @ show_base 10 i))])) is,
     app)"
  using assms by (induction "is") (simp_all add: room_chat_def panics_def)

text \<open>Alone on a service the scenario hears each of its own messages, one per second, in its room.\<close>

lemma room_hold_hears_itself:
  assumes "ra_players app c = None" "ra_next_room app \<noteq> 0"
  shows "\<exists>app'. room_hold_demo pr (\<lambda>_. id) args app c = Some (ra_next_room app,
    map (\<lambda>i. (True, [PushTcp c ROOM_CHAT_PUSH (RoomChatPush (ra_next_room app) (ra_next_player app) name_ming (''tick'' @ show_base 10 i))]))
      [0..<unat (sm_duration args)], app')"
proof -
  have "name_hold \<noteq> []" by (simp add: name_hold_def utf8_def)
  then show ?thesis
    using assms
    by (simp add: room_hold_demo_def login_new ask_create_def create_room_def set_room_id_def Let_def clamp_capacity_def
        hold_chats_alone)
qed

section \<open>The load generator\<close>

definition bench_pipeline :: "sim_args \<Rightarrow> u32" where
  "bench_pipeline args = max (sm_pipeline args) 1"

text \<open>The pace of a worker in microseconds; \<open>interval\<close> panics on a period of zero.\<close>

definition bench_interval :: "sim_args \<Rightarrow> nat option outcome" where
  "bench_interval args =
     (if bench_pipeline args = 1 \<and> 0 < sm_rps args
      then let period = unat (1000000 div max (sm_rps args) 1)
           in if period = 0 then Panics ZeroPeriod else Returns (Some period)
      else Returns None)"

text \<open>
  The workers, by the number of their client: none for a client that does not connect, and the pace is
  worked out for each, so that a panic ends the program at the first.
\<close>

definition bench_workers :: "dial \<Rightarrow> sim_args \<Rightarrow> (nat \<times> nat option) list outcome" where
  "bench_workers dial args =
     (let is = filter (\<lambda>i. case connect_plain dial (sm_gateway args) (of_nat i) of Inr _ \<Rightarrow> True | Inl _ \<Rightarrow> False) [0..<sm_clients args]
      in case bench_interval args of
           Panics p \<Rightarrow> (if is = [] then Returns [] else Panics p)
         | Returns pace \<Rightarrow> Returns (concat (map (\<lambda>i. replicate (unat (bench_pipeline args)) (i, pace)) is)))"

text \<open>What the workers do, interleaved: worker \<open>w\<close> gets an answer or an error after \<open>lat\<close>.\<close>

type_synonym bench = "(nat \<Rightarrow> u64) \<times> nat list"

definition bench_step :: "bench \<Rightarrow> nat \<times> bool \<times> nat \<Rightarrow> bench" where
  "bench_step b e =
     (case (b, e) of ((cs, lats), (w, ok, lat)) \<Rightarrow>
        (case bench_answer (cs w, lats) (ok, lat) of (n, lats') \<Rightarrow> (cs(w := n), lats')))"

definition bench_run :: "(nat \<times> bool \<times> nat) list \<Rightarrow> bench" where
  "bench_run es = foldl bench_step (\<lambda>_. 0, []) es"

definition bench_total :: "nat \<Rightarrow> bench \<Rightarrow> u64" where
  "bench_total workers b = sum_list (map (fst b) [0..<workers])"

text \<open>The mean of the samples: \<open>Duration\<close> divides by a 32-bit number and panics on zero.\<close>

definition bench_avg :: "nat list \<Rightarrow> nat outcome" where
  "bench_avg lats =
     (let d = word_of_nat (max (length lats) 1) :: u32
      in if d = 0 then Panics RemainderByZero else Returns (sum_list lats div unat d))"

lemma bench_interval_paced:
  assumes "bench_interval args = Returns (Some p)"
  shows "0 < p \<and> p \<le> 1000000"
proof -
  have "unat (1000000 div max (sm_rps args) 1) = 1000000 div unat (max (sm_rps args) 1)" by (simp add: unat_div)
  moreover have "1000000 div unat (max (sm_rps args) 1) \<le> 1000000" by (rule div_le_dividend)
  ultimately have "unat (1000000 div max (sm_rps args) 1) \<le> 1000000" by linarith
  then show ?thesis using assms by (auto simp: bench_interval_def Let_def split: if_splits)
qed

text \<open>A worker cannot ask more than a million times a second: the program dies instead.\<close>

lemma bench_rate_panics:
  "bench_interval args = Panics ZeroPeriod \<longleftrightarrow> sm_pipeline args \<le> 1 \<and> 1000000 < sm_rps args"
proof -
  have p: "max (sm_pipeline args) 1 = 1 \<longleftrightarrow> sm_pipeline args \<le> 1" by (auto simp: max_def)
  have "unat (1000000 div max (sm_rps args) 1) = 1000000 div unat (max (sm_rps args) 1)" by (simp add: unat_div)
  moreover have "1000000 div unat (max (sm_rps args) 1) = 0 \<longleftrightarrow> 1000000 < sm_rps args"
    by (auto simp: div_eq_0_iff max_def word_less_nat_alt word_le_nat_alt)
  ultimately show ?thesis
    by (auto simp: bench_interval_def bench_pipeline_def Let_def p word_less_nat_alt)
qed

section \<open>What the load generator counts\<close>

definition answered :: "nat \<Rightarrow> (nat \<times> bool \<times> nat) list \<Rightarrow> nat" where
  "answered w es = length (filter (\<lambda>(w', ok, _). w' = w \<and> ok) es)"

lemma bench_run_snoc: "bench_run (es @ [e]) = bench_step (bench_run es) e"
  by (simp add: bench_run_def)

lemma answered_snoc [simp]:
  "answered w (es @ [(w', ok, lat)]) = answered w es + (if w' = w \<and> ok then 1 else 0)"
  by (simp add: answered_def)

lemma sum_one_more:
  fixes w n :: nat
  assumes "w < n" "\<And>i. i \<noteq> w \<Longrightarrow> f i = (g i :: nat)"
  shows "(\<Sum>i<n. f i) + g w = (\<Sum>i<n. g i) + f w"
proof -
  have "(\<Sum>i<n. h i) = h w + (\<Sum>i\<in>{..<n} - {w}. h i)" for h :: "nat \<Rightarrow> nat"
    by (rule sum.remove) (use assms(1) in auto)
  moreover have "(\<Sum>i\<in>{..<n} - {w}. f i) = (\<Sum>i\<in>{..<n} - {w}. g i)" by (rule sum.cong) (use assms(2) in auto)
  ultimately show ?thesis by (metis add.commute add.left_commute)
qed

lemma bench_counters:
  assumes "length es < 2 ^ 64"
  shows "fst (bench_run es) w = word_of_nat (answered w es)" "answered w es \<le> length es"
proof -
  have "fst (bench_run es) w = word_of_nat (answered w es) \<and> answered w es \<le> length es"
    using assms
  proof (induction es rule: rev_induct)
    case Nil
    then show ?case by (simp add: bench_run_def answered_def)
  next
    case (snoc e es)
    obtain w' ok lat where e: "e = (w', ok, lat)" by (cases e) auto
    show ?case
      using snoc
      by (cases "bench_run es") (auto simp: e bench_run_snoc bench_step_def bench_answer_def)
  qed
  then show "fst (bench_run es) w = word_of_nat (answered w es)" "answered w es \<le> length es" by simp_all
qed

lemma answered_all:
  assumes "\<forall>(w, _)\<in>set es. w < workers"
  shows "(\<Sum>w<workers. answered w es) = length (filter (\<lambda>(_, ok, _). ok) es)"
  using assms
proof (induction es rule: rev_induct)
  case Nil
  then show ?case by (simp add: answered_def)
next
  case (snoc e es)
  obtain w' ok lat where e: "e = (w', ok, lat)" by (cases e) auto
  then have "w' < workers" using snoc.prems by simp
  from sum_one_more [OF this, of "\<lambda>w. answered w (es @ [e])" "\<lambda>w. answered w es"] snoc
  show ?case by (simp add: e split: if_splits)
qed

lemma bench_sample_count:
  assumes "\<forall>(w, _)\<in>set es. w < workers" "length es < 2 ^ 64"
  shows "length (snd (bench_run es)) = (\<Sum>w<workers. answered w es div 100)"
  using assms
proof (induction es rule: rev_induct)
  case Nil
  then show ?case by (simp add: bench_run_def answered_def)
next
  case (snoc e es)
  obtain w ok lat where e: "e = (w, ok, lat)" by (cases e) auto
  then have w: "w < workers" using snoc.prems by simp
  have n: "fst (bench_run es) w = word_of_nat (answered w es)" "answered w es \<le> length es"
    using bench_counters [of es w] snoc.prems by simp_all
  have m: "(word_of_nat (answered w es) + 1) mod 100 = (0 :: u64) \<longleftrightarrow> Suc (answered w es) mod 100 = 0"
  proof -
    have "Suc (answered w es) < 2 ^ 64" using n(2) snoc.prems(2) by simp
    then have "unat (word_of_nat (Suc (answered w es)) :: u64) = Suc (answered w es)"
      by (simp add: unat_of_nat take_bit_nat_eq_self del: of_nat_Suc)
    moreover have "x mod 100 = 0 \<longleftrightarrow> unat x mod 100 = 0" for x :: u64
      by (simp add: unat_mod flip: unat_eq_zero)
    ultimately show ?thesis by (simp add: add.commute)
  qed
  from sum_one_more [OF w, of "\<lambda>w. answered w (es @ [e]) div 100" "\<lambda>w. answered w es div 100"] snoc m n
  show ?case
    by (cases "bench_run es") (auto simp: e bench_run_snoc bench_step_def bench_answer_def div_Suc)
qed

lemma bench_total_nat:
  "length es < 2 ^ 64 \<Longrightarrow> bench_total n (bench_run es) = word_of_nat (\<Sum>w<n. answered w es)"
  by (induction n) (simp_all add: bench_total_def bench_counters)

text \<open>
  The report of the load generator is exact: the total is the number of answers, errors left out, and there is one sample for
  every hundred answers of a worker, however the workers are interleaved.
\<close>

lemma bench_exact:
  assumes "\<forall>(w, _)\<in>set es. w < workers" "length es < 2 ^ 64"
  shows "unat (bench_total workers (bench_run es)) = length (filter (\<lambda>(_, ok, _). ok) es)"
    "length (snd (bench_run es)) = (\<Sum>w<workers. answered w es div 100)"
proof -
  have "length (filter (\<lambda>(_, ok, _). ok) es) < 2 ^ 64" using assms(2) by (meson length_filter_le le_less_trans)
  then show "unat (bench_total workers (bench_run es)) = length (filter (\<lambda>(_, ok, _). ok) es)"
    by (simp add: bench_total_nat [OF assms(2)] answered_all [OF assms(1)] unat_of_nat take_bit_nat_eq_self)
qed (rule bench_sample_count [OF assms])

end
