(* ===== verification/BattleScenario.thy ===== *)
theory BattleScenario
  imports Battle_Props EndToEnd Scenario
begin

text \<open>
  The battle scenarios of \<open>grimoire-sim/src/main.rs\<close> as the battle service sees them: \<open>battle_demo\<close>,
  \<open>battle_udp_demo\<close> and \<open>battle_kcp_demo\<close>.  Two clients join, one of them sends inputs, both receive the frames of the
  service's beat; the KCP scenario asks once for a resynchronisation.

  \<^item> The requests are made of the battle service, while other clients and the beat go on; a request
    that is refused, or whose handler panics, ends the scenario (\<open>None\<close>).
  \<^item> The channels over which the frames arrive are in \<open>BattleChannels\<close>.
\<close>

section \<open>Requests\<close>

definition ask_join_battle :: "battle_app \<Rightarrow> u32 \<Rightarrow> u32 list \<Rightarrow> u32 list \<Rightarrow> (u32 \<times> u32 \<times> battle_app) option" where
  "ask_join_battle app conn bids_it it =
     (case battle_join app conn bids_it it of
        (Inr (BattleJoinResp battle_id player_id _ _), app', _) \<Rightarrow> Some (battle_id, player_id, app') | _ \<Rightarrow> None)"

text \<open>All three scenarios begin alike: A joins, then B.  The orders are those in which the service visits its battles.\<close>

definition pair_up :: "battle_app \<Rightarrow> u32 \<Rightarrow> u32 \<Rightarrow> u32 list \<Rightarrow> u32 list \<Rightarrow> (u32 \<times> u32 \<times> u32 \<times> u32 \<times> battle_app) option" where
  "pair_up app a b bids_a bids_b =
     Option.bind (ask_join_battle app a bids_a []) (\<lambda>(bid_a, pa, app1).
     Option.bind (ask_join_battle app1 b bids_b []) (\<lambda>(bid_b, pb, app2). Some (bid_a, pa, bid_b, pb, app2)))"

text \<open>What the service does meanwhile, and the frames it pushes to a connection.\<close>

definition battle_effects :: "battle_app \<Rightarrow> battle_event \<Rightarrow> battle_push effect list" where
  "battle_effects s e =
     (case e of
        BJoin c bids_it it \<Rightarrow> effects_of (battle_join s c bids_it it)
      | BInput c dx dy f \<Rightarrow> effects_of (battle_input s c dx dy f)
      | BLeave c \<Rightarrow> effects_of (battle_leave s c)
      | BTick bids_it its \<Rightarrow> effects_of (battle_tick s bids_it its))"

fun battle_log :: "battle_app \<Rightarrow> battle_event list \<Rightarrow> battle_push effect list" where
  "battle_log s [] = []"
| "battle_log s (e # es) = battle_effects s e @ battle_log (battle_step s e) es"

fun frames_to :: "u32 \<Rightarrow> battle_push effect list \<Rightarrow> frame_sync list" where
  "frames_to c [] = []"
| "frames_to c (PushUdp c' m (FrameSyncPush f) # es) = (if c' = c then f # frames_to c es else frames_to c es)"
| "frames_to c (_ # es) = frames_to c es"

section \<open>Receiving\<close>

text \<open>
  A's loop in the KCP scenario over the numbers of the frames that arrive: which are printed, and
  the frames it says it has in the requests for a resynchronisation.
\<close>

record receiver =
  rv_frame :: u64
  rv_resynced :: bool

definition receive_frame :: "receiver \<Rightarrow> u64 \<Rightarrow> u64 list \<times> u64 list \<times> receiver" where
  "receive_frame r f =
     (let shown = (if f \<noteq> rv_frame r then [f] else []);
          req = resync_request (rv_resynced r) f
      in (shown, case req of Some l \<Rightarrow> [l] | None \<Rightarrow> [],
          r\<lparr>rv_frame := f, rv_resynced := (rv_resynced r \<or> req \<noteq> None)\<rparr>))"

fun receive_all :: "receiver \<Rightarrow> u64 list \<Rightarrow> u64 list \<times> u64 list \<times> receiver" where
  "receive_all r [] = ([], [], r)"
| "receive_all r (f # fs) =
     (case receive_frame r f of
        (s, q, r1) \<Rightarrow> (case receive_all r1 fs of (s', q', r2) \<Rightarrow> (s @ s', q @ q', r2)))"

definition receiver_new :: receiver where
  "receiver_new = \<lparr>rv_frame = 0, rv_resynced = False\<rparr>"

section \<open>Seats\<close>

text \<open>
  Every player of a battle is the one its connection is recorded with, and the other way round as
  long as the battle and the player exist.
\<close>

definition seats_ok :: "battle_app \<Rightarrow> bool" where
  "seats_ok s \<longleftrightarrow>
     (\<forall>c bid pid. ba_conn_battle s c = Some (bid, pid) \<longrightarrow> bid < ba_next_battle s \<and> pid < ba_next_player s) \<and>
     (\<forall>bid b k p. ba_battles s bid = Some b \<longrightarrow> map_of (bt_players b) k = Some p \<longrightarrow>
        ba_conn_battle s (bp_conn_id p) = Some (bid, k)) \<and>
     (\<forall>c bid pid b p. ba_conn_battle s c = Some (bid, pid) \<longrightarrow> ba_battles s bid = Some b \<longrightarrow>
        map_of (bt_players b) pid = Some p \<longrightarrow> bp_conn_id p = c)"

lemma seats_new: "seats_ok (battle_app_new sd nd)"
  by (simp add: seats_ok_def battle_app_new_def)

lemma map_of_add_player:
  "map_of (bt_players (battle_add_player b p)) =
     (map_of (bt_players b))(bp_player_id p \<mapsto>
        (if bt_players b = [] then p\<lparr>bp_x := Fin 25, bp_y := Fin 50\<rparr> else p\<lparr>bp_x := Fin 75, bp_y := Fin 50\<rparr>))"
  by (simp add: battle_add_player_def update_conv' Let_def)

lemma map_of_remove_player:
  "map_of (bt_players (remove_player b pid)) = (map_of (bt_players b))(pid := None)"
  by (simp add: remove_player_def delete_conv')

lemma tick_conns:
  assumes "map_of (bt_players (tick_frame b it)) k = Some p"
  shows "\<exists>p0. map_of (bt_players b) k = Some p0 \<and> bp_conn_id p0 = bp_conn_id p"
proof -
  have keep: "bp_conn_id (fold (\<lambda>(_, dx, dy) p. move_player p dx dy) is q) = bp_conn_id q" for "is" q
    by (induction "is" arbitrary: q) auto
  show ?thesis
    using assms by (auto simp: tick_frame_def Let_def map_of_apply_inputs keep split: option.splits)
qed

text \<open>A new player takes a seat.\<close>

lemma seats_added:
  assumes ok: "seats_ok s"
    and free: "\<And>bid' pid. ba_conn_battle s c = Some (bid', pid) \<Longrightarrow> ba_battles s bid' = None"
    and place: "ba_battles s bid = Some old \<or> ba_battles s bid = None \<and> bt_players old = []"
    and ids: "bp_player_id p = ba_next_player s" "bp_conn_id p = c" "ba_next_player s < ba_next_player s + 1"
      "bid < ba_next_battle s'" "ba_next_battle s \<le> ba_next_battle s'"
    and s': "ba_battles s' = (ba_battles s)(bid \<mapsto> battle_add_player old p)" "ba_next_player s' = ba_next_player s + 1"
      "ba_conn_battle s' = (ba_conn_battle s)(c \<mapsto> (bid, ba_next_player s))"
  shows "seats_ok s'"
proof -
  note parts = ok [unfolded seats_ok_def]
  have p1: "bid' < ba_next_battle s \<and> pid < ba_next_player s" if "ba_conn_battle s c' = Some (bid', pid)" for c' bid' pid
    using parts that by blast
  have p2: "ba_conn_battle s (bp_conn_id q) = Some (bid', k)"
    if "ba_battles s bid' = Some b" "map_of (bt_players b) k = Some q" for bid' b k q
    using parts that by blast
  have p3: "bp_conn_id q = c'"
    if "ba_conn_battle s c' = Some (bid', pid)" "ba_battles s bid' = Some b" "map_of (bt_players b) pid = Some q" for c' bid' pid b q
    using parts that by blast
  have not_c: "bp_conn_id q \<noteq> c" if "ba_battles s bid' = Some b" "map_of (bt_players b) k = Some q" for bid' b k q
    using free p2 [OF that] that(1) by fastforce
  have old_seat: "ba_conn_battle s (bp_conn_id q) = Some (bid, k) \<and> bp_conn_id q \<noteq> c" if "map_of (bt_players old) k = Some q" for k q
    using place p2 [OF _ that] not_c [OF _ that] that by auto
  show ?thesis
    unfolding seats_ok_def
  proof (intro conjI allI impI)
    fix c' bid' pid assume "ba_conn_battle s' c' = Some (bid', pid)"
    then have "c' = c \<and> bid' = bid \<and> pid = ba_next_player s \<or> ba_conn_battle s c' = Some (bid', pid)"
      by (auto simp: s' split: if_splits)
    then show "bid' < ba_next_battle s'" "pid < ba_next_player s'"
      using p1 [of c' bid' pid] ids(3,4,5) s'(2) by (auto intro: less_le_trans less_trans)
  next
    fix bid' b k q assume b: "ba_battles s' bid' = Some b" and q: "map_of (bt_players b) k = Some q"
    show "ba_conn_battle s' (bp_conn_id q) = Some (bid', k)"
    proof (cases "bid' = bid")
      case True
      then have "b = battle_add_player old p" using b s'(1) by simp
      with q True old_seat [of k q] ids show ?thesis
        by (auto simp: map_of_add_player s'(3) split: if_splits)
    next
      case False
      then have "ba_battles s bid' = Some b" using b s'(1) by simp
      with p2 [OF this q] not_c [OF this q] show ?thesis by (simp add: s'(3))
    qed
  next
    fix c' bid' pid b q
    assume c': "ba_conn_battle s' c' = Some (bid', pid)" and b: "ba_battles s' bid' = Some b" and q: "map_of (bt_players b) pid = Some q"
    show "bp_conn_id q = c'"
    proof (cases "c' = c")
      case True
      then have "bid' = bid" "pid = ba_next_player s" using c' by (simp_all add: s'(3))
      with b q True ids(1,2) show ?thesis by (auto simp: s'(1) map_of_add_player split: if_splits)
    next
      case False
      then have m: "ba_conn_battle s c' = Some (bid', pid)" using c' by (simp add: s'(3))
      then have pid: "pid \<noteq> ba_next_player s" using p1 by blast
      show ?thesis
      proof (cases "bid' = bid")
        case True
        then have "map_of (bt_players old) pid = Some q" using b q pid ids(1) by (auto simp: s'(1) map_of_add_player)
        with place m True p3 show ?thesis by auto
      next
        case False
        then have "ba_battles s bid' = Some b" using b s'(1) by simp
        from p3 [OF m this q] show ?thesis .
      qed
    qed
  qed
qed

lemma no_existing: "join_existing s c it = None \<Longrightarrow> ba_conn_battle s c = Some (bid, pid) \<Longrightarrow> ba_battles s bid = None"
  by (simp add: join_existing_def)

lemma seats_join:
  assumes "seats_ok s" "battle_inv fin n s" "n < 2 ^ 32 - 2"
  shows "seats_ok (next_state (battle_join s c bids_it it))"
proof (cases "join_existing s c it")
  case (Some r)
  then show ?thesis using assms(1) by (simp add: battle_join_def)
next
  case None
  have np: "ba_next_player s < ba_next_player s + 1" "ba_next_battle s < ba_next_battle s + 1"
    using assms(2,3) by (auto simp: battle_inv_def word_less_nat_alt unat_word_ariths)
  let ?p = "\<lparr>bp_player_id = ba_next_player s, bp_x = Fin 0, bp_y = Fin 0, bp_conn_id = c\<rparr>"
  show ?thesis
  proof (cases "find_open s bids_it")
    case (Some bid)
    then obtain b where b: "ba_battles s bid = Some b" by (rule find_open_Some)
    with assms(2) have "bid < ba_next_battle s" by (auto simp: battle_inv_def)
    then show ?thesis
      using None Some b np
      by (intro seats_added [OF assms(1) no_existing [OF None], where p = ?p and bid = bid and old = b])
        (auto simp: battle_join_def join_enter_def Let_def)
  next
    case no: None
    have "ba_battles s (ba_next_battle s) = None" using assms(2) by (cases "ba_battles s (ba_next_battle s)") (auto simp: battle_inv_def)
    then show ?thesis
      using None no np
      by (intro seats_added [OF assms(1) no_existing [OF None], where p = ?p and bid = "ba_next_battle s" and
            old = "battle_new (ba_next_battle s)"])
        (auto simp: battle_join_def join_enter_def Let_def battle_new_def)
  qed
qed

text \<open>What only takes seats away, or changes nothing about them.\<close>

lemma seats_sub:
  assumes "seats_ok s" "ba_next_battle s' = ba_next_battle s" "ba_next_player s' = ba_next_player s"
    and "\<And>c x. ba_conn_battle s' c = Some x \<Longrightarrow> ba_conn_battle s c = Some x"
    and players: "\<And>bid b k p. ba_battles s' bid = Some b \<Longrightarrow> map_of (bt_players b) k = Some p \<Longrightarrow>
      \<exists>old p'. ba_battles s bid = Some old \<and> map_of (bt_players old) k = Some p' \<and> bp_conn_id p' = bp_conn_id p \<and>
        (ba_conn_battle s (bp_conn_id p) = Some (bid, k) \<longrightarrow> ba_conn_battle s' (bp_conn_id p) = Some (bid, k))"
  shows "seats_ok s'"
proof -
  have "ba_conn_battle s' (bp_conn_id p) = Some (bid, k)"
    if "ba_battles s' bid = Some b" "map_of (bt_players b) k = Some p" for bid b k p
    using players [OF that] assms(1) unfolding seats_ok_def by metis
  moreover have "bp_conn_id p = c"
    if "ba_conn_battle s' c = Some (bid, pid)" "ba_battles s' bid = Some b" "map_of (bt_players b) pid = Some p" for c bid pid b p
    using players [OF that(2,3)] assms(4) [OF that(1)] assms(1) unfolding seats_ok_def by metis
  moreover have "bid < ba_next_battle s' \<and> pid < ba_next_player s'" if "ba_conn_battle s' c = Some (bid, pid)" for c bid pid
    using assms(1-3) assms(4) [OF that] unfolding seats_ok_def by simp
  ultimately show ?thesis unfolding seats_ok_def by blast
qed

lemma seats_input: "seats_ok s \<Longrightarrow> seats_ok (next_state (battle_input s c dx dy f))"
  by (rule seats_sub [where s = s])
    (auto simp: battle_input_def battle_queue_def Let_def split: option.splits if_splits)

lemma seats_tick:
  assumes "seats_ok s" "distinct bids_it"
  shows "seats_ok (next_state (battle_tick s bids_it its))"
proof (rule seats_sub [OF assms(1)])
  fix bid b k p
  assume b: "ba_battles (next_state (battle_tick s bids_it its)) bid = Some b" and p: "map_of (bt_players b) k = Some p"
  from b obtain old where old: "ba_battles s bid = Some old" "b = old \<or> b = tick_frame old (its bid)"
    using tick_battles_frame [of s bids_it its] assms(2)
    by (auto simp: battle_tick_def split: if_splits option.splits)
  show "\<exists>old p'. ba_battles s bid = Some old \<and> map_of (bt_players old) k = Some p' \<and> bp_conn_id p' = bp_conn_id p \<and>
        (ba_conn_battle s (bp_conn_id p) = Some (bid, k) \<longrightarrow>
         ba_conn_battle (next_state (battle_tick s bids_it its)) (bp_conn_id p) = Some (bid, k))"
    using old p tick_conns [of old "its bid" k p] tick_battles_frame [of s bids_it its]
    by (auto simp: battle_tick_def)
qed (use tick_battles_frame [of s bids_it its] in \<open>auto simp: battle_tick_def\<close>)

lemma leave_state:
  assumes "ba_conn_battle s c = Some (bid, pid)"
  shows "ba_conn_battle (next_state (battle_leave s c)) = (ba_conn_battle s)(c := None)"
    "ba_next_battle (next_state (battle_leave s c)) = ba_next_battle s"
    "ba_next_player (next_state (battle_leave s c)) = ba_next_player s"
    "ba_battles (next_state (battle_leave s c)) = (ba_battles s)(bid := (case ba_battles s bid of None \<Rightarrow> None
       | Some b \<Rightarrow> if bt_players (remove_player b pid) = [] then None else Some (remove_player b pid)))"
  using assms by (auto simp: battle_leave_def Let_def split: option.splits)

lemma seats_leave:
  assumes ok: "seats_ok s"
  shows "seats_ok (next_state (battle_leave s c))"
proof (cases "ba_conn_battle s c")
  case None
  then show ?thesis using ok by (simp add: battle_leave_def)
next
  case (Some v)
  then obtain bid pid where v: "ba_conn_battle s c = Some (bid, pid)" by (cases v) auto
  note st = leave_state [OF v]
  show ?thesis
  proof (rule seats_sub [OF ok st(2,3)])
    fix bid' b k p
    assume b: "ba_battles (next_state (battle_leave s c)) bid' = Some b" and p: "map_of (bt_players b) k = Some p"
    obtain old where old: "ba_battles s bid' = Some old" "map_of (bt_players old) k = Some p" "bid' = bid \<longrightarrow> k \<noteq> pid"
    proof (cases "bid' = bid")
      case True
      then obtain o' where o': "ba_battles s bid = Some o'" "b = remove_player o' pid"
        using b st(4) by (auto split: option.splits if_splits)
      then have "map_of (bt_players o') k = Some p" "k \<noteq> pid" using p by (auto simp: map_of_remove_player split: if_splits)
      with o'(1) True that show ?thesis by blast
    next
      case False
      then show ?thesis using b p st(4) that by simp
    qed
    then have "ba_conn_battle s (bp_conn_id p) = Some (bid', k)" using ok unfolding seats_ok_def by blast
    then have "bp_conn_id p \<noteq> c" using v old(3) by auto
    then show "\<exists>old p'. ba_battles s bid' = Some old \<and> map_of (bt_players old) k = Some p' \<and> bp_conn_id p' = bp_conn_id p \<and>
        (ba_conn_battle s (bp_conn_id p) = Some (bid', k) \<longrightarrow>
         ba_conn_battle (next_state (battle_leave s c)) (bp_conn_id p) = Some (bid', k))"
      using old(1,2) st(1) by auto
  qed (use st(1) in \<open>auto split: if_splits\<close>)
qed

lemma seats_step:
  assumes "seats_ok s" "battle_inv False n s" "n < 2 ^ 32 - 2" "battle_event_ok False e"
  shows "seats_ok (battle_step s e)"
  using assms seats_join seats_input seats_leave seats_tick by (cases e) auto

section \<open>Frames\<close>

lemma frames_to_append [simp]: "frames_to c (es @ fs) = frames_to c es @ frames_to c fs"
  by (induction c es rule: frames_to.induct) auto

lemma frames_to_directory [simp]: "frames_to c (battle_directory app bid new full) = []"
  by (simp add: battle_directory_def)

lemma frames_of_request:
  "frames_to c (effects_of (battle_join s c' bids_it it)) = []"
  "frames_to c (effects_of (battle_input s c' dx dy f)) = []"
  "frames_to c (effects_of (battle_leave s c')) = []"
  by (simp_all add: battle_join_def join_enter_def battle_input_def battle_leave_def Let_def split: option.splits)

lemma frames_of_pushes:
  "frames_to c (tick_pushes b it) =
     map (\<lambda>_. battle_snapshot b it) (filter (\<lambda>p. bp_conn_id p = c) (values_of it (bt_players b)))"
proof -
  have "frames_to c (map (\<lambda>p. PushUdp (bp_conn_id p) BATTLE_FRAME_SYNC (FrameSyncPush x)) ps) =
      map (\<lambda>_. x) (filter (\<lambda>p. bp_conn_id p = c) ps)" for x ps
    by (induction ps) auto
  then show ?thesis by (simp add: tick_pushes_def)
qed

text \<open>A connection that has a player in no other battle gets the frames of its battle only.\<close>

lemma tick_other_battle:
  assumes "\<And>k p. map_of (bt_players b) k = Some p \<Longrightarrow> bp_conn_id p \<noteq> c"
  shows "frames_to c (tick_pushes (tick_frame b it) it) = []"
proof -
  have "bp_conn_id p \<noteq> c" if "p \<in> set (values_of it (bt_players (tick_frame b it)))" for p
  proof -
    from that obtain k where "map_of (bt_players (tick_frame b it)) k = Some p"
      by (auto simp: values_of_def set_entries)
    from tick_conns [OF this] assms show ?thesis by auto
  qed
  then have "filter (\<lambda>p. bp_conn_id p = c) (values_of it (bt_players (tick_frame b it))) = []"
    by (simp add: filter_empty_conv)
  then show ?thesis by (simp add: frames_of_pushes)
qed

lemma tick_frames:
  assumes "distinct bids"
    and "\<And>bid' b k p. ba_battles s bid' = Some b \<Longrightarrow> map_of (bt_players b) k = Some p \<Longrightarrow> bp_conn_id p = c \<Longrightarrow> bid' = bid"
  shows "frames_to c (snd (tick_battles s bids its)) =
    (if bid \<in> set bids
     then case ba_battles s bid of None \<Rightarrow> [] | Some b \<Rightarrow> frames_to c (tick_pushes (tick_frame b (its bid)) (its bid))
     else [])"
  using assms
proof (induction bids arbitrary: s)
  case (Cons k bids)
  show ?case
  proof (cases "ba_battles s k")
    case None
    then show ?thesis using Cons by auto
  next
    case (Some b)
    let ?s = "s\<lparr>ba_battles := (ba_battles s)(k \<mapsto> tick_frame b (its k))\<rparr>"
    have only: "bid' = bid"
      if "ba_battles ?s bid' = Some b'" "map_of (bt_players b') j = Some p" "bp_conn_id p = c" for bid' b' j p
      using that Cons.prems(2) Some tick_conns by (fastforce split: if_splits)
    have ih: "frames_to c (snd (tick_battles ?s bids its)) =
      (if bid \<in> set bids
       then case ba_battles ?s bid of None \<Rightarrow> [] | Some b \<Rightarrow> frames_to c (tick_pushes (tick_frame b (its bid)) (its bid))
       else [])"
      using Cons.IH [of ?s] only Cons.prems(1) by simp
    have other: "frames_to c (tick_pushes (tick_frame b (its k)) (its k)) = []" if "k \<noteq> bid"
      using tick_other_battle [of b c] Cons.prems(2) [OF Some] that by blast
    show ?thesis
      using Some ih other Cons.prems(1) by (auto simp: Let_def split: prod.splits)
  qed
qed simp

section \<open>Two clients in one battle\<close>

definition paired :: "nat \<Rightarrow> battle_app \<Rightarrow> u32 \<Rightarrow> u32 \<Rightarrow> u32 \<Rightarrow> u32 \<Rightarrow> u32 \<Rightarrow> nat \<Rightarrow> bool" where
  "paired n s bid a b pa pb k \<longleftrightarrow> battle_inv False n s \<and> seats_ok s \<and> a \<noteq> b \<and> pa \<noteq> pb \<and>
     ba_conn_battle s a = Some (bid, pa) \<and> ba_conn_battle s b = Some (bid, pb) \<and>
     (\<exists>bt. ba_battles s bid = Some bt \<and> bt_id bt = bid \<and> map fst (bt_players bt) = [pa, pb] \<and> bt_frame bt = word_of_nat k)"

text \<open>What may happen meanwhile: anything but a leave of the two; every beat visits the battle and its players.\<close>

fun meanwhile :: "u32 \<Rightarrow> u32 \<Rightarrow> u32 \<Rightarrow> u32 \<Rightarrow> u32 \<Rightarrow> battle_event \<Rightarrow> bool" where
  "meanwhile bid a b pa pb (BLeave c) \<longleftrightarrow> c \<noteq> a \<and> c \<noteq> b"
| "meanwhile bid a b pa pb (BTick bids_it its) \<longleftrightarrow>
     distinct bids_it \<and> bid \<in> set bids_it \<and> distinct (its bid) \<and> set (its bid) = {pa, pb}"
| "meanwhile bid a b pa pb _ \<longleftrightarrow> True"

fun is_tick :: "battle_event \<Rightarrow> bool" where
  "is_tick (BTick _ _) = True" | "is_tick _ = False"

lemma tick_keys [simp]: "map fst (bt_players (tick_frame b it)) = map fst (bt_players b)"
  by (simp add: tick_frame_def Let_def split: option.splits)

lemma tick_id [simp]: "bt_id (tick_frame b it) = bt_id b"
  by (simp add: tick_frame_def Let_def split: option.splits)

lemma two_keys: "map fst ps = [pa, pb] \<Longrightarrow> pa \<noteq> pb \<Longrightarrow> \<exists>p q. map_of ps pa = Some p \<and> map_of ps pb = Some q"
  by (auto simp: map_eq_Cons_conv)

lemma paired_players:
  assumes "paired n s bid a b pa pb k" "ba_battles s bid = Some bt"
  obtains p q where "map_of (bt_players bt) pa = Some p" "bp_conn_id p = a" "map_of (bt_players bt) pb = Some q" "bp_conn_id q = b"
proof -
  from assms have m: "map fst (bt_players bt) = [pa, pb]" "pa \<noteq> pb" "ba_conn_battle s a = Some (bid, pa)"
    "ba_conn_battle s b = Some (bid, pb)" "seats_ok s" by (auto simp: paired_def)
  from two_keys [OF m(1,2)] obtain p q where "map_of (bt_players bt) pa = Some p" "map_of (bt_players bt) pb = Some q" by blast
  moreover from this m(3-5) assms(2) have "bp_conn_id p = a" "bp_conn_id q = b" unfolding seats_ok_def by blast+
  ultimately show ?thesis using that by blast
qed

lemma meanwhile_ok: "meanwhile bid a b pa pb e \<Longrightarrow> battle_event_ok False e"
  by (cases e) simp_all

lemma step_inv: "battle_inv False n s \<Longrightarrow> battle_event_ok False e \<Longrightarrow> n < 2 ^ 32 - 2 \<Longrightarrow> battle_inv False (Suc n) (battle_step s e)"
  by (cases e) (auto intro: battle_join_inv battle_input_inv battle_leave_inv battle_tick_inv)

lemma only_battle:
  assumes "seats_ok s" "ba_conn_battle s c = Some (bid, pid)"
    and "ba_battles s bid' = Some bt" "map_of (bt_players bt) k = Some p" "bp_conn_id p = c"
  shows "bid' = bid"
  using assms unfolding seats_ok_def by fastforce

text \<open>One beat: both get the same frame, once.\<close>

lemma pair_frame:
  assumes pr: "paired n s bid a b pa pb k" and c: "c = a \<or> c = b" and bt: "ba_battles s bid = Some bt"
    and t: "distinct bids_it" "bid \<in> set bids_it" "distinct (its bid)" "set (its bid) = {pa, pb}"
  shows "frames_to c (effects_of (battle_tick s bids_it its)) = [battle_snapshot (tick_frame bt (its bid)) (its bid)]"
proof -
  let ?bt = "tick_frame bt (its bid)"
  obtain pid where pid: "ba_conn_battle s c = Some (bid, pid)" using pr c by (auto simp: paired_def)
  have s: "seats_ok s" "a \<noteq> b" "pa \<noteq> pb" using pr by (simp_all add: paired_def)
  obtain p q where pq: "map_of (bt_players bt) pa = Some p" "bp_conn_id p = a" "map_of (bt_players bt) pb = Some q" "bp_conn_id q = b"
    using paired_players [OF pr bt] by blast
  obtain p' q' where pq': "map_of (bt_players ?bt) pa = Some p'" "map_of (bt_players ?bt) pb = Some q'"
    using two_keys [of "bt_players ?bt" pa pb] pr bt by (auto simp: paired_def)
  have conns: "bp_conn_id p' = a" "bp_conn_id q' = b" using tick_conns [OF pq'(1)] tick_conns [OF pq'(2)] pq by auto
  have "its bid = [pa, pb] \<or> its bid = [pb, pa]"
  proof -
    have "length (its bid) = 2" using distinct_card [OF t(3)] t(4) s(3) by simp
    then obtain x y where "its bid = [x, y]" by (auto simp: length_Suc_conv numeral_2_eq_2)
    then show ?thesis using t(3,4) by (auto simp: doubleton_eq_iff)
  qed
  then have "frames_to c (tick_pushes ?bt (its bid)) = [battle_snapshot ?bt (its bid)]"
    using c s(2) pq' conns by (auto simp: frames_of_pushes values_of_def)
  then show ?thesis
    using tick_frames [OF t(1), of s c bid its] only_battle [OF s(1) pid] t(2) bt by (auto simp: battle_tick_def)
qed

lemma battles_kept:
  assumes pr: "paired n s bid a b pa pb k" and e: "meanwhile bid a b pa pb e" "\<not> is_tick e" and bt: "ba_battles s bid = Some bt"
    and n: "n < 2 ^ 32 - 2"
  shows "\<exists>bt'. ba_battles (battle_step s e) bid = Some bt' \<and> map fst (bt_players bt') = map fst (bt_players bt) \<and>
    bt_frame bt' = bt_frame bt \<and> bt_id bt' = bt_id bt"
    and "c = a \<or> c = b \<Longrightarrow> ba_conn_battle (battle_step s e) c = ba_conn_battle s c"
proof -
  have two: "length (bt_players bt) = 2" using pr bt by (auto simp: paired_def dest: map_eq_imp_length_eq)
  have inv: "battle_inv False n s" and st: "seats_ok s" using pr by (simp_all add: paired_def)
  have ab: "ba_conn_battle s a = Some (bid, pa)" "ba_conn_battle s b = Some (bid, pb)" using pr by (simp_all add: paired_def)
  have bid: "bid < ba_next_battle s" using inv bt by (auto simp: battle_inv_def)
  have goal: "(\<exists>bt'. ba_battles (battle_step s e) bid = Some bt' \<and> map fst (bt_players bt') = map fst (bt_players bt) \<and>
      bt_frame bt' = bt_frame bt \<and> bt_id bt' = bt_id bt) \<and> (\<forall>c. c = a \<or> c = b \<longrightarrow> ba_conn_battle (battle_step s e) c = ba_conn_battle s c)"
  proof (cases e)
    case (BJoin c' bids_it it)
    show ?thesis
    proof (cases "join_existing s c' it")
      case (Some r)
      then show ?thesis using BJoin bt by (simp add: battle_join_def)
    next
      case None
      then have "c' \<noteq> a" "c' \<noteq> b" using ab bt by (auto simp: join_existing_def)
      moreover have "find_open s bids_it \<noteq> Some bid"
      proof
        assume "find_open s bids_it = Some bid"
        then obtain b' where "ba_battles s bid = Some b'" "length (bt_players b') < 2" by (rule find_open_Some)
        with bt two show False by simp
      qed
      moreover obtain t' where "find_open s bids_it = None \<or> find_open s bids_it = Some t' \<and> ba_battles s t' \<noteq> None"
        by (metis find_open_Some not_None_eq option.exhaust)
      ultimately show ?thesis
        using BJoin None bt bid by (auto simp: battle_join_def join_enter_def Let_def)
    qed
  next
    case (BInput c' dx dy f)
    then show ?thesis using bt by (auto simp: battle_input_def battle_queue_def Let_def split: option.splits)
  next
    case (BLeave c')
    then have c': "c' \<noteq> a" "c' \<noteq> b" using e by simp_all
    show ?thesis
    proof (cases "ba_conn_battle s c'")
      case None
      then show ?thesis using BLeave bt by (simp add: battle_leave_def)
    next
      case (Some v)
      then obtain bid' pid where v: "ba_conn_battle s c' = Some (bid', pid)" by (cases v) auto
      note ls = leave_state [OF v]
      obtain p q where pq: "map_of (bt_players bt) pa = Some p" "bp_conn_id p = a" "map_of (bt_players bt) pb = Some q" "bp_conn_id q = b"
        using paired_players [OF pr bt] by blast
      have keys: "map fst (bt_players bt) = [pa, pb]" using pr bt by (auto simp: paired_def)
      have none: "pid \<notin> {pa, pb}" if "bid' = bid"
        using that v pq c' bt st unfolding seats_ok_def by blast
      have "AList.delete pid (bt_players bt) = bt_players bt" if "bid' = bid"
        using none [OF that] arg_cong [OF keys, of set] by (intro delete_id) (auto simp: image_iff)
      then have "remove_player bt pid = bt\<lparr>bt_pending := bt_pending (remove_player bt pid)\<rparr>" if "bid' = bid"
        using that by (simp add: remove_player_def)
      then show ?thesis
        using BLeave ls c' bt two by (cases "bid' = bid") (auto simp: remove_player_def split: option.splits)
    qed
  next
    case (BTick bids_it its)
    with e show ?thesis by simp
  qed
  then show "\<exists>bt'. ba_battles (battle_step s e) bid = Some bt' \<and> map fst (bt_players bt') = map fst (bt_players bt) \<and>
    bt_frame bt' = bt_frame bt \<and> bt_id bt' = bt_id bt" by blast
  from goal show "c = a \<or> c = b \<Longrightarrow> ba_conn_battle (battle_step s e) c = ba_conn_battle s c" by blast
qed

text \<open>Every step keeps the two paired; a beat gives both of them one frame, numbered one higher.\<close>

lemma tick_battle_at:
  assumes "distinct bids_it" "bid \<in> set bids_it" "ba_battles s bid = Some bt"
  shows "ba_battles (next_state (battle_tick s bids_it its)) bid = Some (tick_frame bt (its bid))"
    "ba_conn_battle (next_state (battle_tick s bids_it its)) = ba_conn_battle s"
  using assms tick_battles_frame [of s bids_it its] by (auto simp: battle_tick_def split: option.splits)

lemma paired_step:
  assumes pr: "paired n s bid a b pa pb k" and e: "meanwhile bid a b pa pb e" and n: "n < 2 ^ 32 - 2"
  shows "paired (Suc n) (battle_step s e) bid a b pa pb (k + (if is_tick e then 1 else 0))"
proof -
  obtain bt where bt: "ba_battles s bid = Some bt" "bt_id bt = bid" "map fst (bt_players bt) = [pa, pb]" "bt_frame bt = word_of_nat k"
    using pr by (auto simp: paired_def)
  have inv: "battle_inv False (Suc n) (battle_step s e)" "seats_ok (battle_step s e)"
    using pr n step_inv seats_step meanwhile_ok [OF e] by (auto simp: paired_def)
  show ?thesis
  proof (cases "is_tick e")
    case True
    then obtain bids_it its where t: "e = BTick bids_it its" by (cases e) auto
    have "ba_battles (battle_step s e) bid = Some (tick_frame bt (its bid))" "ba_conn_battle (battle_step s e) = ba_conn_battle s"
      using tick_battle_at [of bids_it bid s bt its] bt(1) e t by simp_all
    moreover have "bt_frame (tick_frame bt (its bid)) = word_of_nat (k + 1)"
      using bt(4) by simp
    ultimately show ?thesis using inv pr bt(2,3) True by (simp add: paired_def)
  next
    case False
    from battles_kept [OF pr e False bt(1) n] inv pr bt False show ?thesis by (auto simp: paired_def)
  qed
qed

lemma paired_effects:
  assumes pr: "paired n s bid a b pa pb k" and e: "meanwhile bid a b pa pb e"
  shows "\<exists>fs. frames_to a (battle_effects s e) = fs \<and> frames_to b (battle_effects s e) = fs \<and>
    map (\<lambda>f. fs_frame f) fs = (if is_tick e then [word_of_nat (k + 1)] else [])"
proof (cases "is_tick e")
  case True
  then obtain bids_it its where t: "e = BTick bids_it its" by (cases e) auto
  obtain bt where bt: "ba_battles s bid = Some bt" "bt_frame bt = word_of_nat k" using pr by (auto simp: paired_def)
  have "frames_to c (battle_effects s e) = [battle_snapshot (tick_frame bt (its bid)) (its bid)]" if "c = a \<or> c = b" for c
    using pair_frame [OF pr that bt(1), of bids_it its] e t by (simp add: battle_effects_def)
  moreover have "fs_frame (battle_snapshot (tick_frame bt (its bid)) (its bid)) = word_of_nat (k + 1)"
    using bt(2) by (simp add: battle_snapshot_def)
  ultimately show ?thesis using True by simp
next
  case False
  then show ?thesis by (cases e) (simp_all add: battle_effects_def frames_of_request)
qed

lemma paired_run:
  assumes "paired n s bid a b pa pb k" "\<And>e. e \<in> set es \<Longrightarrow> meanwhile bid a b pa pb e" "n + length es < 2 ^ 32 - 2"
  shows "paired (n + length es) (foldl battle_step s es) bid a b pa pb (k + length (filter is_tick es)) \<and>
    frames_to b (battle_log s es) = frames_to a (battle_log s es) \<and>
    map fs_frame (frames_to a (battle_log s es)) = map word_of_nat [Suc k..<Suc (k + length (filter is_tick es))]"
  using assms
proof (induction es arbitrary: n s k)
  case (Cons e es)
  have e: "meanwhile bid a b pa pb e" "n < 2 ^ 32 - 2" using Cons.prems by simp_all
  let ?k = "k + (if is_tick e then 1 else 0)"
  from paired_step [OF Cons.prems(1) e] have p: "paired (Suc n) (battle_step s e) bid a b pa pb ?k" .
  have "Suc n + length es < 2 ^ 32 - 2" using Cons.prems(3) by simp
  from Cons.IH [OF p _ this] Cons.prems(2)
  have ih: "paired (Suc n + length es) (foldl battle_step (battle_step s e) es) bid a b pa pb (?k + length (filter is_tick es))"
    "frames_to b (battle_log (battle_step s e) es) = frames_to a (battle_log (battle_step s e) es)"
    "map fs_frame (frames_to a (battle_log (battle_step s e) es)) = map word_of_nat [Suc ?k..<Suc (?k + length (filter is_tick es))]"
    by auto
  from paired_effects [OF Cons.prems(1) e(1)] obtain fs where
    fs: "frames_to a (battle_effects s e) = fs" "frames_to b (battle_effects s e) = fs"
      "map fs_frame fs = (if is_tick e then [word_of_nat (k + 1)] else [])" by auto
  let ?m = "length (filter is_tick es)"
  have upto: "[Suc k..<Suc (k + Suc ?m)] = Suc k # [Suc (Suc k)..<Suc (Suc k + ?m)]"
    by (subst upt_conv_Cons) auto
  show ?case
  proof (cases "is_tick e")
    case True
    then have "map fs_frame (frames_to a (battle_log s (e # es))) = map word_of_nat [Suc k..<Suc (k + Suc ?m)]"
      unfolding upto using ih(3) fs(1,3) by (simp del: upt_Suc)
    then show ?thesis using True ih(1,2) fs(1,2) by (simp del: upt_Suc)
  next
    case False
    then show ?thesis using ih fs by (simp del: upt_Suc)
  qed
qed simp

section \<open>The receiver\<close>

lemma u64_of_nat [simp]: "k < 2 ^ 64 \<Longrightarrow> unat (word_of_nat k :: u64) = k"
  by (simp add: unat_of_nat take_bit_nat_eq_self)

lemma receive_consecutive:
  assumes "k + m < 2 ^ 64"
  shows "\<exists>r. receive_all \<lparr>rv_frame = word_of_nat k, rv_resynced = (15 \<le> k)\<rparr> (map word_of_nat [Suc k..<Suc (k + m)]) =
    (map word_of_nat [Suc k..<Suc (k + m)], if k < 15 \<and> 15 \<le> k + m then [12] else [], r)"
  using assms
proof (induction m arbitrary: k)
  case (Suc m)
  let ?f = "word_of_nat (Suc k) :: u64"
  have u: "unat ?f = Suc k" using Suc.prems by (intro u64_of_nat) simp
  have new: "?f \<noteq> word_of_nat k"
    using u Suc.prems u64_of_nat [of k] by (metis add_lessD1 n_not_Suc_n)
  have ge: "15 \<le> ?f \<longleftrightarrow> 15 \<le> Suc k" using u by (simp add: word_le_nat_alt)
  have req: "resync_request (15 \<le> k) ?f = (if \<not> 15 \<le> k \<and> 15 \<le> Suc k then Some 12 else None)"
  proof (cases "k = 14")
    case True
    then show ?thesis by (simp add: resync_request_def saturating_sub_def)
  next
    case False
    then show ?thesis using ge by (auto simp: resync_request_def)
  qed
  have one: "receive_frame \<lparr>rv_frame = word_of_nat k, rv_resynced = (15 \<le> k)\<rparr> ?f =
      ([?f], if k < 15 \<and> 15 \<le> Suc k then [12] else [], \<lparr>rv_frame = ?f, rv_resynced = (15 \<le> Suc k)\<rparr>)"
    unfolding receive_frame_def using new req by (auto simp: Let_def)
  have "Suc k + m < 2 ^ 64" using Suc.prems by simp
  from Suc.IH [OF this] obtain r where ih: "receive_all \<lparr>rv_frame = ?f, rv_resynced = (15 \<le> Suc k)\<rparr>
      (map word_of_nat [Suc (Suc k)..<Suc (Suc k + m)]) =
      (map word_of_nat [Suc (Suc k)..<Suc (Suc k + m)], if Suc k < 15 \<and> 15 \<le> Suc k + m then [12] else [], r)" by blast
  have upto: "[Suc k..<Suc (k + Suc m)] = Suc k # [Suc (Suc k)..<Suc (Suc k + m)]"
    by (subst upt_conv_Cons) auto
  show ?case
    unfolding upto list.map receive_all.simps one using ih by (auto simp del: upt_Suc of_nat_Suc)
qed simp

section \<open>The scenario\<close>

lemma find_open_full:
  assumes "\<And>bid b. ba_battles s bid = Some b \<Longrightarrow> BATTLE_CAPACITY \<le> length (bt_players b)"
  shows "find_open s bids_it = None"
  using assms by (force simp: find_open_def find_None_iff set_entries)

lemma find_open_only:
  assumes "\<And>bid' b. ba_battles s bid' = Some b \<Longrightarrow> bid' \<noteq> bid \<Longrightarrow> BATTLE_CAPACITY \<le> length (bt_players b)"
    and "ba_battles s bid = Some b" "length (bt_players b) < BATTLE_CAPACITY" "bid \<in> set bids_it"
  shows "find_open s bids_it = Some bid"
proof -
  have "find_open s bids_it \<noteq> None"
  proof
    assume "find_open s bids_it = None"
    then have "\<not> (\<exists>e\<in>set (entries bids_it (ba_battles s)). length (bt_players (snd e)) < BATTLE_CAPACITY)"
      by (auto simp: find_open_def find_None_iff)
    moreover have "(bid, b) \<in> set (entries bids_it (ba_battles s))" using assms(2,4) by (simp add: set_entries)
    ultimately have "\<not> length (bt_players b) < BATTLE_CAPACITY" by force
    with assms(3) show False by simp
  qed
  then obtain bid' where b': "find_open s bids_it = Some bid'" by blast
  then obtain b'' where "ba_battles s bid' = Some b''" "length (bt_players b'') < 2" by (rule find_open_Some)
  with assms(1) [of bid' b''] have "bid' = bid" by (force simp: BATTLE_CAPACITY_def)
  with b' show ?thesis by simp
qed

text \<open>Two new clients, every battle full: the first opens a battle, the second takes its other place.\<close>

lemma pair_up_paired:
  assumes s: "battle_inv False n s" "seats_ok s" "n < 2 ^ 32 - 4"
    and ab: "a \<noteq> b" "ba_conn_battle s a = None" "ba_conn_battle s b = None"
    and fullb: "\<And>bid bt. ba_battles s bid = Some bt \<Longrightarrow> BATTLE_CAPACITY \<le> length (bt_players bt)"
    and found: "ba_next_battle s \<in> set bids_b"
  shows "\<exists>s'. pair_up s a b bids_a bids_b =
      Some (ba_next_battle s, ba_next_player s, ba_next_battle s, ba_next_player s + 1, s') \<and>
    paired (Suc (Suc n)) s' (ba_next_battle s) a b (ba_next_player s) (ba_next_player s + 1) 0 \<and>
    ba_next_battle s' = ba_next_battle s + 1 \<and> s' = next_state (battle_join (next_state (battle_join s a bids_a [])) b bids_b []) \<and>
    (\<forall>k. k \<noteq> ba_next_battle s \<longrightarrow> ba_battles s' k = ba_battles s k) \<and>
    (\<forall>c. c \<noteq> a \<longrightarrow> c \<noteq> b \<longrightarrow> ba_conn_battle s' c = ba_conn_battle s c)"
proof -
  let ?bid = "ba_next_battle s" and ?pa = "ba_next_player s"
  let ?s1 = "next_state (battle_join s a bids_a [])"
  let ?s2 = "next_state (battle_join ?s1 b bids_b [])"
  have fresh: "ba_battles s ?bid = None" using s(1) by (cases "ba_battles s ?bid") (auto simp: battle_inv_def)
  have ea: "join_existing s a [] = None" using ab by (simp add: join_existing_def)
  have none: "find_open s bids_a = None" using fullb by (rule find_open_full)
  let ?b1 = "battle_add_player (battle_new ?bid) \<lparr>bp_player_id = ?pa, bp_x = Fin 0, bp_y = Fin 0, bp_conn_id = a\<rparr>"
  have one: "ba_battles ?s1 = (ba_battles s)(?bid \<mapsto> ?b1)" "ba_conn_battle ?s1 = (ba_conn_battle s)(a \<mapsto> (?bid, ?pa))"
    "ba_next_player ?s1 = ?pa + 1" "ba_next_battle ?s1 = ?bid + 1"
    "\<exists>f ps. fst (battle_join s a bids_a []) = Inr (BattleJoinResp ?bid ?pa f ps)"
    using ea none by (simp_all add: battle_join_def join_enter_def Let_def join_resp_def)
  have others: "ba_battles ?s1 k = ba_battles s k" if "k \<noteq> ?bid" for k using that one(1) by simp
  have b1: "map fst (bt_players ?b1) = [?pa]" "bt_id ?b1 = ?bid" "bt_frame ?b1 = 0"
    by (simp_all add: battle_add_player_def battle_new_def Let_def)
  then have len1: "length (bt_players ?b1) = 1" by (metis length_map One_nat_def length_Cons list.size(3))
  have eb: "join_existing ?s1 b [] = None" using ab one(2) by (simp add: join_existing_def)
  have found1: "find_open ?s1 bids_b = Some ?bid"
    using fullb len1 found by (intro find_open_only [where b = ?b1]) (auto simp: one(1) BATTLE_CAPACITY_def split: if_splits)
  let ?b2 = "battle_add_player ?b1 \<lparr>bp_player_id = ?pa + 1, bp_x = Fin 0, bp_y = Fin 0, bp_conn_id = b\<rparr>"
  have two: "ba_battles ?s2 = (ba_battles ?s1)(?bid \<mapsto> ?b2)" "ba_conn_battle ?s2 = (ba_conn_battle ?s1)(b \<mapsto> (?bid, ?pa + 1))"
    "\<exists>f ps. fst (battle_join ?s1 b bids_b []) = Inr (BattleJoinResp ?bid (?pa + 1) f ps)" "ba_next_battle ?s2 = ba_next_battle ?s1"
    using eb found1 one(1,3) by (simp_all add: battle_join_def join_enter_def Let_def join_resp_def)
  have "?pa \<noteq> ?pa + 1" by simp
  then have b2: "map fst (bt_players ?b2) = [?pa, ?pa + 1]" "bt_id ?b2 = ?bid" "bt_frame ?b2 = 0"
    using b1 by (auto simp: battle_add_player_def Let_def update_keys)
  have "battle_inv False (Suc n) ?s1" "seats_ok ?s1"
    using step_inv [of n s "BJoin a bids_a []"] seats_step [OF s(2,1), of "BJoin a bids_a []"] s by simp_all
  then have "battle_inv False (Suc (Suc n)) ?s2" "seats_ok ?s2"
    using step_inv [of "Suc n" ?s1 "BJoin b bids_b []"] seats_step [of ?s1 "Suc n" "BJoin b bids_b []"] s(3) by simp_all
  then have "paired (Suc (Suc n)) ?s2 ?bid a b ?pa (?pa + 1) 0"
    using two(1,2) one(2) ab(1) b2 by (simp add: paired_def)
  moreover have "pair_up s a b bids_a bids_b = Some (?bid, ?pa, ?bid, ?pa + 1, ?s2)"
    using one(5) two(3) by (auto simp: pair_up_def ask_join_battle_def split: prod.splits)
  moreover have "ba_battles ?s2 k = ba_battles s k" if "k \<noteq> ?bid" for k using that others two(1) by simp
  moreover have "ba_conn_battle ?s2 c = ba_conn_battle s c" if "c \<noteq> a" "c \<noteq> b" for c using that two(2) one(2) by simp
  moreover have "ba_next_battle ?s2 = ?bid + 1" using one(4) two(4) by simp
  ultimately show ?thesis by blast
qed

lemma battle_run_seats:
  assumes "\<forall>e\<in>set es. battle_event_ok False e" "length es < 2 ^ 32 - 2"
  shows "seats_ok (battle_run sd nd es)"
  using assms
proof (induction es rule: rev_induct)
  case Nil
  then show ?case by (simp add: battle_run_def seats_new)
next
  case (snoc e es)
  have "battle_run sd nd (es @ [e]) = battle_step (battle_run sd nd es) e" by (simp add: battle_run_def)
  then show ?case
    using snoc seats_step [of "battle_run sd nd es" "length es" e] battle_run_inv [of es False sd nd] by simp
qed

lemma paired_resync:
  assumes "paired n s bid a b pa pb k" "k < 2 ^ 64"
  shows "\<exists>frs. battle_resync s a last_frame = Some frs \<and>
    map fs_frame frs = map word_of_nat [Suc (max (unat last_frame) (k - 30)) ..< Suc k]"
proof -
  obtain bt where bt: "ba_battles s bid = Some bt" "bt_frame bt = word_of_nat k" "ba_conn_battle s a = Some (bid, pa)" "battle_inv False n s"
    using assms(1) by (auto simp: paired_def)
  have ring: "map fst (bt_ring bt) = ring_frames k"
    using bt assms(2) by (auto simp: battle_inv_def battle_ok_def)
  have "map fs_frame (resync bt last_frame) = filter (\<lambda>f. last_frame < f) (map fst (bt_ring bt))"
    by (simp add: resync_def filter_map comp_def case_prod_unfold)
  also have "\<dots> = map word_of_nat [Suc (max (unat last_frame) (k - 30)) ..< Suc k]"
    unfolding ring using assms(2) by (intro filter_ring_frames) simp
  finally show ?thesis using bt(1,3) by (simp add: battle_resync_def)
qed



end
