(* ===== verification/BattleChannels.thy ===== *)
theory BattleChannels
  imports BattleScenario SimMain UdpPath
begin

text \<open>
  The datagram channels of the battle scenarios of \<open>grimoire-sim\<close>: which gateway each client binds its channel
  to (\<open>battle_udp_demo\<close>, \<open>battle_kcp_demo\<close>, \<open>UdpBattle::bind\<close>), what the loops make of what they receive,
  and the stress test (\<open>battle_stress_demo\<close>) up to its report.

  \<^item> The gateways are a map from their UDP addresses to their states; a datagram that arrives is read and its task run.
\<close>

section \<open>Binding\<close>

definition udp_binds :: "sim_args \<Rightarrow> string \<times> string" where
  "udp_binds args = (sm_udp_gateway args, sm_udp_gateway args)"

definition kcp_binds :: "sim_args \<Rightarrow> string \<times> string" where
  "kcp_binds args = (sm_udp_gateway args, sm_udp_gateway_b args)"

definition udp_bind :: "string \<Rightarrow> u32 \<Rightarrow> string \<times> bytes" where
  "udp_bind gateway_udp conn_id = (gateway_udp, udp_bind_packet conn_id)"

type_synonym 'k net = "string \<Rightarrow> 'k kcp_sys"

definition arrive :: "'k kcp_lib \<Rightarrow> kcp_cfg \<Rightarrow> gw_env \<Rightarrow> sock_addr \<Rightarrow> string \<times> bytes \<Rightarrow> 'k net \<Rightarrow> 'k net" where
  "arrive lib cfg env src p net =
     (case p of (addr, dgram) \<Rightarrow>
        net(addr := kcp_run lib cfg (net addr) [KDatagram src dgram, KRun (length (ks_tasks (net addr))) False env]))"

definition udp_demo_binds :: "'k kcp_lib \<Rightarrow> kcp_cfg \<Rightarrow> gw_env \<Rightarrow> gw_env \<Rightarrow> sim_args \<Rightarrow> sock_addr \<times> u32 \<Rightarrow> sock_addr \<times> u32 \<Rightarrow>
    'k net \<Rightarrow> 'k net" where
  "udp_demo_binds lib cfg env env' args a b net =
     arrive lib cfg env' (fst b) (udp_bind (snd (udp_binds args)) (snd b))
       (arrive lib cfg env (fst a) (udp_bind (fst (udp_binds args)) (snd a)) net)"

section \<open>Receiving\<close>

text \<open>A frame is printed when its number is not that of the last one.\<close>

definition frame_line :: "string \<Rightarrow> u64 \<Rightarrow> battle_player list \<Rightarrow> string" where
  "frame_line kind frame ps = ''['' @ kind @ ''] frame#'' @ show_base 10 (unat frame) @ '': '' @ fmt_battle ps"

definition hear :: "push_decoders \<Rightarrow> string \<Rightarrow> u64 \<Rightarrow> (u32 \<times> u32 \<times> bytes) option \<Rightarrow> string list \<times> u64" where
  "hear pd kind prev r =
     (case r of
        Some (_, _, payload) \<Rightarrow>
          (case pd_frame pd payload of
             Inr (frame, ps) \<Rightarrow> if frame \<noteq> prev then ([frame_line kind frame ps], frame) else ([], prev)
           | Inl _ \<Rightarrow> ([], prev))
      | None \<Rightarrow> ([], prev))"

text \<open>The loop of the UDP scenario over the datagrams of the two sockets (\<open>True\<close> for A's), until the deadline.\<close>

fun udp_loop :: "push_decoders \<Rightarrow> u64 \<times> u64 \<Rightarrow> (bool \<times> bytes) list \<Rightarrow> string list" where
  "udp_loop pd prev [] = []"
| "udp_loop pd (fa, fb) ((at_a, dgram) # rs) =
     (if at_a
      then (case hear pd ''UDP A'' fa (udp_recv_push dgram) of (ls, fa') \<Rightarrow> ls @ udp_loop pd (fa', fb) rs)
      else (case hear pd ''UDP B'' fb (udp_recv_push dgram) of (ls, fb') \<Rightarrow> ls @ udp_loop pd (fa, fb') rs))"

text \<open>The KCP scenario compares A's prediction with the frame, and asks for a resynchronisation.\<close>

definition kcp_line :: "u32 \<Rightarrow> f32 \<times> f32 \<Rightarrow> u64 \<Rightarrow> battle_player list \<Rightarrow> string" where
  "kcp_line a_pid pred frame ps =
     (case find (\<lambda>x. vp_player_id x = a_pid) ps of
        Some ap \<Rightarrow> ''[KCP A] frame#'' @ show_base 10 (unat frame) @ '' pred=('' @ fmt_f32 (fst pred) @ '','' @ fmt_f32 (snd pred)
          @ '') auth=('' @ fmt_f32 (vp_x ap) @ '','' @ fmt_f32 (vp_y ap) @ '')''
      | None \<Rightarrow> frame_line ''KCP A'' frame ps)"

definition hear_kcp :: "push_decoders \<Rightarrow> u32 \<Rightarrow> f32 \<times> f32 \<Rightarrow> receiver \<Rightarrow> (u32 \<times> u32 \<times> bytes) option \<Rightarrow>
    string list \<times> u64 list \<times> receiver" where
  "hear_kcp pd a_pid pred rv r =
     (case r of
        Some (_, _, payload) \<Rightarrow>
          (case pd_frame pd payload of
             Inr (frame, ps) \<Rightarrow>
               (case receive_frame rv frame of
                  (shown, reqs, rv') \<Rightarrow> (if shown = [] then [] else [kcp_line a_pid pred frame ps], reqs, rv'))
           | Inl _ \<Rightarrow> ([], [], rv))
      | None \<Rightarrow> ([], [], rv))"

text \<open>The events of that loop: a message out of A's conversation, with the prediction at that time, or out of B's.\<close>

datatype kcp_heard = AtA "f32 \<times> f32" bytes | AtB bytes

fun kcp_loop :: "push_decoders \<Rightarrow> u32 \<Rightarrow> receiver \<times> u64 \<Rightarrow> kcp_heard list \<Rightarrow> string list \<times> u64 list" where
  "kcp_loop pd a_pid st [] = ([], [])"
| "kcp_loop pd a_pid (rv, fb) (AtA pred pkt # rs) =
     (case hear_kcp pd a_pid pred rv (kcp_recv_push pkt) of
        (ls, reqs, rv') \<Rightarrow> (case kcp_loop pd a_pid (rv', fb) rs of (ls', reqs') \<Rightarrow> (ls @ ls', reqs @ reqs')))"
| "kcp_loop pd a_pid (rv, fb) (AtB pkt # rs) =
     (case hear pd ''KCP B'' fb (kcp_recv_push pkt) of
        (ls, fb') \<Rightarrow> (case kcp_loop pd a_pid (rv, fb') rs of (ls', reqs') \<Rightarrow> (ls @ ls', reqs')))"

text \<open>Whatever arrives, the scenario asks at most once.\<close>

lemma hear_kcp_requests:
  assumes "hear_kcp pd a_pid pred rv r = (ls, reqs, rv')"
  shows "rv_resynced rv \<Longrightarrow> reqs = [] \<and> rv_resynced rv'" "length reqs \<le> 1" "reqs \<noteq> [] \<Longrightarrow> rv_resynced rv'"
  using assms
  by (auto simp: hear_kcp_def receive_frame_def resync_request_def Let_def split: option.splits sum.splits prod.splits if_splits)

lemma kcp_loop_asks_once:
  "kcp_loop pd a_pid (rv, fb) rs = (ls, reqs) \<Longrightarrow> length reqs \<le> (if rv_resynced rv then 0 else 1)"
proof (induction pd a_pid "(rv, fb)" rs arbitrary: rv fb ls reqs rule: kcp_loop.induct)
  case (2 pd a_pid rv fb pred pkt rs)
  obtain l q rv' where h: "hear_kcp pd a_pid pred rv (kcp_recv_push pkt) = (l, q, rv')" by (metis prod_cases3)
  obtain l' q' where k: "kcp_loop pd a_pid (rv', fb) rs = (l', q')" by force
  from 2(1) [OF h [symmetric] refl k] 2(2) h k hear_kcp_requests [OF h]
  show ?case by (cases "q = []") (auto split: if_splits)
next
  case (3 pd a_pid rv fb pkt rs)
  then show ?case by (fastforce split: prod.splits)
qed simp

section \<open>The second client of the UDP scenario\<close>

lemma bind_packet_small: "length (udp_bind_packet c) \<le> MAX_DATAGRAM * 2"
  by (simp add: udp_bind_packet_def peer_packet_def udp_consts be_bytes_def)

lemma set_same_gw [simp]: "set_gw s (ks_gw s) = s"
  by (simp add: set_gw_def ks_gw_def)

text \<open>A packet for a connection the gateway does not have changes nothing.\<close>

lemma stray_bind:
  assumes "gw_sessions (ks_gw s) c = None"
  shows "kcp_run lib cfg s [KDatagram src (udp_bind_packet c), KRun (length (ks_tasks s)) False env] = s"
proof -
  have raw: "classify_datagram (take (MAX_DATAGRAM * 2) (udp_bind_packet c)) = RawUdp"
    using udp_input_classified [of c "[]"] bind_packet_small [of c] by (simp add: udp_bind_packet_def udp_input_packet_def)
  have "handle_packet env (ks_gw s) src (take (MAX_DATAGRAM * 2) (udp_bind_packet c)) = (Inr (), ks_gw s, [])"
    using assms bind_packet_small [of c] by (simp add: handle_packet_def udp_bind_packet_def parse_peer_peer)
  from datagram_task_run [OF raw this] show ?thesis by simp
qed

lemma own_sessions:
  assumes "s = kcp_run lib cfg (kcp_start gid secret has_dir none) es" "gateway_id_of c \<noteq> gid"
  shows "gw_sessions (ks_gw s) c = None"
proof -
  have st: "own_numbers (ks_gw (kcp_start gid secret has_dir none))" "gw_id (ks_gw (kcp_start gid secret has_dir none)) = gid"
    by (simp_all add: own_numbers_def)
  from kcp_run_stray [OF st(1), of c lib cfg es] assms st(2) have "own_numbers (ks_gw s)" "gw_id (ks_gw s) = gid" by simp_all
  with assms(2) show ?thesis by (auto simp: own_numbers_def)
qed

lemma push_without_channel:
  assumes "gw_sessions (ks_gw s) c = Some a" "so_udp (gw_objs (ks_gw s) a) = None" "gw_kcp (ks_gw s) (so_conn_id (gw_objs (ks_gw s) a)) = None"
  shows "snd (snd (kcp_push lib s up \<lparr>pq_conn_id = c, pq_msg_id = m, pq_payload = p, pq_udp = True\<rparr>)) =
    map Sent (snd (session_send (ks_gw s) a (push_frame m p)))"
  using assms by (simp add: kcp_push_def route_push_def push_msg_def send_kcp_def send_udp_def Let_def split: prod.splits)

text \<open>
  C25: In the UDP scenario the second client gets no UDP channel when it is on another gateway.  The
  scenario sends its first packet to the first client's gateway, where no connection has its
  number: the packet changes nothing there, the state of its own gateway is as before, and as long as nothing else
  gives the connection a channel, every frame for it is sent over TCP.
\<close>

theorem udp_demo_second_client_on_tcp:
  assumes gws: "\<And>addr. net addr = kcp_run lib cfg (kcp_start (gid addr) secret dir none) (es addr)"
    and b: "gateway_id_of b \<noteq> gid (sm_udp_gateway args)" "gateway_id_of b = gid own"
    and net': "net' = udp_demo_binds lib cfg env env' args (src_a, a) (src_b, b) net"
    and at: "gw_sessions (ks_gw (net own)) b = Some k" "so_conn_id (gw_objs (ks_gw (net own)) k) = b"
      "so_udp (gw_objs (ks_gw (net own)) k) = None" "gw_kcp (ks_gw (net own)) b = None"
  shows "net' own = net own \<and> net' = arrive lib cfg env src_a (udp_bind (sm_udp_gateway args) a) net \<and>
    snd (snd (kcp_push lib (net' own) up \<lparr>pq_conn_id = b, pq_msg_id = m, pq_payload = p, pq_udp = True\<rparr>)) =
      map Sent (snd (session_send (ks_gw (net own)) k (push_frame m p)))"
proof -
  let ?g = "sm_udp_gateway args"
  let ?one = "arrive lib cfg env src_a (udp_bind ?g a) net"
  have "?one ?g = kcp_run lib cfg (kcp_start (gid ?g) secret dir none)
      (es ?g @ [KDatagram src_a (udp_bind_packet a), KRun (length (ks_tasks (net ?g))) False env])"
    using gws by (simp add: arrive_def udp_bind_def)
  from own_sessions [OF this b(1)] have "gw_sessions (ks_gw (?one ?g)) b = None" .
  from stray_bind [OF this, of lib cfg src_b env'] have same: "net' = ?one"
    by (simp add: net' udp_demo_binds_def udp_binds_def udp_bind_def arrive_def [of lib cfg env'] fun_upd_idem)
  have "own \<noteq> ?g" using b by auto
  then have own: "net' own = net own" by (simp add: same arrive_def udp_bind_def)
  show ?thesis using own same push_without_channel [of "net own" b k lib up m p] at by simp
qed

theorem udp_demo_second_client_on_tcp_witness:
  "\<exists>net net' :: (bytes list \<times> bytes list) net.
    net' = udp_demo_binds demo_kcp demo_cfg demo_env demo_env sim_args_default (''a:1'', 0x01000000) (''b:1'', 0x02000000) net \<and>
    net' ''127.0.0.1:9021'' = net ''127.0.0.1:9021'' \<and>
    snd (snd (kcp_push demo_kcp (net' ''127.0.0.1:9021'') True
      \<lparr>pq_conn_id = 0x02000000, pq_msg_id = BATTLE_FRAME_SYNC, pq_payload = [7], pq_udp = True\<rparr>)) =
      [Sent (ToClient 0 (push_frame BATTLE_FRAME_SYNC [7]))]"
proof -
  let ?gid = "\<lambda>addr. if addr = ''127.0.0.1:9020'' then 1 else (2 :: u8)"
  let ?net = "\<lambda>addr. kcp_run demo_kcp demo_cfg (kcp_start (?gid addr) [] False demo_none) [KGateway GAccept]"
  let ?own = "''127.0.0.1:9021''"
  have c: "conn_make 2 0 = 0x02000000" by (simp add: conn_make_def GATEWAY_ID_SHIFT_def LOCAL_MASK_def)
  have g: "gateway_id_of 0x02000000 = 2" by (simp add: gateway_id_of_def GATEWAY_ID_SHIFT_def)
  have gs: "gw_sessions (ks_gw (?net ?own)) 0x02000000 = Some 0" "so_conn_id (gw_objs (ks_gw (?net ?own)) 0) = 0x02000000"
    "so_udp (gw_objs (ks_gw (?net ?own)) 0) = None" "gw_kcp (ks_gw (?net ?own)) 0x02000000 = None"
    "snd (session_send (ks_gw (?net ?own)) 0 f) = [ToClient 0 f]" for f
    by (simp_all add: plain_event_def ks_gw_def kcp_start_def gw_start_def gw_simps c case_prod_beta)
  have u: "sm_udp_gateway sim_args_default = ''127.0.0.1:9020''" by (simp add: sim_args_default_def)
  have b: "gateway_id_of 0x02000000 \<noteq> ?gid (sm_udp_gateway sim_args_default)" "gateway_id_of 0x02000000 = ?gid ?own"
    by (simp_all add: g u)
  note all = udp_demo_second_client_on_tcp [where net = ?net and gid = ?gid and es = "\<lambda>_. [KGateway GAccept]" and own = ?own
      and a = "0x01000000" and src_a = "''a:1''" and src_b = "''b:1''" and up = True and m = BATTLE_FRAME_SYNC and p = "[7]"
      and env = demo_env and env' = demo_env, OF refl b refl gs(1-4)]
  show ?thesis
  proof (rule exI [of _ ?net], rule exI, intro conjI)
    show "udp_demo_binds demo_kcp demo_cfg demo_env demo_env sim_args_default (''a:1'', 0x01000000) (''b:1'', 0x02000000) ?net ?own = ?net ?own"
      by (rule conjunct1 [OF all])
    show "snd (snd (kcp_push demo_kcp
        (udp_demo_binds demo_kcp demo_cfg demo_env demo_env sim_args_default (''a:1'', 0x01000000) (''b:1'', 0x02000000) ?net ?own) True
        \<lparr>pq_conn_id = 0x02000000, pq_msg_id = BATTLE_FRAME_SYNC, pq_payload = [7], pq_udp = True\<rparr>)) =
      [Sent (ToClient 0 (push_frame BATTLE_FRAME_SYNC [7]))]"
      using conjunct2 [OF conjunct2 [OF all]] unfolding gs(5) by (simp only: list.map)
  qed (rule refl)
qed

text \<open>
  The KCP scenario binds its second client to \<open>--udp-gateway-b\<close>.  Left at its default, that is the first
  client's gateway: the first packet opens a conversation there under a number the gateway never gives out, so that
  it is never removed.
\<close>

lemma kcp_bind_strays:
  assumes "s = kcp_run lib cfg (kcp_start gid secret dir none) es" "gateway_id_of b \<noteq> gid"
    and "classify_datagram (take (MAX_DATAGRAM * 2) dg) = KcpPacket b"
    and "s' = kcp_run lib cfg s ([KDatagram src dg, KRun (length (ks_tasks s)) late env] @ fs)"
  shows "\<exists>k. gw_kcp (ks_gw s') b = Some k \<and> drives s' b k"
proof -
  let ?two = "[KDatagram src dg, KRun (length (ks_tasks s)) late env]"
  have "kcp_run lib cfg s ?two = kcp_datagram lib cfg late s b src (take (MAX_DATAGRAM * 2) dg)"
    using assms(3) by (simp add: udp_reader_def Let_def run_task_def remove_nth_def nth_append)
  moreover have "gw_kcp (ks_gw (kcp_datagram lib cfg late s b src (take (MAX_DATAGRAM * 2) dg))) b \<noteq> None"
  proof (rule kcp_datagram_cases [of s b late lib cfg src "take (MAX_DATAGRAM * 2) dg"])
    fix k assume "gw_kcp (ks_gw s) b = Some k"
      "kcp_datagram lib cfg late s b src (take (MAX_DATAGRAM * 2) dg) = s\<lparr>ks_objs := (ks_objs s)(k := input_packet lib (ks_objs s k) (take (MAX_DATAGRAM * 2) dg))\<rparr>"
    then show ?thesis by simp
  next
    fix a t assume o: "open_conv lib cfg s b src = (a, t)"
      and "kcp_datagram lib cfg late s b src (take (MAX_DATAGRAM * 2) dg) = t\<lparr>ks_objs := (ks_objs t)(a := input_packet lib (ks_objs t a) (take (MAX_DATAGRAM * 2) dg))\<rparr>"
    with open_conv_parts [OF o] show ?thesis by simp
  qed
  ultimately have k: "gw_kcp (ks_gw (kcp_run lib cfg s ?two)) b \<noteq> None" by simp
  have run: "kcp_run lib cfg s ?two = kcp_run lib cfg (kcp_start gid secret dir none) (es @ ?two)" by (simp add: assms(1))
  from stray_conversation_stays [OF run assms(2) k, of s' fs] assms(4) show ?thesis by simp
qed

section \<open>The stress test\<close>

text \<open>The clients alternate between the two gateways; the first that cannot connect ends the test.\<close>

definition stress_gateway :: "sim_args \<Rightarrow> nat \<Rightarrow> string" where
  "stress_gateway args i = (if i mod 2 = 0 then sm_gateway args else sm_gateway_b args)"

definition stress_udp :: "sim_args \<Rightarrow> nat \<Rightarrow> string" where
  "stress_udp args i = (if i mod 2 = 0 then sm_udp_gateway args else sm_udp_gateway_b args)"

fun stress_connects :: "(nat \<Rightarrow> bytes + 'c) \<Rightarrow> nat list \<Rightarrow> (nat \<times> bytes) + 'c list" where
  "stress_connects conn [] = Inr []"
| "stress_connects conn (i # is) =
     (case conn i of Inl e \<Rightarrow> Inl (i, e) | Inr c \<Rightarrow> map_sum id ((#) c) (stress_connects conn is))"

definition stress_start :: "dial \<Rightarrow> (frame \<Rightarrow> answer) \<Rightarrow> sim_args \<Rightarrow> (nat \<times> bytes) + client list" where
  "stress_start dial reply args =
     stress_connects (\<lambda>i. fst (sim_connect dial reply args (stress_gateway args i) (of_nat i))) [0..<stress_clients (sm_clients args)]"

text \<open>Everybody joins, in order, and is bound to its battle; a client that gets no answer is left out.\<close>

fun stress_joins :: "battle_app \<Rightarrow> (u32 \<times> u32 list) list \<Rightarrow> u32 option list \<times> battle_app" where
  "stress_joins app [] = ([], app)"
| "stress_joins app ((c, bids_it) # cs) =
     (case stress_joins (next_state (battle_join app c bids_it [])) cs of
        (rs, app') \<Rightarrow> (map_option fst (ask_join_battle app c bids_it []) # rs, app'))"

text \<open>The mean time between frames in the report; \<open>None\<close> when the number of frames, cut to 32 bits, is zero.\<close>

definition stress_mean :: "nat \<Rightarrow> u64 \<Rightarrow> nat option" where
  "stress_mean total_lat total_frames =
     (let d = ucast (max total_frames 1) :: u32 in if d = 0 then None else Some (total_lat div unat d))"

lemma stress_connects_all:
  assumes "\<And>i. i \<in> set is \<Longrightarrow> conn i = Inr (c i)"
  shows "stress_connects conn is = Inr (map c is)"
  using assms by (induction "is") simp_all

lemma stress_connects_first:
  assumes "stress_connects conn is = Inl (i, e)"
  shows "\<exists>before after. is = before @ i # after \<and> conn i = Inl e \<and> (\<forall>j\<in>set before. \<exists>c. conn j = Inr c)"
  using assms
proof (induction "is")
  case (Cons j "is")
  show ?case
  proof (cases "conn j")
    case (Inl a)
    then show ?thesis using Cons.prems by (intro exI [of _ "[]"] exI [of _ "is"]) auto
  next
    case (Inr c)
    then have "stress_connects conn is = Inl (i, e)" using Cons.prems by (cases "stress_connects conn is") auto
    from Cons.IH [OF this] obtain before after where
      "is = before @ i # after" "conn i = Inl e" "\<forall>j\<in>set before. \<exists>c. conn j = Inr c" by blast
    then show ?thesis using Inr by (intro exI [of _ "j # before"] exI [of _ after]) auto
  qed
qed simp

text \<open>Two clients that join one after the other are a pair of \<open>pair_up\<close>.\<close>

lemma stress_joins_two:
  assumes "pair_up s a b oa ob = Some (x, pa, y, pb, s')"
    and "s' = next_state (battle_join (next_state (battle_join s a oa [])) b ob [])"
  shows "stress_joins s ((a, oa) # (b, ob) # cs) = (case stress_joins s' cs of (rs, s'') \<Rightarrow> (Some x # Some y # rs, s''))"
proof -
  obtain s1 where one: "ask_join_battle s a oa [] = Some (x, pa, s1)" "ask_join_battle s1 b ob [] = Some (y, pb, s')"
    using assms(1) by (auto simp: pair_up_def bind_eq_Some_conv)
  then have "s1 = next_state (battle_join s a oa [])"
    by (simp add: ask_join_battle_def split: sum.splits prod.splits battle_resp.splits)
  then show ?thesis using one assms(2) by (simp add: case_prod_beta)
qed

definition all_full :: "battle_app \<Rightarrow> bool" where
  "all_full s \<longleftrightarrow> (\<forall>bt\<in>ran (ba_battles s). length (bt_players bt) = BATTLE_CAPACITY)"

lemma stress_fills:
  assumes "even (length cs)" "battle_inv False n s" "seats_ok s" "n + length cs < 2 ^ 32 - 4"
    and "distinct (map fst cs)" "\<And>c. c \<in> fst ` set cs \<Longrightarrow> ba_conn_battle s c = None" "all_full s"
    and "\<And>i. i < length cs \<Longrightarrow> odd i \<Longrightarrow> ba_next_battle s + word_of_nat (i div 2) \<in> set (snd (cs ! i))"
  shows "fst (stress_joins s cs) = map (\<lambda>i. Some (ba_next_battle s + word_of_nat (i div 2))) [0..<length cs] \<and>
    all_full (snd (stress_joins s cs))"
  using assms
proof (induction "length cs" arbitrary: cs n s rule: less_induct)
  case less
  show ?case
  proof (cases cs)
    case Nil
    then show ?thesis using less.prems by simp
  next
    case (Cons x1 cs1)
    then obtain x2 cs' where cs: "cs = x1 # x2 # cs'" using less.prems(1) by (cases cs1) auto
    obtain a oa b ob where x: "x1 = (a, oa)" "x2 = (b, ob)" by (cases x1, cases x2) auto
    have ab: "a \<noteq> b" "ba_conn_battle s a = None" "ba_conn_battle s b = None" "n < 2 ^ 32 - 4"
      using less.prems(4-6) cs x by auto
    have found: "ba_next_battle s \<in> set ob" using less.prems(8) [of 1] cs x by simp
    have fullb: "BATTLE_CAPACITY \<le> length (bt_players bt)" if "ba_battles s bid = Some bt" for bid bt
      using less.prems(7) that by (force simp: all_full_def intro: ranI)
    from pair_up_paired [OF less.prems(2,3) ab(4,1-3) _ found, of oa] fullb obtain s' where
      p: "pair_up s a b oa ob = Some (ba_next_battle s, ba_next_player s, ba_next_battle s, ba_next_player s + 1, s')"
      and pr: "paired (Suc (Suc n)) s' (ba_next_battle s) a b (ba_next_player s) (ba_next_player s + 1) 0"
      and s': "ba_next_battle s' = ba_next_battle s + 1"
        "s' = next_state (battle_join (next_state (battle_join s a oa [])) b ob [])"
        "\<And>k. k \<noteq> ba_next_battle s \<Longrightarrow> ba_battles s' k = ba_battles s k"
        "\<And>c. c \<noteq> a \<Longrightarrow> c \<noteq> b \<Longrightarrow> ba_conn_battle s' c = ba_conn_battle s c" by blast
    have "length (bt_players bt) = BATTLE_CAPACITY" if bt: "ba_battles s' bid = Some bt" for bid bt
    proof (cases "bid = ba_next_battle s")
      case True
      then have "length (map fst (bt_players bt)) = 2" using pr bt by (auto simp: paired_def)
      then show ?thesis by (simp add: BATTLE_CAPACITY_def)
    next
      case False
      then show ?thesis using s'(3) bt less.prems(7) by (force simp: all_full_def intro: ranI)
    qed
    then have af: "all_full s'" by (auto simp: all_full_def ran_def)
    have inv: "battle_inv False (Suc (Suc n)) s'" "seats_ok s'" using pr by (simp_all add: paired_def)
    have i: "ba_next_battle s' + word_of_nat (i div 2) \<in> set (snd (cs' ! i))" if "i < length cs'" "odd i" for i
      using less.prems(8) [of "Suc (Suc i)"] that cs s'(1) by (simp add: ac_simps)
    have free: "ba_conn_battle s' c = None" if "c \<in> fst ` set cs'" for c
      using that less.prems(5,6) cs x s'(4) by (cases "c = a"; cases "c = b") auto
    have ih: "fst (stress_joins s' cs') = map (\<lambda>i. Some (ba_next_battle s' + word_of_nat (i div 2))) [0..<length cs'] \<and>
        all_full (snd (stress_joins s' cs'))"
      by (rule less.hyps [OF _ _ inv]) (use less.prems(1,4,5) cs i free af in auto)
    have "map f [0..<Suc (Suc m)] = f 0 # f 1 # map (\<lambda>i. f (Suc (Suc i))) [0..<m]" for f :: "nat \<Rightarrow> u32 option" and m
      by (simp add: upt_conv_Cons map_Suc_upt [symmetric] comp_def del: upt_Suc)
    then show ?thesis
      using ih stress_joins_two [OF p s'(2), of cs'] s'(1)
      by (simp add: cs x case_prod_beta ac_simps del: upt_Suc)
  qed
qed

text \<open>
  The stress test fills battles two by two.  However many clients are asked for, and whatever the service did
  before, as long as its battles are full and the clients are new: every client is in a battle, the clients \<open>2 j\<close>
  and \<open>2 j + 1\<close>, which are on different gateways, are in the same new battle, and at the end all battles are full.
\<close>

lemma stress_fills_battles:
  assumes "\<forall>e\<in>set es. battle_event_ok False e" "s = battle_run sd nd es"
    and "length cs = stress_clients clients" "length es + length cs < 2 ^ 32 - 4"
    and "distinct (map fst cs)" "\<forall>c\<in>fst ` set cs. ba_conn_battle s c = None" "all_full s"
    and "\<forall>i<length cs. odd i \<longrightarrow> ba_next_battle s + word_of_nat (i div 2) \<in> set (snd (cs ! i))"
  shows "fst (stress_joins s cs) = map (\<lambda>i. Some (ba_next_battle s + word_of_nat (i div 2))) [0..<length cs] \<and>
    all_full (snd (stress_joins s cs))"
proof -
  have "even (stress_clients clients)" by (simp add: stress_clients_def Let_def minus_mod_eq_mult_div)
  moreover have "battle_inv False (length es) s" "seats_ok s"
    using battle_run_inv [of es False sd nd] battle_run_seats [of es sd nd] assms(1,2,4) by simp_all
  ultimately show ?thesis
    using stress_fills [of cs "length es" s] assms(3-8) by simp
qed

lemma stress_fills_battles_witness:
  "fst (stress_joins (battle_run False [] []) [(5, []), (6, [1]), (7, []), (8, [2, 1])]) = [Some 1, Some 1, Some 2, Some 2] \<and>
   all_full (snd (stress_joins (battle_run False [] []) [(5, []), (6, [1]), (7, []), (8, [2, 1])]))"
proof -
  let ?cs = "[(5, []), (6, [1]), (7, []), (8, [2, 1])] :: (u32 \<times> u32 list) list"
  let ?s = "battle_run False [] []"
  have new: "ba_conn_battle ?s = Map.empty" "ba_battles ?s = Map.empty" "ba_next_battle ?s = 1"
    by (simp_all add: battle_run_def battle_app_new_def)
  have c: "length ?cs = stress_clients 5" by (simp add: stress_clients_def)
  have i: "\<forall>i<length ?cs. odd i \<longrightarrow> ba_next_battle ?s + word_of_nat (i div 2) \<in> set (snd (?cs ! i))"
  proof (intro allI impI)
    fix i assume "i < length ?cs" "odd i"
    then have "i = 1 \<or> i = 3" by (auto simp: less_Suc_eq)
    then show "ba_next_battle ?s + word_of_nat (i div 2) \<in> set (snd (?cs ! i))" by (auto simp: new)
  qed
  have "all_full ?s" by (simp add: all_full_def new)
  from stress_fills_battles [OF _ refl c _ _ _ this i] show ?thesis by (simp add: new upt_rec)
qed

end
