(* ===== verification/Spec2Isabelle.thy ===== *)
theory Spec2Isabelle
  imports Card_Props Net Room_Props Battle_Props Registrar Discovery_Props SessionDir Pusher Streams
    Gateway_Routing Etcd_Props EndToEnd PushPath UdpPath Scenario_Props Migration RoomScenario
    Connection Startup SimMain BattleScenario BattleChannels
begin

text \<open>
  Verification library of the game server of this repository, a Rust workspace under
  \<open>src/crates\<close>.

  \<^bold>\<open>The program.\<close>  Clients connect over TCP, UDP or KCP to a \<open>grimoire-gateway\<close>.  The gateway gives
  every connection a number (its own identity in the high 8 bits), reads frames, and forwards each
  request over a shared bridge stream to a node of the game service that the message number names:
  \<open>grimoire-room-svc\<close> (the lobby), \<open>grimoire-battle-svc\<close> (lock-step battles), \<open>grimoire-card-svc\<close>
  (card duels).  Nodes are found through \<open>grimoire-registry\<close>, where every process renews a lease;
  the gateway picks one by a hash ring, or by the session directory in Redis when the connection is
  bound to a session.  Services send pushes back through the gateway that the connection number
  names (\<open>grimoire-svcfw\<close>).

  \<^bold>\<open>The theories.\<close>
  \<^item> \<open>Prelude\<close>: iteration over hash maps, lists and options, updates of maps, decimal and hexadecimal
    text, bytes, and the results of a task (a panic or a value).  \<open>F32\<close>: IEEE single precision as
    far as the battle uses it (sum, product, quotient, square root, comparison, with infinities and NaN).
  \<^item> \<open>Common\<close> (\<open>grimoire-common/src/lib.rs\<close>): message numbers, domains, connection numbers.
  \<^item> \<open>Net\<close> (\<open>grimoire-net/src/lib.rs\<close>): \<open>encode\<close> and \<open>decode\<close> of TCP frames, the UDP packets.
  \<^item> \<open>SvcFw\<close>: the request and reply messages and the request loop that all game services have;
    the effects of a service (pushes, calls of the directory and of the profile store).
  \<^item> \<open>Card\<close>, \<open>Card_Safety\<close>, \<open>Card_Props\<close> (\<open>grimoire-card-svc/src/main.rs\<close>): \<open>card_app\<close> is the state;
    \<open>card_start\<close>, \<open>card_play\<close>, \<open>card_end_turn\<close>, \<open>card_state\<close> and \<open>card_leave\<close> are the handlers.
  \<^item> \<open>Room\<close>, \<open>Room_Safety\<close>, \<open>Room_Props\<close> (\<open>grimoire-room-svc/src/main.rs\<close>): \<open>room_app\<close>, the handlers
    under \<open>room_process\<close>, and the clean-up tasks with their clock (\<open>room_sys\<close>, \<open>room_step\<close>).
  \<^item> \<open>Battle\<close>, \<open>Battle_Safety\<close>, \<open>Battle_Props\<close> (\<open>grimoire-battle-svc/src/main.rs\<close>): \<open>battle\<close> is one
    battle with its queue of inputs and ring of frames, \<open>tick_frame\<close> its beat, \<open>battle_app\<close> the service.
  \<^item> \<open>Registry\<close>, \<open>Registry_Props\<close> (\<open>grimoire-registry/src/main.rs\<close>, \<open>memory_backend.rs\<close>): the table of
    leases and its sweeper.  \<open>Etcd\<close>, \<open>Etcd_Props\<close> (\<open>etcd_backend.rs\<close>): the same service on etcd, with
    its keepers.  \<open>Registrar\<close> (\<open>grimoire-svcfw/src/reg.rs\<close>): \<open>register_and_heartbeat\<close>.
  \<^item> \<open>SessionDir\<close> (\<open>grimoire-svcfw/src/session_dir.rs\<close>): the Redis commands of the directory.
    \<open>Profile\<close>, \<open>Profile_Props\<close> (\<open>profile.rs\<close>): the profile store, a Redis cache before a table.
  \<^item> \<open>Pusher\<close> (\<open>grimoire-svcfw/src/pusher.rs\<close>): how a service finds and feeds a gateway.
  \<^item> \<open>Discovery\<close>, \<open>Discovery_Props\<close> (\<open>grimoire-gateway/src/discovery.rs\<close>): the hash ring with its
    binary search, the cache of nodes, the channel pools.
  \<^item> \<open>Streams\<close> (\<open>grimoire-gateway/src/stream.rs\<close>): the bridge streams and the waiting requests.
  \<^item> \<open>Gateway\<close>, \<open>Gateway_Safety\<close>, \<open>Gateway_Props\<close>, \<open>Gateway_Routing\<close> (\<open>grimoire-gateway/src/session.rs\<close>
    and the handlers of \<open>main.rs\<close>): sessions, migration, authentication, forwarding, datagrams, pushes,
    kicks; \<open>gw_sys\<close> and \<open>gw_step\<close> run one gateway with all its tasks, in any order.
  \<^item> \<open>Kcp\<close>, \<open>Kcp_Props\<close> (\<open>grimoire-gateway/src/kcp.rs\<close>, the reader of the UDP socket and \<open>push_stream\<close> in
    \<open>main.rs\<close>): the conversations and their drivers; \<open>kcp_sys\<close> and \<open>kcp_step\<close> add them to \<open>gw_sys\<close>.
  \<^item> \<open>Client\<close> (\<open>grimoire-sim/src/client.rs\<close>): requests, the reader, the handshakes, UDP and KCP input.
    \<open>Scenario\<close>, \<open>Scenario_Props\<close>, \<open>RoomScenario\<close>, \<open>SimMain\<close>, \<open>BattleScenario\<close>, \<open>BattleChannels\<close>
    (\<open>grimoire-sim/src/main.rs\<close>): the arguments and modes, \<open>connect\<close>, the lobby, card and battle scenarios with
    what they print, the client's prediction, the channels of the battle scenarios, the stress test, the load generator.
  \<^item> \<open>Startup\<close> (\<open>main\<close> of the services, the registry and the gateway, and the \<open>connect\<close> functions): the arguments, the
    connections, the registration and the listeners, in the order of the code, and the gateway's accept loop.
  \<^item> Across components: \<open>EndToEnd\<close> with the properties of this theory (a request, a push, the
    handshake), \<open>PushPath\<close> (a service's pushes as a queue), \<open>UdpPath\<close> (an input over UDP), \<open>Migration\<close>
    (a lost and resumed connection), \<open>Connection\<close> (one TCP connection with the tasks of both sides:
    \<open>pipe\<close> is one direction, \<open>link_step\<close> one event).

  \<^bold>\<open>How code becomes definitions.\<close>  A Rust struct is a record, an enum a datatype, a \<open>u32\<close> a 32-bit
  word.  A handler takes the state and its arguments and gives an outcome (\<open>Inl\<close> of the panic or
  \<open>Inr\<close> of the result), the new state and the list of effects in the order the code causes them.  A
  \<open>DashMap\<close> is a map; where the code iterates over one, the order is an argument (the keys as a
  list).  A handler that gives up its locks between two accesses is split there, and the parts can be
  interleaved with other requests (\<open>find_waiting\<close>/\<open>start_enter\<close>, \<open>find_open\<close>/\<open>join_enter\<close>,
  \<open>forward_start\<close>/\<open>forward_finish\<close>); otherwise a handler is one step.  An \<open>Arc\<close> that is
  compared or mutated is a number in a store.  The clock, the random source, the answers of Redis, the
  registry and the network, and the order in which a sort leaves equal keys are arguments; what the
  theorems need of them is a named hypothesis (\<open>redis_ok\<close>, \<open>sorts_points\<close>, \<open>visits\<close>, \<open>clock_ok\<close>).

  \<^bold>\<open>What the theorems show.\<close>
  \<^item> Wire formats: any chunking of a stream of frames decodes to the frames, and the parsers
    accept exactly what the formatters produce.
  \<^item> Games: reachable states satisfy the invariants (seats, turns, hit points; members and capacity; inputs
    and frames), the complete effect of a play request, that a view hides other hands, that a
    resync returns exactly the missed frames, that finite inputs keep positions on the field; and where
    these fail, as lemmas about the code as it is: a leave on the wrong turn, a race
    of two starts, an infinite input, a second room.
  \<^item> Registry: each node's entry is a lease automaton of its own (\<open>lease_table\<close>), discovery returns exactly
    the live ones, on memory as on a documented etcd; a service whose heartbeats arrive within ten
    seconds of every sweep stays registered with its data.
  \<^item> Discovery: the search of the ring equals a linear scan (a lemma), a key keeps its node under changes
    that keep the node, the cache and pools stay well-formed and no look-up panics.
  \<^item> Session directory and profile store: on a documented Redis the directory is a pair of maps; the cached
    store answers like its table; as a lemma: an interleaved load leaves a stale record.
  \<^item> Gateway: no unauthenticated request is forwarded except out of a datagram, a request is
    answered once, replies are correlated; every domain that learned of a connection is notified of
    its end; the requests of a bound session go to its host, its datagrams and its disconnect notice do not.
    As lemmas: a resume takes over a number and leaks its entry, a repeated sequence number ends both
    requests, a stream that ends while it is opened leaves a dead entry for good.
  \<^item> KCP: a conversation has one driver and keeps its first address; as lemmas: a turn of a driver ends, a
    stranger's datagram captures the pushes of a connection, a stray conversation stays.
  \<^item> Push path: from the service's call to the gateway it is a queue without loss, doubling or overtaking; the
    client reads the service's push on every way; as lemmas: a gateway that registered again is not found, a
    push stream that ended is never rebuilt.
  \<^item> TCP: a connection is two queues of frames, however the bytes are cut and whatever else happens; as lemmas: a
    client whose reader has ended still sends, and gets nothing.
  \<^item> Start-up: a start changes its own registry entry only, and a failed one leaves an entry for ten seconds;
    a system that has started is connected: discovery and the pushers find exactly its processes.
  \<^item> The whole: a request makes the round trip from client to service and back, client and gateway agree on
    authentication, an input over UDP is queued for its player, a player survives the migration of its connection within the grace period, the card
    scenario plays out, two clients of the battle scenario get the same frames without a gap, the second client of
    the UDP scenario gets them over TCP only, the client's prediction is the service's movement.  As lemmas: the lobby
    scenario gathers its players, the stress test fills battles two by two, the report of the load generator is
    exact, and it panics above a million requests a second.

  The locales are the interfaces between these: \<open>service_bridge\<close> (a reply echoes its request;
  interpreted on the three services), \<open>lease_table\<close> (registry, interpreted on \<open>reg_step\<close>), \<open>sorted_search\<close>
  (the standard library's search, interpreted on \<open>binary_search\<close>), \<open>stream_codec\<close> (interpreted on the
  TCP codec) and the counted state machines of the services, each interpreted in the
  theory that provides the operations.

  \<^bold>\<open>Bounds.\<close>  The counters of the services are 32-bit and wrap; invariants that rest on fresh numbers are
  stated for fewer than \<open>2 ^ 32 - 1\<close> requests.  A frame's payload is at most 4 MiB, a battle keeps the
  last 30 frames, the node cache is fresh for three seconds, a push queue holds 1024 requests.  The
  binary search is a \<open>while_option\<close>, with a lemma that it ends; the loop that empties a KCP conversation is a
  partial function, with a lemma that it ends when the library hands out finitely many messages; the
  card scenario counts its 41 rounds.  No other loop needs fuel.

  \<^bold>\<open>Not modelled.\<close>  What is left of the source are calls of libraries: parsing the command line, logging, sockets,
  timers and TLS with its certificate verifier (their results are arguments: \<open>start_env\<close>, \<open>gateway_env\<close>, \<open>dial\<close>); the
  \<open>kcp\<close>, Redis, PostgreSQL and etcd libraries, which are parameters of documented behaviour; the code
  \<open>grimoire-pb\<close> generates from \<open>messages.proto\<close>, whose encoders and decoders are parameters; the module
  declarations of \<open>grimoire-svcfw/src/lib.rs\<close>; two rates in the reports of the stress test and the load
  generator, which are printed in double precision.
\<close>

section \<open>A request from client to service and back\<close>

text \<open>
  C6: A request makes the round trip: the frame of a client's request survives the wire; the service
  is asked exactly that message with that payload under the connection's number; and when the
  service answers (every reply of the three services echoes its request), then in whatever later
  states of gateway and client the request still waits, the gateway hands the reply to it and sends
  one response, which survives the wire too, the client hands it to this request and to no other,
  and the request returns the service's payload, or its error text when it refused.
\<close>

theorem request_round_trip:
  assumes "begin_request cl m p w = (Inr f, cl1)" "length p \<le> unat MAX_PAYLOAD"
    and "forward_begin env gw a f v = (Inr (Inr ()), gw1, es)" "Forward c req \<in> set es"
    and "echoes req rep" "length (fr_payload rep) \<le> unat MAX_PAYLOAD"
    and "st_pending (gw_streams gw2) (so_conn_id (gw_objs gw a), f_seq f) = Some v" "so_open (gw_objs gw2 a)"
    and "cl_reading cl2" "cl_responses cl2 (f_seq f) = Some w"
  shows "\<exists>r. decode (encode f) = (Inr (Some f), []) \<and>
     req = \<lparr>fq_conn_id = so_conn_id (gw_objs gw a), fq_seq = f_seq f, fq_msg_id = m, fq_payload = p\<rparr> \<and>
     fst (reply_arrives (gw_streams gw2) rep) = Some (v, rep) \<and>
     forward_finish gw2 a f (Replied rep) = (gw2, [ToClient a r]) \<and>
     decode (encode r) = (Inr (Some r), []) \<and>
     fst (on_server_frame cl2 r) = [Hand w r] \<and>
     end_request (Answered r) = request_result rep"
proof -
  note f = begin_request_frame [OF assms(1)]
  note req = begin_forwards [OF assms(3,4)]
  have rep: "fr_conn_id rep = so_conn_id (gw_objs gw a)" "fr_seq rep = f_seq f" "fr_msg_id rep = m"
    using assms(5) req f by (simp_all add: echoes_def)
  have "m \<noteq> 0" using begin_known [OF assms(3)] f by simp
  then have result: "end_request (Answered (answer_frame rep)) = request_result rep"
    using rep(3) by (simp add: end_request_answer)
  have wire: "decode (encode f) = (Inr (Some f), [])" "decode (encode (answer_frame rep)) = (Inr (Some (answer_frame rep)), [])"
    using decode_encode [of f "[]"] decode_encode [of "answer_frame rep" "[]"] assms(2,6) f by simp_all
  have "fst (on_server_frame cl2 (answer_frame rep)) = [Hand w (answer_frame rep)]"
    using answer_handed [OF assms(9), of "answer_frame rep" w] assms(10) rep(2) by simp
  moreover have "fst (reply_arrives (gw_streams gw2) rep) = Some (v, rep)"
    using assms(7) rep(1,2) by (intro reply_delivered) simp
  ultimately show ?thesis
    using finish_replied [OF assms(8) rep(2)] wire result req f by (intro exI [of _ "answer_frame rep"]) simp
qed

theorem request_round_trip_witness:
  "\<exists>f es rep r cl1 gw1 s'.
     begin_request (client_new\<lparr>cl_seq := 2\<rparr>) BATTLE_INPUT [1, 2] 9 = (Inr f, cl1) \<and>
     forward_begin demo_env authed_gw 0 f 4 = (Inr (Inr ()), gw1, es) \<and> Forward 0 demo_forwarded \<in> set es \<and>
     battle_process demo_codec ([], []) (battle_app_new False ''n'') demo_forwarded = (Inr rep, s', []) \<and>
     forward_finish gw1 0 f (Replied rep) = (gw1, [ToClient 0 r]) \<and>
     fst (on_server_frame cl1 r) = [Hand 9 r] \<and>
     end_request (Answered r) = Inr \<lparr>f_ptype = Response, f_msg_id = BATTLE_INPUT, f_seq = 2, f_payload = [7]\<rparr>"
proof -
  let ?es = "[NotifyConnected ''x:1'' 0x01000000, Forward 0 demo_forwarded]"
  let ?cl = "client_new\<lparr>cl_seq := 3, cl_responses := [2 \<mapsto> 9]\<rparr>"
  let ?rep = "reply_ok demo_forwarded [7]"
  have seq: "f_seq (demo_request 2) = 2" by (simp add: demo_request_def)
  have "\<exists>r. decode (encode (demo_request 2)) = (Inr (Some (demo_request 2)), []) \<and>
     demo_forwarded = \<lparr>fq_conn_id = so_conn_id (gw_objs authed_gw 0), fq_seq = f_seq (demo_request 2),
        fq_msg_id = BATTLE_INPUT, fq_payload = [1, 2]\<rparr> \<and>
     fst (reply_arrives (gw_streams demo_started) ?rep) = Some (4, ?rep) \<and>
     forward_finish demo_started 0 (demo_request 2) (Replied ?rep) = (demo_started, [ToClient 0 r]) \<and>
     decode (encode r) = (Inr (Some r), []) \<and> fst (on_server_frame ?cl r) = [Hand 9 r] \<and>
     end_request (Answered r) = request_result ?rep"
    by (rule request_round_trip [OF demo_begin_request _ demo_started_begin])
      (simp_all add: MAX_PAYLOAD_unat reply_ok_def echoes_def seq client_new_def session_new_def)
  then obtain r where r: "forward_finish demo_started 0 (demo_request 2) (Replied ?rep) = (demo_started, [ToClient 0 r])"
    "fst (on_server_frame ?cl r) = [Hand 9 r]" "end_request (Answered r) = request_result ?rep"
    by blast
  have "request_result ?rep = Inr \<lparr>f_ptype = Response, f_msg_id = BATTLE_INPUT, f_seq = 2, f_payload = [7]\<rparr>"
    by (simp add: request_result_def reply_ok_def demo_forwarded_def)
  with r demo_begin_request demo_started_begin demo_reply show ?thesis
    by (intro exI [of _ "demo_request 2"] exI [of _ ?es] exI [of _ ?rep] exI [of _ r] exI [of _ ?cl]
        exI [of _ demo_started] exI [of _ "battle_app_new False ''n''"]) simp
qed

section \<open>A push from service to client\<close>

text \<open>
  C14: A push reaches its client unchanged on every way: what a service's push puts into the queue of the
  gateway's stream, the gateway, when it accepts it, passes on exactly once, to the connection that
  holds the number, as a frame, or as a datagram or a KCP packet when the service asked for UDP and
  the connection has one; and the client reads the service's message number and payload from it.
\<close>

theorem push_reaches_client:
  assumes "push_via pu c m p udp reply connects opens = (True, pu')" "pu_streams pu' (gateway_id_of c) = Some s"
    and "route_push gw kcp up (last (ps_queue (pu_objs pu' s))) = (True, es)"
    and "m \<noteq> SYS_CONN_ID" "length p \<le> MAX_DATAGRAM - udp_HEADER_LEN"
  shows "\<exists>a e. gw_sessions gw c = Some a \<and> es = [e] \<and> push_got e = Some (m, p) \<and>
     (e = ToClient a (push_frame m p) \<or>
      (udp \<and> (\<exists>addr. so_udp (gw_objs gw a) = Some addr \<and> e = ToUdp addr (push_datagram m 0 p))) \<or>
      (udp \<and> (\<exists>k. gw_kcp gw (so_conn_id (gw_objs gw a)) = Some k \<and>
         e = ToKcp k (peer_packet (so_conn_id (gw_objs gw a)) m p))))"
proof -
  have q: "last (ps_queue (pu_objs pu' s)) = \<lparr>pq_conn_id = c, pq_msg_id = m, pq_payload = p, pq_udp = udp\<rparr>"
    using push_via_queued [OF assms(1)] assms(2) by auto
  with assms(3) obtain a where a: "gw_sessions gw c = Some a" "push_msg gw a kcp up m p udp = (True, es)"
    by (auto simp: route_push_def split: option.splits)
  from push_msg_got [OF a(2) assms(4,5)] a(1) show ?thesis by blast
qed

theorem push_reaches_client_witness:
  "\<exists>pu' es. push_via pusher_new 0x01000000 BATTLE_FRAME_SYNC [5] True (Some [gw_1]) (\<lambda>_. True) (\<lambda>_. True) = (True, pu') \<and>
     route_push demo_bound True True (last (ps_queue (pu_objs pu' 0))) = (True, es) \<and>
     es = [ToUdp ''c:7'' (push_datagram BATTLE_FRAME_SYNC 0 [5])] \<and> map push_got es = [Some (BATTLE_FRAME_SYNC, [5])]"
proof -
  obtain pu' where v: "push_via pusher_new 0x01000000 BATTLE_FRAME_SYNC [5] True (Some [gw_1]) (\<lambda>_. True) (\<lambda>_. True) = (True, pu')"
    "pu_streams pu' 1 = Some 0"
    using demo_push by blast
  have id: "gateway_id_of 0x01000000 = 1" by (simp add: gateway_id_of_def GATEWAY_ID_SHIFT_def)
  have q: "last (ps_queue (pu_objs pu' 0)) =
      \<lparr>pq_conn_id = 0x01000000, pq_msg_id = BATTLE_FRAME_SYNC, pq_payload = [5], pq_udp = True\<rparr>"
    using push_via_queued [OF v(1)] v(2) by (simp add: id)
  have r: "route_push demo_bound True True (last (ps_queue (pu_objs pu' 0))) =
      (True, [ToUdp ''c:7'' (push_datagram BATTLE_FRAME_SYNC 0 [5])])"
    unfolding q by (rule demo_bound_push)
  have "BATTLE_FRAME_SYNC \<noteq> SYS_CONN_ID" by (simp add: msg_defs sys_defs)
  from push_reaches_client [OF v(1) _ r this] v(2)
  have "push_got (ToUdp ''c:7'' (push_datagram BATTLE_FRAME_SYNC 0 [5])) = Some (BATTLE_FRAME_SYNC, [5])"
    by (auto simp: id udp_consts simp del: push_got.simps)
  with v(1) r show ?thesis by (simp del: push_got.simps)
qed

section \<open>The handshake\<close>

text \<open>
  C37: Authentication agrees on both sides: for a token and a secret of ASCII characters, the client's
  call succeeds exactly when no secret is configured or the token is the secret, the gateway then
  holds the connection for authenticated, and otherwise not; the next request of the connection is
  forwarded or refused accordingly.
\<close>

theorem auth_handshake:
  assumes "auth_begin cl token w = (Inr f, cl1)" "ascii token" "so_open (gw_objs gw a)"
    and "f2 = \<lparr>f_ptype = Request, f_msg_id = m, f_seq = q, f_payload = p\<rparr>" "m \<notin> {SYS_RESUME, SYS_BIND_SESSION, SYS_AUTH}"
  shows "\<exists>gw' r. on_frame gw a c f = (Continue, gw', [ToClient a r]) \<and>
     (auth_end (Answered r) = Inr () \<longleftrightarrow> gw_auth_secret gw = [] \<or> token = gw_auth_secret gw) \<and>
     (fst (on_frame gw' a c f2) = Spawn \<longleftrightarrow> gw_auth_secret gw = [] \<or> token = gw_auth_secret gw)"
proof -
  let ?ok = "gw_auth_secret gw = [] \<or> token = gw_auth_secret gw"
  let ?gw = "set_obj gw a (set_authed (gw_objs gw a) ?ok)"
  let ?r = "response_frame (if ?ok then SYS_AUTH else 0) (f_seq f) []"
  have f: "f_ptype f = Request" "f_msg_id f = SYS_AUTH" "f_payload f = string_bytes token"
    using begin_request_frame [of cl SYS_AUTH "string_bytes token" w f cl1] assms(1) by (simp_all add: auth_begin_def)
  have "lossy (f_payload f) = string_bytes (gw_auth_secret gw) \<longleftrightarrow> token = gw_auth_secret gw"
    using f(3) lossy_token [OF assms(2)] by (simp add: string_bytes_inject)
  then have "on_frame gw a c f = (Continue, ?gw, [ToClient a ?r])"
    using f assms(3) by (simp add: on_frame_def handle_auth_def session_send_def set_obj_def set_authed_def)
  moreover have "auth_end (Answered ?r) = Inr () \<longleftrightarrow> ?ok"
    by (simp add: auth_end_def end_request_def response_frame_def SYS_AUTH_def)
  moreover have "fst (on_frame ?gw a c f2) = Spawn \<longleftrightarrow> ?ok"
    using assms(4,5) by (auto simp: on_frame_def set_obj_def set_authed_def)
  ultimately show ?thesis by blast
qed

theorem auth_handshake_witness:
  "\<exists>f cl1 gw' r. auth_begin client_new ''pw'' 0 = (Inr f, cl1) \<and>
     on_frame demo_gw 0 0x01000000 f = (Continue, gw', [ToClient 0 r]) \<and> auth_end (Answered r) = Inr () \<and>
     fst (on_frame gw' 0 0x01000000 (demo_request 2)) = Spawn"
proof -
  obtain f cl1 where f: "auth_begin client_new ''pw'' 0 = (Inr f, cl1)"
    by (simp add: auth_begin_def begin_request_def client_new_def)
  have secret: "gw_auth_secret demo_gw = ''pw''" "so_open (gw_objs demo_gw 0)"
    by (simp_all add: demo_gw_def gw_run_def gw_start_def gw_simps)
  have "ascii ''pw''" by (simp add: ascii_def)
  from auth_handshake [OF f this secret(2) demo_request_def, where c = "0x01000000" and q = 2]
  show ?thesis using f demo_msg by (simp add: secret(1))
qed

end
